(* ===== verification/Prelude.thy ===== *)
theory Prelude
  imports Main "HOL-Library.Monad_Syntax" "HOL-Library.Word" "HOL-Library.Multiset"
begin

text \<open>
  Shared vocabulary of the Pintos development.

  \<^item> A kernel routine that can panic (a failed \<open>ASSERT\<close>, an explicit \<open>PANIC\<close>), dereference an
    address that holds no object, or loop for ever returns an \<open>option\<close>: \<open>None\<close> is "the kernel does
    not come back from this call". Sequencing is the option monad's \<open>do\<close> notation.
  \<^item> Addresses are natural numbers, \<open>NULL\<close> is 0.
  \<^item> \<open>wrap_s32\<close> and \<open>wrap_u32\<close> reduce a mathematical integer to C's \<open>int\<close> and \<open>unsigned\<close>;
    \<open>size_add\<close> adds numbers of type \<open>size_t\<close>;
    \<open>c_div\<close> and \<open>c_mod\<close> are C's truncating division.
\<close>

named_theorems heap_simps \<open>evaluation of loads and stores on a heap of list elements\<close>
named_theorems cint_simps \<open>C integer conversions on values in range\<close>
named_theorems kinv \<open>preservation of component invariants\<close>

type_synonym addr = nat

abbreviation NULL :: addr where "NULL \<equiv> 0"

definition ASSERT :: "bool \<Rightarrow> unit option" where
  "ASSERT b = (if b then Some () else None)"

lemma ASSERT_True [simp]: "ASSERT True = Some ()"
  by (simp add: ASSERT_def)

lemma ASSERT_False [simp]: "ASSERT False = None"
  by (simp add: ASSERT_def)

lemma ASSERT_eq_Some [simp]: "ASSERT b = Some u \<longleftrightarrow> b"
  by (simp add: ASSERT_def)

lemma bind_ASSERT_eq_Some [simp]:
  "Option.bind (ASSERT b) f = Some y \<longleftrightarrow> b \<and> f () = Some y"
  by (simp add: ASSERT_def)

lemma bind_ASSERT [simp]: "b \<Longrightarrow> Option.bind (ASSERT b) f = f ()"
  by (simp add: ASSERT_def)

lemma bind_ASSERT_not [simp]: "\<not> b \<Longrightarrow> Option.bind (ASSERT b) f = None"
  by (simp add: ASSERT_def)

section \<open>C integers\<close>

definition wrap_s32 :: "int \<Rightarrow> int" where
  "wrap_s32 x = (x + 2147483648) mod 4294967296 - 2147483648"

definition wrap_u32 :: "int \<Rightarrow> int" where
  "wrap_u32 x = x mod 4294967296"

definition wrap_s64 :: "int \<Rightarrow> int" where
  "wrap_s64 x = (x + 9223372036854775808) mod 18446744073709551616 - 9223372036854775808"

definition size_add :: "nat \<Rightarrow> nat \<Rightarrow> nat" where
  "size_add a b = (a + b) mod 4294967296"

definition c_div :: "int \<Rightarrow> int \<Rightarrow> int" where
  "c_div a b = sgn a * sgn b * (\<bar>a\<bar> div \<bar>b\<bar>)"

definition c_mod :: "int \<Rightarrow> int \<Rightarrow> int" where
  "c_mod a b = a - b * c_div a b"

lemma wrap_s32_id [cint_simps]:
  "- 2147483648 \<le> x \<Longrightarrow> x < 2147483648 \<Longrightarrow> wrap_s32 x = x"
  by (simp add: wrap_s32_def)

lemma wrap_s64_id [cint_simps]:
  "- 9223372036854775808 \<le> x \<Longrightarrow> x < 9223372036854775808 \<Longrightarrow> wrap_s64 x = x"
  by (simp add: wrap_s64_def)

lemma wrap_u32_id [cint_simps]: "0 \<le> x \<Longrightarrow> x < 4294967296 \<Longrightarrow> wrap_u32 x = x"
  by (simp add: wrap_u32_def)

lemma wrap_s32_range: "- 2147483648 \<le> wrap_s32 x \<and> wrap_s32 x < 2147483648"
  by (simp add: wrap_s32_def)

lemma wrap_u32_range: "0 \<le> wrap_u32 x \<and> wrap_u32 x < 4294967296"
  by (simp add: wrap_u32_def)

lemma c_div_nonneg [cint_simps]: "0 \<le> a \<Longrightarrow> 0 < b \<Longrightarrow> c_div a b = a div b"
  by (cases "a = 0") (auto simp: c_div_def)

lemma c_div_neg: "a < 0 \<Longrightarrow> 0 < b \<Longrightarrow> c_div a b = - ((- a) div b)"
  by (simp add: c_div_def)

lemma c_mod_nonneg [cint_simps]: "0 \<le> a \<Longrightarrow> 0 < b \<Longrightarrow> c_mod a b = a mod b"
  by (simp add: c_mod_def c_div_nonneg minus_mult_div_eq_mod)

lemma c_div_mono: "a \<le> a' \<Longrightarrow> 0 < b \<Longrightarrow> c_div a b \<le> c_div a' b"
proof -
  assume h: "a \<le> a'" "0 < b"
  consider "0 \<le> a" | "a < 0" "0 \<le> a'" | "a' < 0" using h by linarith
  then show ?thesis
  proof cases
    case 1
    with h show ?thesis by (simp add: c_div_nonneg zdiv_mono1)
  next
    case 2
    have "0 \<le> (- a) div b" using 2 h by (simp add: pos_imp_zdiv_nonneg_iff)
    moreover have "0 \<le> a' div b" using 2 h by (simp add: pos_imp_zdiv_nonneg_iff)
    ultimately show ?thesis using 2 h by (simp add: c_div_nonneg c_div_neg)
  next
    case 3
    have "(- a') div b \<le> (- a) div b" using h by (intro zdiv_mono1) auto
    with 3 h show ?thesis by (simp add: c_div_neg)
  qed
qed

section \<open>Lists\<close>

lemma distinct_split_unique:
  assumes "distinct (xs @ a # ys)" and "xs @ a # ys = xs' @ a # ys'"
  shows "xs = xs' \<and> ys = ys'"
  using assms by (metis append_Cons_eq_iff distinct_append distinct.simps(2)
      not_distinct_conv_prefix)

end
