(* ===== verification/Kernel_List.thy ===== *)
theory Kernel_List
  imports Prelude
begin

text \<open>
  \<^verbatim>\<open>lib/kernel/list.c\<close>: doubly linked lists whose links are embedded in the elements.

  The heap maps the address of a \<open>struct list_elem\<close> to its two links. A \<open>struct list\<close> at
  address \<open>l\<close> consists of its two header elements: \<open>&list->head\<close> is \<open>l\<close> itself and
  \<open>&list->tail\<close> is \<open>l + 8\<close>, one \<open>struct list_elem\<close> (two 32-bit pointers) further. Every
  routine performs the loads and stores of the C code in their order; \<open>None\<close> is a failed
  \<open>ASSERT\<close>, an access to an address that holds no element, or a loop that never ends.
  The comparison functions \<open>list_less_func\<close> read the structures the elements are embedded in,
  which no list routine writes, so they are a parameter \<open>lessf\<close> on addresses.
\<close>

section \<open>Memory\<close>

record list_elem =
  prev :: addr
  "next" :: addr

type_synonym heap = "addr \<rightharpoonup> list_elem"

definition load :: "heap \<Rightarrow> addr \<Rightarrow> list_elem option" where
  "load h a = (if a = NULL then None else h a)"

definition get_prev :: "heap \<Rightarrow> addr \<Rightarrow> addr option" where
  "get_prev h a = do { e \<leftarrow> load h a; Some (prev e) }"

definition get_next :: "heap \<Rightarrow> addr \<Rightarrow> addr option" where
  "get_next h a = do { e \<leftarrow> load h a; Some (next e) }"

definition set_prev :: "heap \<Rightarrow> addr \<Rightarrow> addr \<Rightarrow> heap option" where
  "set_prev h a p = do { e \<leftarrow> load h a; Some (h(a \<mapsto> e\<lparr>prev := p\<rparr>)) }"

definition set_next :: "heap \<Rightarrow> addr \<Rightarrow> addr \<Rightarrow> heap option" where
  "set_next h a n = do { e \<leftarrow> load h a; Some (h(a \<mapsto> e\<lparr>next := n\<rparr>)) }"

section \<open>Predicates on elements\<close>

definition is_head :: "heap \<Rightarrow> addr \<Rightarrow> bool option" where
  "is_head h e = (if e = NULL then Some False else do {
     x \<leftarrow> load h e; Some (prev x = NULL \<and> next x \<noteq> NULL) })"

definition is_interior :: "heap \<Rightarrow> addr \<Rightarrow> bool option" where
  "is_interior h e = (if e = NULL then Some False else do {
     x \<leftarrow> load h e; Some (prev x \<noteq> NULL \<and> next x \<noteq> NULL) })"

definition is_tail :: "heap \<Rightarrow> addr \<Rightarrow> bool option" where
  "is_tail h e = (if e = NULL then Some False else do {
     x \<leftarrow> load h e; Some (prev x \<noteq> NULL \<and> next x = NULL) })"

section \<open>Initialisation and traversal\<close>

definition head_of :: "addr \<Rightarrow> addr" where "head_of l = l"

definition tail_of :: "addr \<Rightarrow> addr" where "tail_of l = l + 8"

definition list_init :: "heap \<Rightarrow> addr \<Rightarrow> heap option" where
  "list_init h l = do {
     ASSERT (l \<noteq> NULL);
     h \<leftarrow> set_prev h (head_of l) NULL;
     h \<leftarrow> set_next h (head_of l) (tail_of l);
     h \<leftarrow> set_prev h (tail_of l) (head_of l);
     set_next h (tail_of l) NULL }"

definition list_begin :: "heap \<Rightarrow> addr \<Rightarrow> addr option" where
  "list_begin h l = do { ASSERT (l \<noteq> NULL); get_next h (head_of l) }"

definition list_next :: "heap \<Rightarrow> addr \<Rightarrow> addr option" where
  "list_next h e = do {
     b1 \<leftarrow> is_head h e; b2 \<leftarrow> is_interior h e;
     ASSERT (b1 \<or> b2);
     get_next h e }"

definition list_end :: "heap \<Rightarrow> addr \<Rightarrow> addr option" where
  "list_end h l = do { ASSERT (l \<noteq> NULL); Some (tail_of l) }"

definition list_rbegin :: "heap \<Rightarrow> addr \<Rightarrow> addr option" where
  "list_rbegin h l = do { ASSERT (l \<noteq> NULL); get_prev h (tail_of l) }"

definition list_prev :: "heap \<Rightarrow> addr \<Rightarrow> addr option" where
  "list_prev h e = do {
     b1 \<leftarrow> is_interior h e; b2 \<leftarrow> is_tail h e;
     ASSERT (b1 \<or> b2);
     get_prev h e }"

definition list_rend :: "heap \<Rightarrow> addr \<Rightarrow> addr option" where
  "list_rend h l = do { ASSERT (l \<noteq> NULL); Some (head_of l) }"

definition list_head :: "heap \<Rightarrow> addr \<Rightarrow> addr option" where
  "list_head h l = do { ASSERT (l \<noteq> NULL); Some (head_of l) }"

definition list_tail :: "heap \<Rightarrow> addr \<Rightarrow> addr option" where
  "list_tail h l = do { ASSERT (l \<noteq> NULL); Some (tail_of l) }"

section \<open>Insertion and removal\<close>

definition list_insert :: "heap \<Rightarrow> addr \<Rightarrow> addr \<Rightarrow> heap option" where
  "list_insert h before elem = do {
     b1 \<leftarrow> is_interior h before; b2 \<leftarrow> is_tail h before;
     ASSERT (b1 \<or> b2);
     ASSERT (elem \<noteq> NULL);
     p \<leftarrow> get_prev h before;
     h \<leftarrow> set_prev h elem p;
     h \<leftarrow> set_next h elem before;
     p \<leftarrow> get_prev h before;
     h \<leftarrow> set_next h p elem;
     set_prev h before elem }"

definition list_splice :: "heap \<Rightarrow> addr \<Rightarrow> addr \<Rightarrow> addr \<Rightarrow> heap option" where
  "list_splice h before first last' = do {
     b1 \<leftarrow> is_interior h before; b2 \<leftarrow> is_tail h before;
     ASSERT (b1 \<or> b2);
     if first = last' then Some h else do {
       last' \<leftarrow> list_prev h last';
       i1 \<leftarrow> is_interior h first; ASSERT i1;
       i2 \<leftarrow> is_interior h last'; ASSERT i2;
       fp \<leftarrow> get_prev h first; ln \<leftarrow> get_next h last';
       h \<leftarrow> set_next h fp ln;
       ln \<leftarrow> get_next h last'; fp \<leftarrow> get_prev h first;
       h \<leftarrow> set_prev h ln fp;
       bp \<leftarrow> get_prev h before;
       h \<leftarrow> set_prev h first bp;
       h \<leftarrow> set_next h last' before;
       bp \<leftarrow> get_prev h before;
       h \<leftarrow> set_next h bp first;
       set_prev h before last' } }"

definition list_push_front :: "heap \<Rightarrow> addr \<Rightarrow> addr \<Rightarrow> heap option" where
  "list_push_front h l elem = do { b \<leftarrow> list_begin h l; list_insert h b elem }"

definition list_push_back :: "heap \<Rightarrow> addr \<Rightarrow> addr \<Rightarrow> heap option" where
  "list_push_back h l elem = do { e \<leftarrow> list_end h l; list_insert h e elem }"

definition list_remove :: "heap \<Rightarrow> addr \<Rightarrow> (addr \<times> heap) option" where
  "list_remove h elem = do {
     i \<leftarrow> is_interior h elem; ASSERT i;
     p \<leftarrow> get_prev h elem; n \<leftarrow> get_next h elem;
     h \<leftarrow> set_next h p n;
     n \<leftarrow> get_next h elem; p \<leftarrow> get_prev h elem;
     h \<leftarrow> set_prev h n p;
     r \<leftarrow> get_next h elem;
     Some (r, h) }"

definition list_empty :: "heap \<Rightarrow> addr \<Rightarrow> bool option" where
  "list_empty h l = do { b \<leftarrow> list_begin h l; e \<leftarrow> list_end h l; Some (b = e) }"

definition list_front :: "heap \<Rightarrow> addr \<Rightarrow> addr option" where
  "list_front h l = do { b \<leftarrow> list_empty h l; ASSERT (\<not> b); get_next h (head_of l) }"

definition list_back :: "heap \<Rightarrow> addr \<Rightarrow> addr option" where
  "list_back h l = do { b \<leftarrow> list_empty h l; ASSERT (\<not> b); get_prev h (tail_of l) }"

definition list_pop_front :: "heap \<Rightarrow> addr \<Rightarrow> (addr \<times> heap) option" where
  "list_pop_front h l = do { f \<leftarrow> list_front h l; (_, h) \<leftarrow> list_remove h f; Some (f, h) }"

definition list_pop_back :: "heap \<Rightarrow> addr \<Rightarrow> (addr \<times> heap) option" where
  "list_pop_back h l = do { b \<leftarrow> list_back h l; (_, h) \<leftarrow> list_remove h b; Some (b, h) }"

section \<open>Loops over the elements\<close>

partial_function (option) list_size_loop :: "heap \<Rightarrow> addr \<Rightarrow> addr \<Rightarrow> nat \<Rightarrow> nat option" where
  "list_size_loop h l e cnt = do {
     t \<leftarrow> list_end h l;
     if e = t then Some cnt else do { n \<leftarrow> list_next h e; list_size_loop h l n (cnt + 1) } }"

definition list_size :: "heap \<Rightarrow> addr \<Rightarrow> nat option" where
  "list_size h l = do { b \<leftarrow> list_begin h l; list_size_loop h l b 0 }"

definition swap_links :: "heap \<Rightarrow> addr \<Rightarrow> heap option" where
  "swap_links h e = do {
     p \<leftarrow> get_prev h e; n \<leftarrow> get_next h e;
     h \<leftarrow> set_prev h e n; set_next h e p }"

partial_function (option) list_reverse_loop :: "heap \<Rightarrow> addr \<Rightarrow> addr \<Rightarrow> heap option" where
  "list_reverse_loop h l e = do {
     t \<leftarrow> list_end h l;
     if e = t then Some h else do {
       h \<leftarrow> swap_links h e; n \<leftarrow> get_prev h e; list_reverse_loop h l n } }"

definition list_reverse :: "heap \<Rightarrow> addr \<Rightarrow> heap option" where
  "list_reverse h l = do {
     em \<leftarrow> list_empty h l;
     if em then Some h else do {
       b \<leftarrow> list_begin h l;
       h \<leftarrow> list_reverse_loop h l b;
       hn \<leftarrow> get_next h (head_of l); tp \<leftarrow> get_prev h (tail_of l);
       h \<leftarrow> set_next h (head_of l) tp;
       h \<leftarrow> set_prev h (tail_of l) hn;
       hn \<leftarrow> get_next h (head_of l); tp \<leftarrow> get_prev h (tail_of l);
       hnp \<leftarrow> get_prev h hn; tpn \<leftarrow> get_next h tp;
       h \<leftarrow> set_prev h hn tpn;
       set_next h tp hnp } }"

partial_function (option) is_sorted_loop ::
  "heap \<Rightarrow> addr \<Rightarrow> addr \<Rightarrow> (addr \<Rightarrow> addr \<Rightarrow> bool) \<Rightarrow> bool option" where
  "is_sorted_loop h a b lessf = do {
     a \<leftarrow> list_next h a;
     if a = b then Some True else do {
       p \<leftarrow> list_prev h a;
       if lessf a p then Some False else is_sorted_loop h a b lessf } }"

definition is_sorted :: "heap \<Rightarrow> addr \<Rightarrow> addr \<Rightarrow> (addr \<Rightarrow> addr \<Rightarrow> bool) \<Rightarrow> bool option" where
  "is_sorted h a b lessf = (if a \<noteq> b then is_sorted_loop h a b lessf else Some True)"

partial_function (option) find_end_loop ::
  "heap \<Rightarrow> addr \<Rightarrow> addr \<Rightarrow> (addr \<Rightarrow> addr \<Rightarrow> bool) \<Rightarrow> addr option" where
  "find_end_loop h a b lessf = do {
     a \<leftarrow> list_next h a;
     if a = b then Some a else do {
       p \<leftarrow> list_prev h a;
       if \<not> lessf a p then find_end_loop h a b lessf else Some a } }"

definition find_end_of_run ::
  "heap \<Rightarrow> addr \<Rightarrow> addr \<Rightarrow> (addr \<Rightarrow> addr \<Rightarrow> bool) \<Rightarrow> addr option" where
  "find_end_of_run h a b lessf = do {
     ASSERT (a \<noteq> NULL); ASSERT (b \<noteq> NULL); ASSERT (a \<noteq> b);
     find_end_loop h a b lessf }"

partial_function (option) merge_loop ::
  "heap \<Rightarrow> addr \<Rightarrow> addr \<Rightarrow> addr \<Rightarrow> (addr \<Rightarrow> addr \<Rightarrow> bool) \<Rightarrow> heap option" where
  "merge_loop h a0 a1b0 b1 lessf =
     (if a0 \<noteq> a1b0 \<and> a1b0 \<noteq> b1 then
        if \<not> lessf a1b0 a0 then do { a0 \<leftarrow> list_next h a0; merge_loop h a0 a1b0 b1 lessf }
        else do {
          a1b0 \<leftarrow> list_next h a1b0;
          p \<leftarrow> list_prev h a1b0;
          h \<leftarrow> list_splice h a0 p a1b0;
          merge_loop h a0 a1b0 b1 lessf }
      else Some h)"

definition inplace_merge ::
  "heap \<Rightarrow> addr \<Rightarrow> addr \<Rightarrow> addr \<Rightarrow> (addr \<Rightarrow> addr \<Rightarrow> bool) \<Rightarrow> heap option" where
  "inplace_merge h a0 a1b0 b1 lessf = do {
     ASSERT (a0 \<noteq> NULL); ASSERT (a1b0 \<noteq> NULL); ASSERT (b1 \<noteq> NULL);
     s1 \<leftarrow> is_sorted h a0 a1b0 lessf; ASSERT s1;
     s2 \<leftarrow> is_sorted h a1b0 b1 lessf; ASSERT s2;
     merge_loop h a0 a1b0 b1 lessf }"

partial_function (option) sort_pass ::
  "heap \<Rightarrow> addr \<Rightarrow> addr \<Rightarrow> nat \<Rightarrow> (addr \<Rightarrow> addr \<Rightarrow> bool) \<Rightarrow> (nat \<times> heap) option" where
  "sort_pass h l a0 output_run_cnt lessf = do {
     t \<leftarrow> list_end h l;
     if a0 = t then Some (output_run_cnt, h) else do {
       a1b0 \<leftarrow> find_end_of_run h a0 t lessf;
       if a1b0 = t then Some (output_run_cnt + 1, h) else do {
         b1 \<leftarrow> find_end_of_run h a1b0 t lessf;
         h \<leftarrow> inplace_merge h a0 a1b0 b1 lessf;
         sort_pass h l b1 (output_run_cnt + 1) lessf } } }"

partial_function (option) sort_loop ::
  "heap \<Rightarrow> addr \<Rightarrow> (addr \<Rightarrow> addr \<Rightarrow> bool) \<Rightarrow> heap option" where
  "sort_loop h l lessf = do {
     b \<leftarrow> list_begin h l;
     (output_run_cnt, h) \<leftarrow> sort_pass h l b 0 lessf;
     if output_run_cnt > 1 then sort_loop h l lessf else Some h }"

definition list_sort :: "heap \<Rightarrow> addr \<Rightarrow> (addr \<Rightarrow> addr \<Rightarrow> bool) \<Rightarrow> heap option" where
  "list_sort h l lessf = do {
     ASSERT (l \<noteq> NULL);
     h \<leftarrow> sort_loop h l lessf;
     b \<leftarrow> list_begin h l; e \<leftarrow> list_end h l;
     s \<leftarrow> is_sorted h b e lessf; ASSERT s;
     Some h }"

partial_function (option) insert_ordered_loop ::
  "heap \<Rightarrow> addr \<Rightarrow> addr \<Rightarrow> addr \<Rightarrow> (addr \<Rightarrow> addr \<Rightarrow> bool) \<Rightarrow> addr option" where
  "insert_ordered_loop h l e elem lessf = do {
     t \<leftarrow> list_end h l;
     if e = t then Some e
     else if lessf elem e then Some e
     else do { n \<leftarrow> list_next h e; insert_ordered_loop h l n elem lessf } }"

definition list_insert_ordered ::
  "heap \<Rightarrow> addr \<Rightarrow> addr \<Rightarrow> (addr \<Rightarrow> addr \<Rightarrow> bool) \<Rightarrow> heap option" where
  "list_insert_ordered h l elem lessf = do {
     ASSERT (l \<noteq> NULL); ASSERT (elem \<noteq> NULL);
     b \<leftarrow> list_begin h l;
     e \<leftarrow> insert_ordered_loop h l b elem lessf;
     list_insert h e elem }"

partial_function (option) list_unique_loop ::
  "heap \<Rightarrow> addr \<Rightarrow> addr \<Rightarrow> addr \<Rightarrow> (addr \<Rightarrow> addr \<Rightarrow> bool) \<Rightarrow> heap option" where
  "list_unique_loop h l duplicates elem lessf = do {
     n \<leftarrow> list_next h elem;
     t \<leftarrow> list_end h l;
     if n = t then Some h
     else if \<not> lessf elem n \<and> \<not> lessf n elem then do {
       (_, h) \<leftarrow> list_remove h n;
       h \<leftarrow> (if duplicates \<noteq> NULL then list_push_back h duplicates n else Some h);
       list_unique_loop h l duplicates elem lessf }
     else list_unique_loop h l duplicates n lessf }"

definition list_unique ::
  "heap \<Rightarrow> addr \<Rightarrow> addr \<Rightarrow> (addr \<Rightarrow> addr \<Rightarrow> bool) \<Rightarrow> heap option" where
  "list_unique h l duplicates lessf = do {
     ASSERT (l \<noteq> NULL);
     em \<leftarrow> list_empty h l;
     if em then Some h else do {
       b \<leftarrow> list_begin h l; list_unique_loop h l duplicates b lessf } }"

partial_function (option) list_max_loop ::
  "heap \<Rightarrow> addr \<Rightarrow> addr \<Rightarrow> addr \<Rightarrow> (addr \<Rightarrow> addr \<Rightarrow> bool) \<Rightarrow> addr option" where
  "list_max_loop h l mx e lessf = do {
     t \<leftarrow> list_end h l;
     if e = t then Some mx else do {
       n \<leftarrow> list_next h e;
       list_max_loop h l (if lessf mx e then e else mx) n lessf } }"

definition list_max :: "heap \<Rightarrow> addr \<Rightarrow> (addr \<Rightarrow> addr \<Rightarrow> bool) \<Rightarrow> addr option" where
  "list_max h l lessf = do {
     mx \<leftarrow> list_begin h l; t \<leftarrow> list_end h l;
     if mx \<noteq> t then do { e \<leftarrow> list_next h mx; list_max_loop h l mx e lessf } else Some mx }"

partial_function (option) list_min_loop ::
  "heap \<Rightarrow> addr \<Rightarrow> addr \<Rightarrow> addr \<Rightarrow> (addr \<Rightarrow> addr \<Rightarrow> bool) \<Rightarrow> addr option" where
  "list_min_loop h l mn e lessf = do {
     t \<leftarrow> list_end h l;
     if e = t then Some mn else do {
       n \<leftarrow> list_next h e;
       list_min_loop h l (if lessf e mn then e else mn) n lessf } }"

definition list_min :: "heap \<Rightarrow> addr \<Rightarrow> (addr \<Rightarrow> addr \<Rightarrow> bool) \<Rightarrow> addr option" where
  "list_min h l lessf = do {
     mn \<leftarrow> list_begin h l; t \<leftarrow> list_end h l;
     if mn \<noteq> t then do { e \<leftarrow> list_next h mn; list_min_loop h l mn e lessf } else Some mn }"


section \<open>The heap seen through its two link functions\<close>

definition ok :: "heap \<Rightarrow> addr \<Rightarrow> bool" where
  "ok h a \<longleftrightarrow> a \<noteq> NULL \<and> h a \<noteq> None"

definition prv :: "heap \<Rightarrow> addr \<Rightarrow> addr" where
  "prv h a = prev (the (h a))"

definition nxt :: "heap \<Rightarrow> addr \<Rightarrow> addr" where
  "nxt h a = next (the (h a))"

definition upd_prev :: "heap \<Rightarrow> addr \<Rightarrow> addr \<Rightarrow> heap" where
  "upd_prev h a p = h(a \<mapsto> (the (h a))\<lparr>prev := p\<rparr>)"

definition upd_next :: "heap \<Rightarrow> addr \<Rightarrow> addr \<Rightarrow> heap" where
  "upd_next h a n = h(a \<mapsto> (the (h a))\<lparr>next := n\<rparr>)"

lemma ok_not_NULL: "ok h a \<Longrightarrow> a \<noteq> NULL"
  by (simp add: ok_def)

lemma load_ok [heap_simps]: "ok h a \<Longrightarrow> load h a = Some (the (h a))"
  by (auto simp: ok_def load_def)

lemma get_prev_ok [heap_simps]: "ok h a \<Longrightarrow> get_prev h a = Some (prv h a)"
  by (simp add: get_prev_def load_ok prv_def)

lemma get_next_ok [heap_simps]: "ok h a \<Longrightarrow> get_next h a = Some (nxt h a)"
  by (simp add: get_next_def load_ok nxt_def)

lemma set_prev_ok [heap_simps]: "ok h a \<Longrightarrow> set_prev h a p = Some (upd_prev h a p)"
  by (simp add: set_prev_def load_ok upd_prev_def)

lemma set_next_ok [heap_simps]: "ok h a \<Longrightarrow> set_next h a n = Some (upd_next h a n)"
  by (simp add: set_next_def load_ok upd_next_def)

lemma ok_upd_prev [heap_simps]: "ok h a \<Longrightarrow> ok (upd_prev h a p) b \<longleftrightarrow> ok h b"
  by (auto simp: ok_def upd_prev_def)

lemma ok_upd_next [heap_simps]: "ok h a \<Longrightarrow> ok (upd_next h a n) b \<longleftrightarrow> ok h b"
  by (auto simp: ok_def upd_next_def)

lemma prv_upd_prev [heap_simps]: "prv (upd_prev h a p) = (prv h)(a := p)"
  by (auto simp: prv_def upd_prev_def)

lemma nxt_upd_prev [heap_simps]: "nxt (upd_prev h a p) = nxt h"
  by (auto simp: nxt_def upd_prev_def)

lemma prv_upd_next [heap_simps]: "prv (upd_next h a n) = prv h"
  by (auto simp: prv_def upd_next_def)

lemma nxt_upd_next [heap_simps]: "nxt (upd_next h a n) = (nxt h)(a := n)"
  by (auto simp: nxt_def upd_next_def)

lemma upd_other [heap_simps]:
  "b \<noteq> a \<Longrightarrow> upd_prev h a p b = h b"
  "b \<noteq> a \<Longrightarrow> upd_next h a p b = h b"
  by (simp_all add: upd_prev_def upd_next_def)

lemma is_head_ok [heap_simps]:
  "ok h a \<Longrightarrow> is_head h a = Some (prv h a = NULL \<and> nxt h a \<noteq> NULL)"
  by (auto simp: is_head_def load_ok prv_def nxt_def dest: ok_not_NULL)

lemma is_interior_ok [heap_simps]:
  "ok h a \<Longrightarrow> is_interior h a = Some (prv h a \<noteq> NULL \<and> nxt h a \<noteq> NULL)"
  by (auto simp: is_interior_def load_ok prv_def nxt_def dest: ok_not_NULL)

lemma is_tail_ok [heap_simps]:
  "ok h a \<Longrightarrow> is_tail h a = Some (prv h a \<noteq> NULL \<and> nxt h a = NULL)"
  by (auto simp: is_tail_def load_ok prv_def nxt_def dest: ok_not_NULL)

lemma list_next_ok [heap_simps]:
  "ok h a \<Longrightarrow> nxt h a \<noteq> NULL \<Longrightarrow> list_next h a = Some (nxt h a)"
  by (auto simp: list_next_def heap_simps)

lemma list_prev_ok [heap_simps]:
  "ok h a \<Longrightarrow> prv h a \<noteq> NULL \<Longrightarrow> list_prev h a = Some (prv h a)"
  by (auto simp: list_prev_def heap_simps)

section \<open>The representation invariant\<close>

text \<open>
  \<open>chain n p ps\<close>: consecutive addresses of \<open>ps\<close> point at each other. \<open>linked h ps\<close>: \<open>ps\<close> are
  all the elements of one list in order, headers included, ending in the two null links.
  \<open>is_list h l xs\<close>: the list at \<open>l\<close> holds exactly the interior elements \<open>xs\<close>, in this order.
\<close>

fun chain :: "(addr \<Rightarrow> addr) \<Rightarrow> (addr \<Rightarrow> addr) \<Rightarrow> addr list \<Rightarrow> bool" where
  "chain n p (a # b # cs) = (n a = b \<and> p b = a \<and> chain n p (b # cs))"
| "chain n p _ = True"

definition linked :: "heap \<Rightarrow> addr list \<Rightarrow> bool" where
  "linked h ps \<longleftrightarrow> distinct ps \<and> (\<forall>a \<in> set ps. ok h a) \<and> chain (nxt h) (prv h) ps
     \<and> prv h (hd ps) = NULL \<and> nxt h (last ps) = NULL"

definition is_list :: "heap \<Rightarrow> addr \<Rightarrow> addr list \<Rightarrow> bool" where
  "is_list h l xs \<longleftrightarrow> linked h (head_of l # xs @ [tail_of l])"

definition frame :: "addr set \<Rightarrow> heap \<Rightarrow> heap \<Rightarrow> bool" where
  "frame A h h' \<longleftrightarrow> dom h' = dom h \<and> (\<forall>a. a \<notin> A \<longrightarrow> h' a = h a)"

lemma chain_Cons_Cons: "chain n p (a # b # cs) \<longleftrightarrow> n a = b \<and> p b = a \<and> chain n p (b # cs)"
  by simp

lemma chain_snoc_Cons:
  "chain n p (xs @ a # b # ys) \<longleftrightarrow> chain n p (xs @ [a]) \<and> n a = b \<and> p b = a \<and> chain n p (b # ys)"
proof (induction xs)
  case (Cons x xs)
  then show ?case by (cases xs) auto
qed simp

lemma chain_split:
  "xs \<noteq> [] \<Longrightarrow> ys \<noteq> [] \<Longrightarrow> chain n p (xs @ ys) \<longleftrightarrow>
     chain n p xs \<and> n (last xs) = hd ys \<and> p (hd ys) = last xs \<and> chain n p ys"
proof (induction xs)
  case (Cons x xs)
  then show ?case by (cases xs; cases ys) auto
qed simp

lemma chain_upd_n: "x \<notin> set (butlast xs) \<Longrightarrow> chain (n(x := v)) p xs = chain n p xs"
  by (induction n p xs rule: chain.induct) (auto split: if_splits)

lemma chain_upd_p: "x \<notin> set (tl xs) \<Longrightarrow> chain n (p(x := v)) xs = chain n p xs"
  by (induction n p xs rule: chain.induct) auto

lemma chain_upd_n' [simp]: "x \<notin> set xs \<Longrightarrow> chain (n(x := v)) p xs = chain n p xs"
  by (auto intro!: chain_upd_n dest: in_set_butlastD)

lemma chain_upd_p' [simp]: "x \<notin> set xs \<Longrightarrow> chain n (p(x := v)) xs = chain n p xs"
  by (rule chain_upd_p) (cases xs; auto)

lemma frame_refl [simp]: "frame A h h"
  by (simp add: frame_def)

lemma frame_trans: "frame A h h' \<Longrightarrow> frame A h' h'' \<Longrightarrow> frame A h h''"
  by (simp add: frame_def)

lemma frame_mono: "frame A h h' \<Longrightarrow> A \<subseteq> B \<Longrightarrow> frame B h h'"
  by (auto simp: frame_def)

lemma frame_step_prev: "frame A h h' \<Longrightarrow> ok h a \<Longrightarrow> a \<in> A \<Longrightarrow> frame A h (upd_prev h' a p)"
  by (auto simp: frame_def upd_prev_def ok_def)

lemma frame_step_next: "frame A h h' \<Longrightarrow> ok h a \<Longrightarrow> a \<in> A \<Longrightarrow> frame A h (upd_next h' a p)"
  by (auto simp: frame_def upd_next_def ok_def)

lemma linked_frame:
  assumes "linked h ps" and "frame A h h'" and "set ps \<inter> A = {}" and "ps \<noteq> []"
  shows "linked h' ps"
proof -
  have eq: "h' a = h a" if "a \<in> set ps" for a
    using assms(2,3) that by (auto simp: frame_def)
  have "chain (nxt h') (prv h') ps = chain (nxt h) (prv h) ps" if "\<forall>a \<in> set ps. h' a = h a"
    using that by (induction "nxt h'" "prv h'" ps rule: chain.induct) (auto simp: nxt_def prv_def)
  then show ?thesis
    using assms(1,4) eq by (auto simp: linked_def ok_def nxt_def prv_def)
qed

lemma is_list_frame:
  "is_list h l xs \<Longrightarrow> frame A h h' \<Longrightarrow> insert (head_of l) (insert (tail_of l) (set xs)) \<inter> A = {}
   \<Longrightarrow> is_list h' l xs"
  unfolding is_list_def by (erule linked_frame) auto

text \<open>Neighbours of an element in the middle.\<close>

lemma linked_nxt: "linked h (xs @ a # ys) \<Longrightarrow> ys \<noteq> [] \<Longrightarrow> nxt h a = hd ys"
  by (cases ys) (auto simp: linked_def chain_snoc_Cons)

lemma linked_prv: "linked h (xs @ a # ys) \<Longrightarrow> xs \<noteq> [] \<Longrightarrow> prv h a = last xs"
  by (cases xs rule: rev_cases) (auto simp: linked_def chain_snoc_Cons)

lemma linked_ok: "linked h ps \<Longrightarrow> a \<in> set ps \<Longrightarrow> ok h a"
  by (auto simp: linked_def)

lemma linked_nz: "linked h ps \<Longrightarrow> a \<in> set ps \<Longrightarrow> a \<noteq> 0"
  by (auto simp: linked_def ok_def)


section \<open>The primitive operations on linked elements\<close>

lemma linked_append_ok:
  assumes "linked h (as @ b # bs)" and "as \<noteq> []"
  shows "ok h b" "ok h (last as)" "prv h b = last as" "nxt h (last as) = b"
proof -
  obtain as' a where as: "as = as' @ [a]" using assms(2) by (cases as rule: rev_cases) auto
  show "ok h b" "ok h (last as)" using assms by (auto simp: linked_def)
  show "prv h b = last as" "nxt h (last as) = b"
    using assms(1) by (auto simp: as linked_def chain_snoc_Cons)
qed

lemma list_insert_linked:
  assumes lk: "linked h (as @ b # bs)" and ne: "as \<noteq> []"
    and e: "ok h e" "e \<notin> set (as @ b # bs)"
  shows "\<exists>h'. list_insert h b e = Some h' \<and> linked h' (as @ e # b # bs)
    \<and> frame {last as, e, b} h h'"
proof -
  obtain as' a where as: "as = as' @ [a]" using ne by (cases as rule: rev_cases) auto
  note f = linked_append_ok [OF lk ne]
  have d: "distinct (as' @ a # b # bs)" and okd: "\<forall>x \<in> set (as' @ a # b # bs). ok h x"
    using lk by (auto simp: linked_def as)
  have nz: "a \<noteq> 0" "b \<noteq> 0" "e \<noteq> 0" using okd e(1) by (auto simp: ok_def)
  let ?h = "upd_prev (upd_next (upd_next (upd_prev h e a) e b) a e) b e"
  have "list_insert h b e = Some ?h"
    using f e nz by (auto simp: list_insert_def heap_simps as)
  moreover have "linked ?h (as @ e # b # bs)"
    using lk e d nz unfolding linked_def as
    by (auto simp: heap_simps chain_snoc_Cons chain_upd_n chain_upd_p hd_append last_append split: if_splits)
  moreover have "frame {last as, e, b} h ?h"
    using f e nz okd by (auto simp: as frame_def upd_prev_def upd_next_def ok_def)
  ultimately show ?thesis by blast
qed

lemma list_remove_linked:
  assumes lk: "linked h (as @ e # bs)" and ne: "as \<noteq> []" "bs \<noteq> []"
  shows "\<exists>h'. list_remove h e = Some (hd bs, h') \<and> linked h' (as @ bs)
    \<and> frame {last as, hd bs} h h'"
proof -
  obtain as' a where as: "as = as' @ [a]" using ne by (cases as rule: rev_cases) auto
  obtain b bs' where bs: "bs = b # bs'" using ne by (cases bs) auto
  have d: "distinct (as' @ a # e # b # bs')" and okd: "ok h a" "ok h e" "ok h b"
    and ch: "chain (nxt h) (prv h) (as' @ a # e # b # bs')"
    using lk by (auto simp: linked_def as bs)
  have nz: "a \<noteq> 0" "b \<noteq> 0" "e \<noteq> 0" using okd by (auto simp: ok_def)
  let ?h = "upd_prev (upd_next h a b) b a"
  have nb: "nxt h a = e" "prv h e = a" "nxt h e = b" "prv h b = e"
    using ch by (auto simp: chain_snoc_Cons)
  have "list_remove h e = Some (hd bs, ?h)"
    using okd nz nb d by (auto simp: list_remove_def heap_simps bs)
  moreover have "linked ?h (as @ bs)"
    using lk d nz unfolding linked_def as bs
    by (auto simp: heap_simps chain_snoc_Cons chain_upd_n chain_upd_p hd_append last_append okd split: if_splits)
  moreover have "frame {last as, hd bs} h ?h"
    using okd by (auto simp: as bs frame_def upd_prev_def upd_next_def ok_def)
  ultimately show ?thesis by blast
qed

lemma chain_upd_n_last: "distinct xs \<Longrightarrow> chain (n(last xs := v)) p xs = chain n p xs"
  by (rule chain_upd_n) (cases xs rule: rev_cases; auto)

lemma chain_upd_p_hd: "distinct xs \<Longrightarrow> chain n (p(hd xs := v)) xs = chain n p xs"
  by (rule chain_upd_p) (cases xs; auto)

lemma linked_interior:
  assumes "linked h (as @ xs @ cs)" and "as \<noteq> []" "cs \<noteq> []" "e \<in> set xs"
  shows "ok h e" "nxt h e \<noteq> NULL" "prv h e \<noteq> NULL"
proof -
  obtain us vs where xs: "xs = us @ e # vs" using assms(4) by (meson split_list)
  have lk: "linked h ((as @ us) @ e # (vs @ cs))" using assms(1) by (simp add: xs)
  have "nxt h e = hd (vs @ cs)" "prv h e = last (as @ us)"
    using linked_nxt [OF lk] linked_prv [OF lk] assms(2,3) by auto
  moreover have "hd (vs @ cs) \<noteq> NULL" "last (as @ us) \<noteq> NULL"
    using assms(2,3) linked_nz [OF lk, of "hd (vs @ cs)"] linked_nz [OF lk, of "last (as @ us)"]
    by (auto simp: hd_append last_append)
  ultimately show "ok h e" "nxt h e \<noteq> NULL" "prv h e \<noteq> NULL"
    using linked_ok [OF lk] by auto
qed

lemma chain_splice:
  fixes n p :: "addr \<Rightarrow> addr"
  assumes "distinct (as @ ms @ xs @ cs)" and "as \<noteq> []" "ms \<noteq> []" "xs \<noteq> []" "cs \<noteq> []"
    and "chain n p (as @ ms @ xs @ cs)"
  shows "chain (n(last ms := hd cs, last xs := hd ms, last as := hd xs))
     (p(hd cs := last ms, hd xs := last as, hd ms := last xs)) (as @ xs @ ms @ cs)"
proof -
  let ?n = "n(last ms := hd cs, last xs := hd ms, last as := hd xs)"
  let ?p = "p(hd cs := last ms, hd xs := last as, hd ms := last xs)"
  have mem: "last as \<in> set as" "last ms \<in> set ms" "last xs \<in> set xs"
    "hd cs \<in> set cs" "hd xs \<in> set xs" "hd ms \<in> set ms"
    using assms(2-5) by auto
  have ne: "last as \<noteq> last xs" "last as \<noteq> last ms" "last xs \<noteq> last ms"
     "hd cs \<noteq> hd xs" "hd cs \<noteq> hd ms" "hd xs \<noteq> hd ms"
    using assms(1) mem by (auto simp: disjoint_iff)
  have c: "chain n p as" "chain n p ms" "chain n p xs" "chain n p cs"
    using assms(2-6) by (auto simp: chain_split)
  have out: "last as \<notin> set ms" "last as \<notin> set xs" "last as \<notin> set cs"
    "last xs \<notin> set ms" "last xs \<notin> set as" "last xs \<notin> set cs"
    "last ms \<notin> set xs" "last ms \<notin> set as" "last ms \<notin> set cs"
    "hd cs \<notin> set as" "hd cs \<notin> set ms" "hd cs \<notin> set xs"
    "hd xs \<notin> set as" "hd xs \<notin> set ms" "hd xs \<notin> set cs"
    "hd ms \<notin> set as" "hd ms \<notin> set xs" "hd ms \<notin> set cs"
    using assms(1) mem by (auto simp: disjoint_iff)
  have "chain ?n ?p as" "chain ?n ?p ms" "chain ?n ?p xs" "chain ?n ?p cs"
    using c out assms(1) by (simp_all add: chain_upd_n_last chain_upd_p_hd fun_upd_twist ne)
  then show ?thesis
    using assms(2-5) ne by (simp add: chain_split)
qed

lemma list_splice_linked:
  assumes lk: "linked h (as @ ms @ xs @ cs)" and ne: "as \<noteq> []" "ms \<noteq> []" "xs \<noteq> []" "cs \<noteq> []"
  shows "\<exists>h'. list_splice h (hd ms) (hd xs) (hd cs) = Some h' \<and> linked h' (as @ xs @ ms @ cs)
    \<and> frame (set (as @ ms @ xs @ cs)) h h'"
proof -
  let ?a = "last as" and ?b = "hd ms" and ?m = "last ms" and ?f = "hd xs" and ?g = "last xs"
    and ?c = "hd cs"
  let ?h = "upd_prev (upd_next (upd_next (upd_prev (upd_prev (upd_next h ?m ?c) ?c ?m) ?f ?a) ?g ?b) ?a ?f) ?b ?g"
  have d: "distinct (as @ ms @ xs @ cs)" and ch: "chain (nxt h) (prv h) (as @ ms @ xs @ cs)"
    using lk by (auto simp: linked_def)
  have okd: "ok h ?a" "ok h ?b" "ok h ?m" "ok h ?f" "ok h ?g" "ok h ?c"
    using lk ne by (auto simp: linked_def)
  have nz: "?a \<noteq> 0" "?b \<noteq> 0" "?m \<noteq> 0" "?f \<noteq> 0" "?g \<noteq> 0" "?c \<noteq> 0"
    using okd by (auto simp: ok_def)
  have nb: "prv h ?b = ?a" "nxt h ?m = ?f" "prv h ?f = ?m" "nxt h ?g = ?c" "prv h ?c = ?g"
    using ch ne by (auto simp: chain_split)
  have mem: "?a \<in> set as" "?m \<in> set ms" "?g \<in> set xs" "?c \<in> set cs" "?f \<in> set xs" "?b \<in> set ms"
    "hd as \<in> set as" "last cs \<in> set cs"
    using ne by auto
  have dd: "?a \<noteq> ?g" "?a \<noteq> ?m" "?g \<noteq> ?m" "?c \<noteq> ?f" "?c \<noteq> ?b" "?f \<noteq> ?b"
    "hd as \<noteq> ?c" "hd as \<noteq> ?b" "hd as \<noteq> ?f" "last cs \<noteq> ?m" "last cs \<noteq> ?g" "last cs \<noteq> ?a"
    using d mem by (auto simp: disjoint_iff)
  have gn: "nxt h ?g \<noteq> 0" "prv h ?f \<noteq> 0" "prv h ?b \<noteq> 0" using nb nz by auto
  have lk': "linked h ((as @ ms) @ xs @ cs)" using lk by simp
  have nxb: "nxt h ?f \<noteq> 0" "prv h ?g \<noteq> 0"
    using linked_interior [OF lk'] ne by auto
  have "list_splice h ?b ?f ?c = Some ?h"
    using okd nz nb dd gn nxb by (simp add: list_splice_def heap_simps del: neq0_conv)
  moreover have "linked ?h (as @ xs @ ms @ cs)"
  proof -
    have okh: "ok ?h x \<longleftrightarrow> ok h x" for x using okd by (simp add: heap_simps)
    have "chain (nxt ?h) (prv ?h) (as @ xs @ ms @ cs)"
      using chain_splice [OF d ne ch] by (simp add: heap_simps)
    moreover have "prv ?h (hd as) = NULL" "nxt ?h (last cs) = NULL"
      using lk ne dd by (simp_all add: heap_simps linked_def)
    ultimately show ?thesis
      using lk ne by (auto simp: linked_def okh)
  qed
  moreover have "frame (set (as @ ms @ xs @ cs)) h ?h"
    using okd mem by (intro frame_step_prev frame_step_next frame_refl) auto
  ultimately show ?thesis by blast
qed

section \<open>The list operations refine operations on HOL lists\<close>

lemma is_list_not_NULL: "is_list h l xs \<Longrightarrow> l \<noteq> NULL"
  by (auto simp: is_list_def linked_def ok_def head_of_def)

lemma is_list_linked:
  "is_list h l (us @ vs) \<Longrightarrow> linked h ((head_of l # us) @ vs @ [tail_of l])"
  by (simp add: is_list_def)

lemma is_list_ok: "is_list h l xs \<Longrightarrow> e \<in> set xs \<Longrightarrow> ok h e"
  by (auto simp: is_list_def linked_def)

lemma is_list_headers:
  "is_list h l xs \<Longrightarrow> ok h (head_of l) \<and> ok h (tail_of l) \<and> tail_of l \<notin> set xs \<and> head_of l \<notin> set xs
     \<and> head_of l \<noteq> tail_of l \<and> distinct xs"
  by (auto simp: is_list_def linked_def)

lemma list_begin_is_list: "is_list h l xs \<Longrightarrow> list_begin h l = Some (hd (xs @ [tail_of l]))"
  using linked_nxt [of h "[]" "head_of l" "xs @ [tail_of l]"]
  by (simp add: is_list_not_NULL list_begin_def is_list_def heap_simps linked_ok)

lemma list_end_is_list: "is_list h l xs \<Longrightarrow> list_end h l = Some (tail_of l)"
  by (simp add: is_list_not_NULL list_end_def)

lemma list_rbegin_is_list: "is_list h l xs \<Longrightarrow> list_rbegin h l = Some (last (head_of l # xs))"
  using linked_prv [of h "head_of l # xs" "tail_of l" "[]"]
  by (simp add: is_list_not_NULL list_rbegin_def is_list_def heap_simps linked_ok)

lemma is_list_nxt: "is_list h l (us @ e # vs) \<Longrightarrow> nxt h e = hd (vs @ [tail_of l])"
  using linked_nxt [of h "head_of l # us" e "vs @ [tail_of l]"] by (simp add: is_list_def)

lemma is_list_prv: "is_list h l (us @ e # vs) \<Longrightarrow> prv h e = last (head_of l # us)"
  using linked_prv [of h "head_of l # us" e "vs @ [tail_of l]"] by (simp add: is_list_def)

lemma list_next_is_list:
  assumes "is_list h l (us @ e # vs)"
  shows "list_next h e = Some (hd (vs @ [tail_of l]))"
proof -
  have lk: "linked h ([head_of l] @ (us @ e # vs) @ [tail_of l])"
    using assms by (simp add: is_list_def)
  show ?thesis
    using linked_interior [OF lk, of e] is_list_nxt [OF assms] by (simp add: heap_simps)
qed

lemma list_prev_is_list:
  assumes "is_list h l (us @ e # vs)"
  shows "list_prev h e = Some (last (head_of l # us))"
proof -
  have lk: "linked h ([head_of l] @ (us @ e # vs) @ [tail_of l])"
    using assms by (simp add: is_list_def)
  show ?thesis
    using linked_interior [OF lk, of e] is_list_prv [OF assms] by (simp add: heap_simps)
qed

lemma list_prev_tail: "is_list h l xs \<Longrightarrow> list_prev h (tail_of l) = Some (last (head_of l # xs))"
proof -
  assume a: "is_list h l xs"
  then have "prv h (tail_of l) = last (head_of l # xs)"
    using linked_prv [of h "head_of l # xs" "tail_of l" "[]"] by (simp add: is_list_def)
  moreover have "last (head_of l # xs) \<noteq> NULL"
    using a linked_nz [of h "head_of l # xs @ [tail_of l]" "last (head_of l # xs)"]
    by (auto simp: is_list_def split: if_splits)
  ultimately show ?thesis using a is_list_headers [OF a] by (simp add: heap_simps)
qed

lemma list_empty_is_list: "is_list h l xs \<Longrightarrow> list_empty h l = Some (xs = [])"
  using is_list_headers [of h l xs]
  by (cases xs) (auto simp: list_empty_def list_begin_is_list list_end_is_list)

lemma list_front_is_list: "is_list h l (x # xs) \<Longrightarrow> list_front h l = Some x"
  using linked_nxt [of h "[]" "head_of l" "x # xs @ [tail_of l]"]
  by (simp add: list_front_def list_empty_is_list heap_simps is_list_headers) (simp add: is_list_def)

lemma list_back_is_list: "is_list h l (xs @ [x]) \<Longrightarrow> list_back h l = Some x"
  using linked_prv [of h "head_of l # xs @ [x]" "tail_of l" "[]"]
  by (simp add: list_back_def list_empty_is_list heap_simps is_list_headers) (simp add: is_list_def)

lemma list_front_empty: "is_list h l [] \<Longrightarrow> list_front h l = None"
  by (simp add: list_front_def list_empty_is_list)

text \<open>
  The footprint of a list: its headers and its elements. Every operation leaves the heap
  outside its footprint, and outside the element it adds, as it was.
\<close>

abbreviation foot :: "addr \<Rightarrow> addr list \<Rightarrow> addr set" where
  "foot l xs \<equiv> insert (head_of l) (insert (tail_of l) (set xs))"

lemma list_insert_is_list:
  assumes l: "is_list h l (us @ vs)" and e: "ok h e" "e \<notin> foot l (us @ vs)"
  shows "\<exists>h'. list_insert h (hd (vs @ [tail_of l])) e = Some h' \<and> is_list h' l (us @ e # vs)
    \<and> frame (insert e (foot l (us @ vs))) h h'"
proof -
  obtain b bs where b: "vs @ [tail_of l] = b # bs" by (cases "vs @ [tail_of l]") auto
  have lk: "linked h ((head_of l # us) @ b # bs)"
    using is_list_linked [OF l] by (simp add: b)
  have set: "set (b # bs) = insert (tail_of l) (set vs)" by (simp flip: b)
  obtain h' where h': "list_insert h b e = Some h'" "linked h' ((head_of l # us) @ e # b # bs)"
    "frame {last (head_of l # us), e, b} h h'"
    using list_insert_linked [OF lk _ e(1)] e(2) set by auto
  have "is_list h' l (us @ e # vs)" using h'(2) b by (simp add: is_list_def)
  moreover have "frame (insert e (foot l (us @ vs))) h h'"
    using h'(3) set by (elim frame_mono) auto
  ultimately show ?thesis using h'(1) b by simp
qed

lemma list_push_front_is_list:
  assumes "is_list h l xs" and "ok h e" "e \<notin> foot l xs"
  shows "\<exists>h'. list_push_front h l e = Some h' \<and> is_list h' l (e # xs) \<and> frame (insert e (foot l xs)) h h'"
  using list_insert_is_list [of h l "[]" xs e] assms by (simp add: list_push_front_def list_begin_is_list)

lemma list_push_back_is_list:
  assumes "is_list h l xs" and "ok h e" "e \<notin> foot l xs"
  shows "\<exists>h'. list_push_back h l e = Some h' \<and> is_list h' l (xs @ [e]) \<and> frame (insert e (foot l xs)) h h'"
  using list_insert_is_list [of h l xs "[]" e] assms
  by (simp add: list_push_back_def list_end_is_list [OF assms(1)])

lemma list_remove_is_list:
  assumes l: "is_list h l (us @ e # vs)"
  shows "\<exists>h'. list_remove h e = Some (hd (vs @ [tail_of l]), h') \<and> is_list h' l (us @ vs)
    \<and> frame (foot l (us @ vs)) h h'"
proof -
  have lk: "linked h ((head_of l # us) @ e # (vs @ [tail_of l]))"
    using l by (simp add: is_list_def)
  obtain h' where h': "list_remove h e = Some (hd (vs @ [tail_of l]), h')"
    "linked h' ((head_of l # us) @ vs @ [tail_of l])"
    "frame {last (head_of l # us), hd (vs @ [tail_of l])} h h'"
    using list_remove_linked [OF lk] by auto
  have "frame (foot l (us @ vs)) h h'"
    using h'(3) by (elim frame_mono) (cases vs; auto)
  then show ?thesis using h' by (simp add: is_list_def)
qed

lemma list_pop_front_is_list:
  assumes "is_list h l (x # xs)"
  shows "\<exists>h'. list_pop_front h l = Some (x, h') \<and> is_list h' l xs \<and> frame (foot l xs) h h'"
  using list_remove_is_list [of h l "[]" x xs] assms
  by (auto simp: list_pop_front_def list_front_is_list)

lemma list_pop_back_is_list:
  assumes "is_list h l (xs @ [x])"
  shows "\<exists>h'. list_pop_back h l = Some (x, h') \<and> is_list h' l xs \<and> frame (foot l xs) h h'"
  using list_remove_is_list [of h l xs x "[]"] assms
  by (auto simp: list_pop_back_def list_back_is_list)

lemma list_init_is_list:
  assumes "ok h (head_of l)" "ok h (tail_of l)"
  shows "\<exists>h'. list_init h l = Some h' \<and> is_list h' l [] \<and> frame {head_of l, tail_of l} h h'"
proof -
  have nz: "l \<noteq> NULL" "head_of l \<noteq> tail_of l" "tail_of l \<noteq> NULL" "head_of l \<noteq> NULL"
    using assms by (auto simp: ok_def head_of_def tail_of_def)
  let ?h = "upd_next (upd_prev (upd_next (upd_prev h (head_of l) NULL) (head_of l) (tail_of l))
      (tail_of l) (head_of l)) (tail_of l) NULL"
  have "list_init h l = Some ?h" using assms nz by (simp add: list_init_def heap_simps)
  moreover have "is_list ?h l []" using assms nz by (simp add: is_list_def linked_def heap_simps)
  moreover have "frame {head_of l, tail_of l} h ?h"
    using assms by (intro frame_step_prev frame_step_next frame_refl) auto
  ultimately show ?thesis by blast
qed

lemma list_size_loop_is_list:
  "is_list h l (us @ vs) \<Longrightarrow> list_size_loop h l (hd (vs @ [tail_of l])) c = Some (c + length vs)"
proof (induction vs arbitrary: us c)
  case Nil
  then show ?case by (subst list_size_loop.simps) (simp add: list_end_is_list [OF Nil])
next
  case (Cons v vs)
  have "is_list h l ((us @ [v]) @ vs)" using Cons.prems by simp
  note IH = Cons.IH [OF this]
  have "v \<noteq> tail_of l" using is_list_headers [OF Cons.prems] by auto
  then show ?case
    by (subst list_size_loop.simps)
      (simp add: list_end_is_list [OF Cons.prems] list_next_is_list [OF Cons.prems] IH)
qed

lemma list_size_is_list: "is_list h l xs \<Longrightarrow> list_size h l = Some (length xs)"
  using list_size_loop_is_list [of h l "[]" xs 0] by (simp add: list_size_def list_begin_is_list)

subsection \<open>Ordered insertion, maximum and minimum\<close>

text \<open>Their list-level meaning.\<close>

fun insort_by :: "('a \<Rightarrow> 'a \<Rightarrow> bool) \<Rightarrow> 'a \<Rightarrow> 'a list \<Rightarrow> 'a list" where
  "insort_by lessf e [] = [e]"
| "insort_by lessf e (x # xs) = (if lessf e x then e # x # xs else x # insort_by lessf e xs)"

lemma insort_by_split:
  "insort_by lessf e xs = takeWhile (\<lambda>x. \<not> lessf e x) xs @ e # dropWhile (\<lambda>x. \<not> lessf e x) xs"
  by (induction xs) auto

lemma mset_insort_by [simp]: "mset (insort_by lessf e xs) = add_mset e (mset xs)"
  by (induction xs) auto

lemma set_insort_by [simp]: "set (insort_by lessf e xs) = insert e (set xs)"
  by (induction xs) auto

lemma insert_ordered_loop_is_list:
  "is_list h l (us @ vs) \<Longrightarrow>
   insert_ordered_loop h l (hd (vs @ [tail_of l])) e lessf
     = Some (hd (dropWhile (\<lambda>x. \<not> lessf e x) vs @ [tail_of l]))"
proof (induction vs arbitrary: us)
  case Nil
  then show ?case by (subst insert_ordered_loop.simps) (simp add: list_end_is_list [OF Nil])
next
  case (Cons v vs)
  have "is_list h l ((us @ [v]) @ vs)" using Cons.prems by simp
  note IH = Cons.IH [OF this]
  have "v \<noteq> tail_of l" using is_list_headers [OF Cons.prems] by auto
  then show ?case
    by (subst insert_ordered_loop.simps)
      (simp add: list_end_is_list [OF Cons.prems] list_next_is_list [OF Cons.prems] IH)
qed

lemma list_insert_ordered_is_list:
  assumes l: "is_list h l xs" and e: "ok h e" "e \<notin> foot l xs"
  shows "\<exists>h'. list_insert_ordered h l e lessf = Some h' \<and> is_list h' l (insort_by lessf e xs)
    \<and> frame (insert e (foot l xs)) h h'"
proof -
  let ?us = "takeWhile (\<lambda>x. \<not> lessf e x) xs" and ?vs = "dropWhile (\<lambda>x. \<not> lessf e x) xs"
  have l': "is_list h l (?us @ ?vs)" using l by simp
  have e': "e \<notin> foot l (?us @ ?vs)" using e by simp
  have loop: "insert_ordered_loop h l (hd (xs @ [tail_of l])) e lessf = Some (hd (?vs @ [tail_of l]))"
    using insert_ordered_loop_is_list [of h l "[]" xs] l by simp
  show ?thesis
    using list_insert_is_list [OF l' e(1) e'] l e
    by (simp add: list_insert_ordered_def is_list_not_NULL list_begin_is_list loop insort_by_split ok_not_NULL)
qed

fun best_by :: "('a \<Rightarrow> 'a \<Rightarrow> bool) \<Rightarrow> 'a \<Rightarrow> 'a list \<Rightarrow> 'a" where
  "best_by better m [] = m"
| "best_by better m (x # xs) = best_by better (if better x m then x else m) xs"

lemma list_max_loop_is_list:
  "is_list h l (us @ vs) \<Longrightarrow>
   list_max_loop h l m (hd (vs @ [tail_of l])) lessf = Some (best_by (\<lambda>x m. lessf m x) m vs)"
proof (induction vs arbitrary: us m)
  case Nil
  then show ?case by (subst list_max_loop.simps) (simp add: list_end_is_list [OF Nil])
next
  case (Cons v vs)
  have "is_list h l ((us @ [v]) @ vs)" using Cons.prems by simp
  note IH = Cons.IH [OF this]
  have "v \<noteq> tail_of l" using is_list_headers [OF Cons.prems] by auto
  then show ?case
    by (subst list_max_loop.simps)
      (simp add: list_end_is_list [OF Cons.prems] list_next_is_list [OF Cons.prems] IH)
qed

lemma list_min_loop_is_list:
  "is_list h l (us @ vs) \<Longrightarrow>
   list_min_loop h l m (hd (vs @ [tail_of l])) lessf = Some (best_by lessf m vs)"
proof (induction vs arbitrary: us m)
  case Nil
  then show ?case by (subst list_min_loop.simps) (simp add: list_end_is_list [OF Nil])
next
  case (Cons v vs)
  have "is_list h l ((us @ [v]) @ vs)" using Cons.prems by simp
  note IH = Cons.IH [OF this]
  have "v \<noteq> tail_of l" using is_list_headers [OF Cons.prems] by auto
  then show ?case
    by (subst list_min_loop.simps)
      (simp add: list_end_is_list [OF Cons.prems] list_next_is_list [OF Cons.prems] IH)
qed

lemma list_max_is_list:
  assumes "is_list h l xs"
  shows "list_max h l lessf = Some (case xs of [] \<Rightarrow> tail_of l | x # ys \<Rightarrow> best_by (\<lambda>x m. lessf m x) x ys)"
proof (cases xs)
  case Nil
  then show ?thesis using assms by (simp add: list_max_def list_begin_is_list list_end_is_list [OF assms])
next
  case (Cons x ys)
  then show ?thesis
    using assms is_list_headers [OF assms] list_next_is_list [of h l "[]" x ys]
      list_max_loop_is_list [of h l "[x]" ys x lessf]
    by (simp add: list_max_def list_begin_is_list list_end_is_list [OF assms])
qed

lemma list_min_is_list:
  assumes "is_list h l xs"
  shows "list_min h l lessf = Some (case xs of [] \<Rightarrow> tail_of l | x # ys \<Rightarrow> best_by lessf x ys)"
proof (cases xs)
  case Nil
  then show ?thesis using assms by (simp add: list_min_def list_begin_is_list list_end_is_list [OF assms])
next
  case (Cons x ys)
  then show ?thesis
    using assms is_list_headers [OF assms] list_next_is_list [of h l "[]" x ys]
      list_min_loop_is_list [of h l "[x]" ys x lessf]
    by (simp add: list_min_def list_begin_is_list list_end_is_list [OF assms])
qed

subsection \<open>Reversal\<close>

lemma list_reverse_loop_step:
  assumes "ok h e" "e \<noteq> tail_of l" "l \<noteq> NULL"
  shows "list_reverse_loop h l e =
    list_reverse_loop (upd_next (upd_prev h e (nxt h e)) e (prv h e)) l (nxt h e)"
  using assms
  by (subst list_reverse_loop.simps) (simp add: list_end_def swap_links_def heap_simps)

lemma chain_cong:
  "\<forall>x \<in> set (butlast xs). n x = n' x \<Longrightarrow> \<forall>x \<in> set (tl xs). p x = p' x \<Longrightarrow> chain n p xs = chain n' p' xs"
proof (induction n p xs rule: chain.induct)
  case (1 n p a b cs)
  have "chain n p (b # cs) = chain n' p' (b # cs)" using 1 by (cases cs) auto
  then show ?case using 1 by auto
qed auto

lemma chain_rev: "chain p n (rev xs) = chain n p xs"
proof (induction n p xs rule: chain.induct)
  case (1 n p a b cs)
  then show ?case using chain_snoc_Cons [of p n "rev cs" b a "[]"] by auto
qed auto

lemma list_reverse_loop_links:
  "chain (nxt h) p (vs @ [tail_of l]) \<Longrightarrow> distinct (vs @ [tail_of l]) \<Longrightarrow> \<forall>x \<in> set vs. ok h x
   \<Longrightarrow> l \<noteq> NULL \<Longrightarrow> \<exists>h'. list_reverse_loop h l (hd (vs @ [tail_of l])) = Some h' \<and> frame (set vs) h h'
     \<and> (\<forall>x. nxt h' x = (if x \<in> set vs then prv h x else nxt h x))
     \<and> (\<forall>x. prv h' x = (if x \<in> set vs then nxt h x else prv h x))"
proof (induction vs arbitrary: h)
  case Nil
  then show ?case by (subst list_reverse_loop.simps) (simp add: list_end_def)
next
  case (Cons v vs)
  let ?h = "upd_next (upd_prev h v (nxt h v)) v (prv h v)"
  have v: "ok h v" "v \<noteq> tail_of l" "v \<notin> set vs" using Cons.prems by auto
  have nv: "nxt h v = hd (vs @ [tail_of l])" and ch: "chain (nxt h) p (vs @ [tail_of l])"
    using Cons.prems(1) by (cases vs; auto)+
  have "chain (nxt ?h) p (vs @ [tail_of l])"
    using ch v by (simp add: heap_simps)
  moreover have "\<forall>x \<in> set vs. ok ?h x" using Cons.prems v by (simp add: heap_simps)
  ultimately obtain h' where h': "list_reverse_loop ?h l (hd (vs @ [tail_of l])) = Some h'"
    "frame (set vs) ?h h'"
    "\<forall>x. nxt h' x = (if x \<in> set vs then prv ?h x else nxt ?h x)"
    "\<forall>x. prv h' x = (if x \<in> set vs then nxt ?h x else prv ?h x)"
    using Cons.IH [of ?h] Cons.prems by auto
  have "frame (set (v # vs)) h h'"
  proof (rule frame_trans)
    show "frame (set (v # vs)) h ?h" using v by (intro frame_step_prev frame_step_next frame_refl) auto
    show "frame (set (v # vs)) ?h h'" using h'(2) by (rule frame_mono) auto
  qed
  moreover have "list_reverse_loop h l (hd ((v # vs) @ [tail_of l])) = Some h'"
    using h'(1) list_reverse_loop_step [OF v(1,2) Cons.prems(4)] nv by simp
  moreover have "nxt h' x = (if x \<in> set (v # vs) then prv h x else nxt h x)"
    "prv h' x = (if x \<in> set (v # vs) then nxt h x else prv h x)" for x
    using h'(3,4) v by (auto simp: heap_simps)
  ultimately show ?case by blast
qed

lemma list_reverse_is_list:
  assumes l: "is_list h l xs"
  shows "\<exists>h'. list_reverse h l = Some h' \<and> is_list h' l (rev xs) \<and> frame (foot l xs) h h'"
proof (cases "xs = []")
  case True
  then show ?thesis using l by (simp add: list_reverse_def list_empty_is_list)
next
  case False
  let ?H = "head_of l" and ?T = "tail_of l" and ?a = "hd xs" and ?z = "last xs"
  note hd = is_list_headers [OF l]
  have lk: "linked h (?H # xs @ [?T])" using l by (simp add: is_list_def)
  have ch: "chain (nxt h) (prv h) (xs @ [?T])" and hx: "nxt h ?H = ?a" and xc: "chain (nxt h) (prv h) xs"
    and z: "nxt h ?z = ?T" "prv h ?T = ?z" and a: "prv h ?a = ?H"
    using lk False chain_split [of "[?H]" "xs @ [?T]"] chain_split [of xs "[?T]"]
    by (auto simp: linked_def)
  have okx: "\<forall>x \<in> set xs. ok h x" using lk by (simp add: linked_def)
  obtain g where g: "list_reverse_loop h l (hd (xs @ [?T])) = Some g" "frame (set xs) h g"
    "\<And>x. nxt g x = (if x \<in> set xs then prv h x else nxt h x)"
    "\<And>x. prv g x = (if x \<in> set xs then nxt h x else prv h x)"
    using list_reverse_loop_links [OF ch] okx hd is_list_not_NULL [OF l] by auto
  have okg: "ok g x \<longleftrightarrow> ok h x" for x
    using g(2) by (auto simp: frame_def ok_def dom_def set_eq_iff)
  have m: "?a \<in> set xs" "?z \<in> set xs" using False by auto
  let ?h = "upd_next (upd_prev (upd_prev (upd_next g ?H ?z) ?T ?a) ?z ?H) ?a ?T"
  have ne: "?H \<noteq> ?a" "?H \<noteq> ?z" "?T \<noteq> ?a" "?T \<noteq> ?z" "?H \<noteq> ?T" using m hd by auto
  have gl: "nxt g ?H = ?a" "prv g ?T = ?z" "nxt g ?a = ?H" "prv g ?z = ?T"
    using g(3,4) m hd hx z a by auto
  have okd: "ok g ?H" "ok g ?T" "ok g ?a" "ok g ?z" using okx m hd by (auto simp: okg)
  have ev: "list_reverse h l = Some ?h"
    using l g(1) okd gl ne False by (simp add: list_reverse_def list_empty_is_list list_begin_is_list heap_simps)
  have dx: "distinct xs" using hd by simp
  have bt: "?a \<notin> set (butlast (rev xs))" "?z \<notin> set (tl (rev xs))"
    using dx by (cases xs; simp add: butlast_rev) (use dx in \<open>cases xs rule: rev_cases; simp\<close>)
  have sub: "x \<in> set xs" if "x \<in> set (butlast (rev xs)) \<or> x \<in> set (tl (rev xs))" for x
    using that by (metis in_set_butlastD list.set_sel(2) set_rev tl_Nil)
  have "chain (nxt ?h) (prv ?h) (rev xs) = chain (prv h) (nxt h) (rev xs)"
  proof (rule chain_cong)
    show "\<forall>x \<in> set (butlast (rev xs)). nxt ?h x = prv h x"
      using bt hd sub by (auto simp: heap_simps g(3) simp del: butlast_rev)
    show "\<forall>x \<in> set (tl (rev xs)). prv ?h x = nxt h x"
      using bt hd sub by (auto simp: heap_simps g(4))
  qed
  then have "chain (nxt ?h) (prv ?h) (rev xs)" using xc by (simp add: chain_rev)
  then have "chain (nxt ?h) (prv ?h) ([?H] @ rev xs @ [?T])"
    using False ne by (simp add: chain_split hd_rev last_rev heap_simps del: append_Cons)
  moreover have "prv ?h ?H = NULL" "nxt ?h ?T = NULL"
    using lk ne hd by (auto simp: heap_simps g(3,4) linked_def)
  ultimately have "is_list ?h l (rev xs)"
    using lk okd by (auto simp: is_list_def linked_def heap_simps okg)
  moreover have "frame (foot l xs) h ?h"
    using frame_mono [OF g(2), of "foot l xs"] okd m
    by (intro frame_step_prev frame_step_next) (auto simp: okg)
  ultimately show ?thesis using ev by blast
qed

end
