(* ===== verification/List_Sort.thy ===== *)
theory List_Sort
  imports Kernel_List
begin

text \<open>
  Correctness of the algorithms of \<^verbatim>\<open>lib/kernel/list.c\<close> that take a \<open>list_less_func\<close>:
  the natural merge sort \<open>list_sort\<close>, \<open>list_insert_ordered\<close>, \<open>list_max\<close>, \<open>list_min\<close> and
  \<open>list_unique\<close>. What they need of the comparison is the locale \<open>weak_order\<close>; the kernel's own
  comparison functions are shown to satisfy it where they are defined.
\<close>

section \<open>What a comparison function promises\<close>

abbreviation ord_by :: "('a \<Rightarrow> 'a \<Rightarrow> bool) \<Rightarrow> 'a list \<Rightarrow> bool" where
  "ord_by lessf xs \<equiv> sorted_wrt (\<lambda>x y. \<not> lessf y x) xs"

definition equiv_by :: "('a \<Rightarrow> 'a \<Rightarrow> bool) \<Rightarrow> 'a \<Rightarrow> 'a \<Rightarrow> bool" where
  "equiv_by lessf x y \<longleftrightarrow> \<not> lessf x y \<and> \<not> lessf y x"

fun adj :: "('a \<Rightarrow> 'a \<Rightarrow> bool) \<Rightarrow> 'a list \<Rightarrow> bool" where
  "adj lessf (x # y # zs) = (\<not> lessf y x \<and> adj lessf (y # zs))"
| "adj lessf _ = True"

fun fmerge :: "('a \<Rightarrow> 'a \<Rightarrow> bool) \<Rightarrow> 'a list \<Rightarrow> 'a list \<Rightarrow> 'a list" where
  "fmerge lessf [] bs = bs"
| "fmerge lessf as [] = as"
| "fmerge lessf (a # as) (b # bs) =
     (if \<not> lessf b a then a # fmerge lessf as (b # bs) else b # fmerge lessf (a # as) bs)"

lemma mset_fmerge [simp]: "mset (fmerge lessf as bs) = mset as + mset bs"
  by (induction lessf as bs rule: fmerge.induct) auto

lemma set_fmerge [simp]: "set (fmerge lessf as bs) = set as \<union> set bs"
  by (induction lessf as bs rule: fmerge.induct) auto

lemma fmerge_induct [case_names Nil1 Nil2 Cons]:
  fixes as bs :: "'a list"
  shows "(\<And>bs. P [] bs) \<Longrightarrow> (\<And>a as. P (a # as) []) \<Longrightarrow>
    (\<And>a as b bs. P as (b # bs) \<Longrightarrow> P (a # as) bs \<Longrightarrow> P (a # as) (b # bs)) \<Longrightarrow> P as bs"
  by induction_schema (pat_completeness, lexicographic_order)

fun run_split :: "('a \<Rightarrow> 'a \<Rightarrow> bool) \<Rightarrow> 'a \<Rightarrow> 'a list \<Rightarrow> 'a list \<times> 'a list" where
  "run_split lessf x [] = ([x], [])"
| "run_split lessf x (y # ys) =
     (if \<not> lessf y x then (case run_split lessf y ys of (r, s) \<Rightarrow> (x # r, s)) else ([x], y # ys))"

lemma run_split_append: "run_split lessf x xs = (r, s) \<Longrightarrow> x # xs = r @ s"
  by (induction lessf x xs arbitrary: r rule: run_split.induct) (auto split: if_splits prod.splits)

lemma run_split_hd: "run_split lessf x xs = (r, s) \<Longrightarrow> \<exists>r'. r = x # r'"
  by (induction lessf x xs arbitrary: r rule: run_split.induct) (auto split: if_splits prod.splits)

lemma run_split_adj: "run_split lessf x xs = (r, s) \<Longrightarrow> adj lessf r"
proof (induction lessf x xs arbitrary: r rule: run_split.induct)
  case (2 lessf x y ys)
  show ?case
  proof (cases "lessf y x")
    case False
    obtain r' where r': "run_split lessf y ys = (r', s)" "r = x # r'"
      using 2 False by (auto split: prod.splits)
    then show ?thesis using 2(1) [OF _ r'(1)] False run_split_hd [OF r'(1)] by auto
  qed (use 2 in auto)
qed auto

lemma run_split_length: "run_split lessf x xs = (r, s) \<Longrightarrow> length s \<le> length xs"
  by (induction lessf x xs arbitrary: r rule: run_split.induct) (fastforce split: if_splits prod.splits)+

function runs :: "('a \<Rightarrow> 'a \<Rightarrow> bool) \<Rightarrow> 'a list \<Rightarrow> 'a list list" where
  "runs lessf [] = []"
| "runs lessf (x # xs) = (case run_split lessf x xs of (r, s) \<Rightarrow> r # runs lessf s)"
  by pat_completeness auto
termination
  by (relation "measure (\<lambda>(lessf, xs). length xs)") (auto simp: less_Suc_eq_le dest: run_split_length [OF sym])

lemma concat_runs [simp]: "concat (runs lessf xs) = xs"
  by (induction lessf xs rule: runs.induct) (auto split: prod.splits dest: run_split_append)

lemma runs_adj: "r \<in> set (runs lessf xs) \<Longrightarrow> adj lessf r"
  by (induction lessf xs rule: runs.induct) (auto split: prod.splits dest: run_split_adj [OF sym])

fun merge_adj :: "('a \<Rightarrow> 'a \<Rightarrow> bool) \<Rightarrow> 'a list list \<Rightarrow> 'a list list" where
  "merge_adj lessf (r1 # r2 # rs) = fmerge lessf r1 r2 # merge_adj lessf rs"
| "merge_adj lessf rs = rs"

lemma mset_merge_adj [simp]: "mset (concat (merge_adj lessf rs)) = mset (concat rs)"
  by (induction lessf rs rule: merge_adj.induct) auto

lemma length_merge_adj: "length (merge_adj lessf rs) = (length rs + 1) div 2"
  by (induction lessf rs rule: merge_adj.induct) auto

text \<open>The number of natural runs never exceeds the number of sorted pieces.\<close>

lemma runs_append_le:
  assumes "adj lessf r"
  shows "length (runs lessf (r @ s)) \<le> Suc (length (runs lessf s))"
proof (cases r)
  case Nil
  then show ?thesis by simp
next
  case (Cons x xs)
  have "length (runs lessf (x # xs @ s)) \<le> Suc (length (runs lessf s))" if "adj lessf (x # xs)"
    using that
  proof (induction xs arbitrary: x)
    case Nil
    show ?case
    proof (cases s)
      case (Cons y ys)
      obtain r' s' where rs: "run_split lessf y ys = (r', s')" by fastforce
      then show ?thesis by (cases "lessf y x") (auto simp: Cons)
    qed simp
  next
    case (Cons y ys)
    obtain r' s' where rs: "run_split lessf y (ys @ s) = (r', s')" by fastforce
    have "length (runs lessf (y # ys @ s)) \<le> Suc (length (runs lessf s))"
      using Cons by auto
    then show ?case using Cons.prems rs by auto
  qed
  then show ?thesis using Cons assms by simp
qed

lemma runs_concat_le: "\<forall>r \<in> set rs. adj lessf r \<Longrightarrow> length (runs lessf (concat rs)) \<le> length rs"
proof (induction rs)
  case (Cons r rs)
  then show ?case using runs_append_le [of lessf r "concat rs"] by auto
qed simp

locale weak_order =
  fixes lessf :: "'a \<Rightarrow> 'a \<Rightarrow> bool"
  assumes less_irrefl: "\<not> lessf x x"
    and less_trans: "lessf x y \<Longrightarrow> lessf y z \<Longrightarrow> lessf x z"
    and not_less_trans: "\<not> lessf x y \<Longrightarrow> \<not> lessf y z \<Longrightarrow> \<not> lessf x z"
begin

lemma asym: "lessf x y \<Longrightarrow> \<not> lessf y x"
  using less_irrefl less_trans by blast

lemma adj_ord_by: "adj lessf xs \<longleftrightarrow> ord_by lessf xs"
proof (induction xs)
  case (Cons x xs)
  then show ?case by (cases xs) (auto dest: not_less_trans)
qed simp

lemma insort_by_ord: "ord_by lessf xs \<Longrightarrow> ord_by lessf (insort_by lessf e xs)"
  by (induction xs) (auto intro: not_less_trans dest: asym less_trans)

lemma insort_by_stable:
  "ord_by lessf xs \<Longrightarrow>
   filter (equiv_by lessf z) (insort_by lessf e xs)
     = filter (equiv_by lessf z) xs @ (if equiv_by lessf z e then [e] else [])"
proof (induction xs)
  case (Cons x xs)
  have "\<not> equiv_by lessf z y" if "lessf e x" "equiv_by lessf z e" "y \<in> set (x # xs)" for y
    using that Cons.prems not_less_trans [of y x] not_less_trans [of z e y]
      less_trans [of e x] asym unfolding equiv_by_def
    by (metis not_less_trans set_ConsD sorted_wrt.simps(2))
  then show ?case using Cons by (auto simp: filter_empty_conv)
qed simp

lemma fmerge_ord: "ord_by lessf as \<Longrightarrow> ord_by lessf bs \<Longrightarrow> ord_by lessf (fmerge lessf as bs)"
proof (induction as bs rule: fmerge_induct)
  case (Cons a as b bs)
  have "\<not> lessf x a" if "\<not> lessf b a" "x \<in> set bs" for x
    using that Cons.prems not_less_trans [of x b a] by auto
  moreover have "\<not> lessf x b" if "lessf b a" "x \<in> set as" for x
    using that Cons.prems not_less_trans [of x a b] asym [of b a] by auto
  ultimately show ?case using Cons by (auto dest: asym)
qed auto

lemma fmerge_stable:
  "ord_by lessf as \<Longrightarrow> ord_by lessf bs \<Longrightarrow>
   filter (equiv_by lessf z) (fmerge lessf as bs) = filter (equiv_by lessf z) as @ filter (equiv_by lessf z) bs"
proof (induction as bs rule: fmerge_induct)
  case (Cons a as b bs)
  have "\<not> equiv_by lessf z x" if "lessf b a" "equiv_by lessf z b" "x \<in> set (a # as)" for x
  proof -
    have "\<not> lessf x a" using that(3) Cons.prems less_irrefl by auto
    then have "lessf b x" using that(1) not_less_trans [of b x a] by blast
    then show ?thesis using that(2) not_less_trans [of b z x] by (auto simp: equiv_by_def)
  qed
  then show ?case using Cons by (auto simp: filter_empty_conv)
qed auto

lemma merge_adj_ord:
  "\<forall>r \<in> set rs. ord_by lessf r \<Longrightarrow> r \<in> set (merge_adj lessf rs) \<Longrightarrow> ord_by lessf r"
  by (induction rs arbitrary: r rule: induct_list012) (auto intro: fmerge_ord)

lemma merge_adj_stable:
  "\<forall>r \<in> set rs. ord_by lessf r \<Longrightarrow>
   filter (equiv_by lessf z) (concat (merge_adj lessf rs)) = filter (equiv_by lessf z) (concat rs)"
  by (induction rs rule: induct_list012) (auto simp: fmerge_stable)

end

section \<open>The loops on the heap\<close>

lemma is_list_hd_neq:
  assumes "is_list h l (us @ x # vs @ ws)"
  shows "x \<noteq> hd (ws @ [tail_of l])"
  using is_list_headers [OF assms] by (cases ws) auto

lemma is_sorted_loop_is_list:
  "is_list h l (us @ x # xs @ ws) \<Longrightarrow>
   is_sorted_loop h x (hd (ws @ [tail_of l])) lessf = Some (adj lessf (x # xs))"
proof (induction xs arbitrary: us x)
  case Nil
  then show ?case
    by (subst is_sorted_loop.simps) (simp add: list_next_is_list [of h l us x ws])
next
  case (Cons y ys)
  have l: "is_list h l ((us @ [x]) @ y # ys @ ws)" using Cons.prems by simp
  show ?case
    using Cons.IH [OF l] list_next_is_list [OF Cons.prems] list_prev_is_list [OF l] is_list_hd_neq [OF l]
    by (subst is_sorted_loop.simps) simp
qed

lemma is_sorted_is_list:
  assumes "is_list h l (us @ xs @ ws)"
  shows "is_sorted h (hd (xs @ ws @ [tail_of l])) (hd (ws @ [tail_of l])) lessf = Some (adj lessf xs)"
proof (cases xs)
  case (Cons y ys)
  have l: "is_list h l (us @ y # ys @ ws)" using assms Cons by simp
  show ?thesis
    using is_sorted_loop_is_list [OF l] is_list_hd_neq [OF l] by (simp add: is_sorted_def Cons)
qed (simp add: is_sorted_def)

lemma find_end_loop_is_list:
  "is_list h l (us @ x # xs) \<Longrightarrow> run_split lessf x xs = (r, s) \<Longrightarrow>
   find_end_loop h x (tail_of l) lessf = Some (hd (s @ [tail_of l]))"
proof (induction xs arbitrary: us x r s)
  case Nil
  then show ?case
    by (subst find_end_loop.simps) (simp add: list_next_is_list [of h l us x "[]"])
next
  case (Cons y ys)
  have l: "is_list h l ((us @ [x]) @ y # ys)" using Cons.prems by simp
  have ne: "y \<noteq> tail_of l" using is_list_headers [OF l] by auto
  obtain r' s' where rs: "run_split lessf y ys = (r', s')" by fastforce
  show ?case
    using Cons.IH [OF l rs] Cons.prems(2) rs ne list_next_is_list [OF Cons.prems(1)] list_prev_is_list [OF l]
    by (subst find_end_loop.simps) (auto split: if_splits)
qed

lemma find_end_of_run_is_list:
  assumes "is_list h l (us @ x # xs)" and "run_split lessf x xs = (r, s)"
  shows "find_end_of_run h x (tail_of l) lessf = Some (hd (s @ [tail_of l]))"
proof -
  have "x \<noteq> NULL" "tail_of l \<noteq> NULL" "x \<noteq> tail_of l"
    using is_list_headers [OF assms(1)] is_list_ok [OF assms(1), of x] by (auto simp: ok_def)
  then show ?thesis using find_end_loop_is_list [OF assms] by (simp add: find_end_of_run_def)
qed

lemma merge_loop_is_list:
  "is_list h l (us @ as @ bs @ ws) \<Longrightarrow>
   \<exists>h'. merge_loop h (hd (as @ bs @ ws @ [tail_of l])) (hd (bs @ ws @ [tail_of l])) (hd (ws @ [tail_of l])) lessf = Some h'
     \<and> is_list h' l (us @ fmerge lessf as bs @ ws) \<and> frame (foot l (us @ as @ bs @ ws)) h h'"
proof (induction as bs arbitrary: us h rule: fmerge_induct)
  case (Nil1 bs)
  then show ?case by (subst merge_loop.simps) simp
next
  case (Nil2 a as)
  then show ?case by (subst merge_loop.simps) simp
next
  case (Cons a as b bs)
  let ?T = "tail_of l"
  have ab: "a \<noteq> b" "b \<noteq> hd (ws @ [?T])"
    using is_list_headers [OF Cons.prems] is_list_hd_neq [of h l "us @ a # as" b bs ws] Cons.prems by auto
  show ?case
  proof (cases "lessf b a")
    case False
    have l: "is_list h l ((us @ [a]) @ as @ (b # bs) @ ws)" using Cons.prems by simp
    have nx: "list_next h a = Some (hd (as @ b # bs @ ws @ [?T]))"
      using list_next_is_list [of h l us a "as @ b # bs @ ws"] Cons.prems by simp
    show ?thesis
      using Cons.IH(1) [OF l] nx ab False
      by (subst merge_loop.simps) (simp add: insert_commute)
  next
    case True
    have l: "is_list h l ((us @ a # as) @ b # (bs @ ws))" using Cons.prems by simp
    have nx: "list_next h b = Some (hd (bs @ ws @ [?T]))"
      using list_next_is_list [OF l] by simp
    have pv: "list_prev h (hd (bs @ ws @ [?T])) = Some b"
    proof (cases "bs @ ws")
      case Nil
      then show ?thesis using list_prev_tail [OF l] by simp
    next
      case (Cons c cs)
      have "is_list h l ((us @ a # as @ [b]) @ c # cs)" using l Cons by simp
      from list_prev_is_list [OF this] have "list_prev h c = Some b" by simp
      moreover have "hd (bs @ ws @ [?T]) = c" using Cons by (metis append.assoc append_Cons list.sel(1))
      ultimately show ?thesis by simp
    qed
    have lk: "linked h ((head_of l # us) @ (a # as) @ [b] @ (bs @ ws @ [?T]))"
      using Cons.prems by (simp add: is_list_def)
    obtain h1 where h1: "list_splice h a b (hd (bs @ ws @ [?T])) = Some h1"
      "linked h1 ((head_of l # us) @ [b] @ (a # as) @ (bs @ ws @ [?T]))"
      "frame (foot l (us @ (a # as) @ (b # bs) @ ws)) h h1"
      using list_splice_linked [OF lk] by (auto simp: insert_commute Un_assoc)
    have l1: "is_list h1 l ((us @ [b]) @ (a # as) @ bs @ ws)" using h1(2) by (simp add: is_list_def)
    obtain h2 where h2: "merge_loop h1 a (hd (bs @ ws @ [?T])) (hd (ws @ [?T])) lessf = Some h2"
      "is_list h2 l ((us @ [b]) @ fmerge lessf (a # as) bs @ ws)"
      "frame (foot l ((us @ [b]) @ (a # as) @ bs @ ws)) h1 h2"
      using Cons.IH(2) [OF l1] by auto
    have "frame (foot l (us @ (a # as) @ (b # bs) @ ws)) h h2"
      using h1(3) frame_mono [OF h2(3)] by (rule frame_trans) auto
    then show ?thesis
      using h1(1) h2 nx pv ab True by (subst merge_loop.simps) simp
  qed
qed

lemma inplace_merge_is_list:
  assumes l: "is_list h l (us @ as @ bs @ ws)" and "adj lessf as" "adj lessf bs"
  shows "\<exists>h'. inplace_merge h (hd (as @ bs @ ws @ [tail_of l])) (hd (bs @ ws @ [tail_of l])) (hd (ws @ [tail_of l])) lessf = Some h'
     \<and> is_list h' l (us @ fmerge lessf as bs @ ws) \<and> frame (foot l (us @ as @ bs @ ws)) h h'"
proof -
  have nz: "hd (xs @ [tail_of l]) \<noteq> NULL" if "set xs \<subseteq> set (us @ as @ bs @ ws)" for xs
    using that is_list_headers [OF l] is_list_ok [OF l] by (cases xs) (auto simp: ok_def)
  have n: "hd (as @ bs @ ws @ [tail_of l]) \<noteq> NULL" "hd (bs @ ws @ [tail_of l]) \<noteq> NULL"
    "hd (ws @ [tail_of l]) \<noteq> NULL"
    using nz [of "as @ bs @ ws"] nz [of "bs @ ws"] nz [of ws] by auto
  have "is_sorted h (hd (as @ bs @ ws @ [tail_of l])) (hd (bs @ ws @ [tail_of l])) lessf = Some True"
    using is_sorted_is_list [of h l us as "bs @ ws" lessf] assms by simp
  moreover have "is_sorted h (hd (bs @ ws @ [tail_of l])) (hd (ws @ [tail_of l])) lessf = Some True"
    using is_sorted_is_list [of h l "us @ as" bs ws lessf] assms by simp
  ultimately show ?thesis
    using merge_loop_is_list [OF l, of lessf] n by (simp add: inplace_merge_def)
qed

lemma sort_pass_is_list:
  "is_list h l (us @ xs) \<Longrightarrow>
   \<exists>h'. sort_pass h l (hd (xs @ [tail_of l])) c lessf = Some (c + length (merge_adj lessf (runs lessf xs)), h')
     \<and> is_list h' l (us @ concat (merge_adj lessf (runs lessf xs))) \<and> frame (foot l (us @ xs)) h h'"
proof (induction "length xs" arbitrary: xs us h c rule: less_induct)
  case less
  let ?T = "tail_of l"
  note e = list_end_is_list [OF less.prems]
  show ?case
  proof (cases xs)
    case Nil
    then show ?thesis using less.prems e by (subst sort_pass.simps) simp
  next
    case (Cons x ys)
    obtain r s where rs: "run_split lessf x ys = (r, s)" by fastforce
    have xs: "xs = r @ s" using run_split_append [OF rs] Cons by simp
    have xT: "x \<noteq> ?T" using is_list_headers [OF less.prems] Cons by auto
    have f1: "find_end_of_run h x ?T lessf = Some (hd (s @ [?T]))"
      using find_end_of_run_is_list [of h l us x ys, OF _ rs] less.prems Cons by simp
    show ?thesis
    proof (cases s)
      case Nil
      then have "r = x # ys" using run_split_append [OF rs] by simp
      then show ?thesis
        using less.prems e f1 xT rs Nil by (subst sort_pass.simps) (simp add: Cons)
    next
      case s: (Cons y s')
      obtain r2 s2 where rs2: "run_split lessf y s' = (r2, s2)" by fastforce
      have s_eq: "s = r2 @ s2" using run_split_append [OF rs2] s by simp
      have yT: "y \<noteq> ?T" using is_list_headers [OF less.prems] xs s by auto
      have l1: "is_list h l ((us @ r) @ y # s')" using less.prems xs s by simp
      have f2: "find_end_of_run h y ?T lessf = Some (hd (s2 @ [?T]))"
        by (rule find_end_of_run_is_list [OF l1 rs2])
      have l2: "is_list h l (us @ r @ r2 @ s2)" using less.prems xs s_eq by simp
      have hds: "hd (r @ r2 @ s2 @ [?T]) = x" "hd (r2 @ s2 @ [?T]) = y"
        using run_split_hd [OF rs] run_split_hd [OF rs2] by auto
      obtain h1 where h1: "inplace_merge h x y (hd (s2 @ [?T])) lessf = Some h1"
        "is_list h1 l ((us @ fmerge lessf r r2) @ s2)" "frame (foot l (us @ xs)) h h1"
        using inplace_merge_is_list [OF l2 run_split_adj [OF rs] run_split_adj [OF rs2]] hds xs s_eq by auto
      have len: "length s2 < length xs"
        using run_split_length [OF rs] run_split_length [OF rs2] Cons s by simp
      obtain h2 where h2: "sort_pass h1 l (hd (s2 @ [?T])) (c + 1) lessf
           = Some (c + 1 + length (merge_adj lessf (runs lessf s2)), h2)"
        "is_list h2 l ((us @ fmerge lessf r r2) @ concat (merge_adj lessf (runs lessf s2)))"
        "frame (foot l ((us @ fmerge lessf r r2) @ s2)) h1 h2"
        using less.hyps [OF len h1(2), of "c + 1"] by auto
      have "frame (foot l (us @ xs)) h h2"
        using h1(3) frame_mono [OF h2(3)] by (rule frame_trans) (auto simp: xs s_eq)
      moreover have "sort_pass h l (hd (xs @ [?T])) c lessf
          = Some (c + length (merge_adj lessf (runs lessf xs)), h2)"
        using e f1 f2 h1(1) h2(1) xT yT rs rs2
        by (subst sort_pass.simps) (simp add: Cons s)
      ultimately show ?thesis using h2(2) rs rs2 by (auto simp: Cons s)
    qed
  qed
qed

locale addr_order = weak_order lessf for lessf :: "addr \<Rightarrow> addr \<Rightarrow> bool"
begin

lemma sort_loop_is_list:
  "is_list h l xs \<Longrightarrow> \<exists>h' ys. sort_loop h l lessf = Some h' \<and> is_list h' l ys \<and> frame (foot l xs) h h'
     \<and> mset ys = mset xs \<and> ord_by lessf ys
     \<and> (\<forall>z. filter (equiv_by lessf z) ys = filter (equiv_by lessf z) xs)"
proof (induction "length (runs lessf xs)" arbitrary: xs h rule: less_induct)
  case less
  let ?rs = "runs lessf xs"
  let ?ms = "merge_adj lessf ?rs"
  let ?xs = "concat ?ms"
  have ord: "\<forall>r \<in> set ?rs. ord_by lessf r" using runs_adj by (auto simp: adj_ord_by [symmetric])
  have mord: "\<forall>r \<in> set ?ms. ord_by lessf r" using merge_adj_ord [OF ord] by blast
  have st: "filter (equiv_by lessf z) ?xs = filter (equiv_by lessf z) xs" for z
    using merge_adj_stable [OF ord] by simp
  have ms: "mset ?xs = mset xs" by simp
  then have set: "set ?xs = set xs" by (metis set_mset_mset)
  obtain h1 where h1: "sort_pass h l (hd (xs @ [tail_of l])) 0 lessf = Some (length ?ms, h1)"
    "is_list h1 l ?xs" "frame (foot l xs) h h1"
    using sort_pass_is_list [of h l "[]" xs 0 lessf] less.prems by auto
  note b = list_begin_is_list [OF less.prems]
  show ?case
  proof (cases "length ?ms > 1")
    case True
    have "length (runs lessf ?xs) \<le> length ?ms"
      using mord by (intro runs_concat_le) (simp add: adj_ord_by)
    also have "\<dots> < length ?rs" using True by (simp add: length_merge_adj)
    finally obtain h2 ys where h2: "sort_loop h1 l lessf = Some h2" "is_list h2 l ys"
      "frame (foot l ?xs) h1 h2" "mset ys = mset ?xs" "ord_by lessf ys"
      "\<forall>z. filter (equiv_by lessf z) ys = filter (equiv_by lessf z) ?xs"
      using less.hyps [OF _ h1(2)] by auto
    have "frame (foot l xs) h h2" using h1(3) h2(3) set by (auto intro: frame_trans)
    moreover have "sort_loop h l lessf = Some h2"
      using b h1(1) h2(1) True by (subst sort_loop.simps) simp
    ultimately show ?thesis using h2 ms st by auto
  next
    case False
    then consider "?ms = []" | r where "?ms = [r]"
      by (cases ?ms; cases "tl ?ms") auto
    then have "ord_by lessf ?xs" using mord by cases auto
    moreover have "sort_loop h l lessf = Some h1"
      using b h1(1) False by (subst sort_loop.simps) simp
    ultimately show ?thesis using h1 ms st by blast
  qed
qed

lemma list_sort_is_list:
  assumes "is_list h l xs"
  shows "\<exists>h' ys. list_sort h l lessf = Some h' \<and> is_list h' l ys \<and> frame (foot l xs) h h'
     \<and> mset ys = mset xs \<and> ord_by lessf ys
     \<and> (\<forall>z. filter (equiv_by lessf z) ys = filter (equiv_by lessf z) xs)"
proof -
  obtain h' ys where h': "sort_loop h l lessf = Some h'" "is_list h' l ys" "frame (foot l xs) h h'"
    "mset ys = mset xs" "ord_by lessf ys" "\<forall>z. filter (equiv_by lessf z) ys = filter (equiv_by lessf z) xs"
    using sort_loop_is_list [OF assms] by blast
  have "is_sorted h' (hd (ys @ [tail_of l])) (tail_of l) lessf = Some True"
    using is_sorted_is_list [of h' l "[]" ys "[]" lessf] h'(2,5) by (simp add: adj_ord_by)
  then have "list_sort h l lessf = Some h'"
    using h'(1,2) is_list_not_NULL [OF assms]
    by (simp add: list_sort_def list_begin_is_list list_end_is_list [OF h'(2)])
  then show ?thesis using h' by blast
qed

lemma dropWhile_ord:
  "ord_by lessf xs \<Longrightarrow> x \<in> set (dropWhile (\<lambda>x. \<not> lessf e x) xs) \<Longrightarrow> lessf e x"
proof (induction xs)
  case (Cons a xs)
  then show ?case using not_less_trans [of e x a] by (auto split: if_splits)
qed simp

lemma list_insert_ordered_sorted:
  assumes "is_list h l xs" and "ok h e" "e \<notin> foot l xs" and "ord_by lessf xs"
  shows "\<exists>h' us vs. list_insert_ordered h l e lessf = Some h' \<and> xs = us @ vs \<and> is_list h' l (us @ e # vs)
     \<and> ord_by lessf (us @ e # vs) \<and> (\<forall>x \<in> set us. \<not> lessf e x) \<and> (\<forall>x \<in> set vs. lessf e x)
     \<and> frame (insert e (foot l xs)) h h'"
proof -
  let ?us = "takeWhile (\<lambda>x. \<not> lessf e x) xs" and ?vs = "dropWhile (\<lambda>x. \<not> lessf e x) xs"
  obtain h' where h': "list_insert_ordered h l e lessf = Some h'" "is_list h' l (insort_by lessf e xs)"
    "frame (insert e (foot l xs)) h h'"
    using list_insert_ordered_is_list [OF assms(1-3)] by blast
  have vs: "\<forall>x \<in> set ?vs. lessf e x" using dropWhile_ord [OF assms(4)] by blast
  have us: "\<forall>x \<in> set ?us. \<not> lessf e x" by (auto dest: set_takeWhileD)
  have "ord_by lessf (?us @ e # ?vs)" using insort_by_ord [OF assms(4)] by (simp add: insort_by_split)
  moreover have "is_list h' l (?us @ e # ?vs)" using h'(2) by (simp add: insort_by_split)
  moreover have "xs = ?us @ ?vs" by simp
  ultimately show ?thesis using h'(1,3) vs us by blast
qed

end

section \<open>Removal of adjacent duplicates\<close>

fun uniq_by :: "('a \<Rightarrow> 'a \<Rightarrow> bool) \<Rightarrow> 'a \<Rightarrow> 'a list \<Rightarrow> 'a list \<times> 'a list" where
  "uniq_by lessf e [] = ([e], [])"
| "uniq_by lessf e (x # xs) =
     (if equiv_by lessf e x then (case uniq_by lessf e xs of (ks, ds) \<Rightarrow> (ks, x # ds))
      else (case uniq_by lessf x xs of (ks, ds) \<Rightarrow> (e # ks, ds)))"

lemma uniq_by_hd: "uniq_by lessf e xs = (ks, ds) \<Longrightarrow> \<exists>ks'. ks = e # ks'"
  by (induction lessf e xs arbitrary: ks ds rule: uniq_by.induct) (auto split: if_splits prod.splits)

text \<open>
  A division of a list into its runs: each element of a run compares equal to the first one of the
  run, and the first one of the next run does not. It is unique.
\<close>

definition runs_of :: "('a \<Rightarrow> 'a \<Rightarrow> bool) \<Rightarrow> 'a list \<Rightarrow> 'a list list \<Rightarrow> bool" where
  "runs_of lessf xs rs \<longleftrightarrow> xs = concat rs \<and> (\<forall>r \<in> set rs. r \<noteq> [] \<and> (\<forall>y \<in> set (tl r). equiv_by lessf (hd r) y))
     \<and> successively (\<lambda>x y. \<not> equiv_by lessf x y) (map hd rs)"

lemma uniq_by_runs:
  "uniq_by lessf e xs = (ks, ds) \<Longrightarrow> \<exists>rs. runs_of lessf (e # xs) rs \<and> ks = map hd rs \<and> ds = concat (map tl rs)"
proof (induction lessf e xs arbitrary: ks ds rule: uniq_by.induct)
  case (1 lessf e)
  then show ?case by (intro exI [of _ "[[e]]"]) (auto simp: runs_of_def)
next
  case (2 lessf e x xs)
  show ?case
  proof (cases "equiv_by lessf e x")
    case True
    obtain ds' where u: "uniq_by lessf e xs = (ks, ds')" "ds = x # ds'" using 2(3) True by (auto split: prod.splits)
    obtain rs where rs: "runs_of lessf (e # xs) rs" "ks = map hd rs" "ds' = concat (map tl rs)" using 2(1) [OF True u(1)] by blast
    then obtain r rs' where r: "rs = (e # r) # rs'" by (cases rs; cases "hd rs") (auto simp: runs_of_def)
    then have "runs_of lessf (e # x # xs) ((e # x # r) # rs')" using rs(1) True by (simp add: runs_of_def)
    then show ?thesis using rs r u(2) by (intro exI [of _ "(e # x # r) # rs'"]) simp
  next
    case False
    obtain ks' where u: "uniq_by lessf x xs = (ks', ds)" "ks = e # ks'" using 2(3) False by (auto split: prod.splits)
    obtain rs where rs: "runs_of lessf (x # xs) rs" "ks' = map hd rs" "ds = concat (map tl rs)" using 2(2) [OF False u(1)] by blast
    then have "hd (map hd rs) = x" "rs \<noteq> []" using uniq_by_hd [OF u(1)] by (auto simp: runs_of_def)
    then have "runs_of lessf (e # x # xs) ([e] # rs)" using rs(1) False by (cases rs) (auto simp: runs_of_def successively_Cons)
    then show ?thesis using rs u(2) by (intro exI [of _ "[e] # rs"]) simp
  qed
qed

lemma uniq_by_run:
  "\<forall>y \<in> set ys. equiv_by lessf e y \<Longrightarrow> uniq_by lessf e (ys @ zs) = (case uniq_by lessf e zs of (ks, ds) \<Rightarrow> (ks, ys @ ds))"
  by (induction ys) (auto split: prod.splits)

lemma runs_of_uniq_by:
  "runs_of lessf (e # xs) rs \<Longrightarrow> uniq_by lessf e xs = (map hd rs, concat (map tl rs))"
proof (induction rs arbitrary: e xs)
  case (Cons r rs)
  then obtain ys where r: "r = e # ys" "xs = ys @ concat rs" "\<forall>y \<in> set ys. equiv_by lessf e y"
    by (cases r) (auto simp: runs_of_def)
  show ?case
  proof (cases rs)
    case Nil
    then show ?thesis using r uniq_by_run [OF r(3), of "[]"] by simp
  next
    case (Cons r' rs')
    then obtain f zs where f: "r' = f # zs" using Cons.prems by (cases r') (auto simp: runs_of_def)
    have "runs_of lessf (f # zs @ concat rs') rs" "\<not> equiv_by lessf e f"
      using Cons.prems f r(1) \<open>rs = r' # rs'\<close> by (auto simp: runs_of_def successively_Cons)
    then show ?thesis using Cons.IH [of f "zs @ concat rs'"] uniq_by_run [OF r(3), of "concat rs"] r f \<open>rs = r' # rs'\<close> by simp
  qed
qed (simp add: runs_of_def)

lemma runs_of_unique:
  assumes "runs_of lessf xs rs" and "runs_of lessf xs rs'"
  shows "map hd rs = map hd rs' \<and> concat (map tl rs) = concat (map tl rs')"
proof (cases xs)
  case Nil
  then show ?thesis using assms by (cases rs; cases rs') (auto simp: runs_of_def)
next
  case (Cons e ys)
  then show ?thesis using runs_of_uniq_by [of lessf e ys rs] runs_of_uniq_by [of lessf e ys rs'] assms by simp
qed

definition dups_rep :: "heap \<Rightarrow> addr \<Rightarrow> addr list \<Rightarrow> bool" where
  "dups_rep h d ds \<longleftrightarrow> d = NULL \<or> is_list h d ds"

lemma list_unique_loop_is_list:
  assumes "is_list h l (us @ e # vs)" and "dups_rep h d ds"
    and "d = NULL \<or> foot l (us @ e # vs) \<inter> foot d ds = {}"
    and "uniq_by lessf e vs = (ks, xs)"
  shows "\<exists>h'. list_unique_loop h l d e lessf = Some h' \<and> is_list h' l (us @ ks) \<and> dups_rep h' d (ds @ xs)
    \<and> frame (foot l (us @ e # vs) \<union> (if d = NULL then {} else foot d ds)) h h'"
  using assms
proof (induction vs arbitrary: us e h ds ks xs)
  case Nil
  have "list_next h e = Some (tail_of l)" using list_next_is_list [OF Nil.prems(1)] by simp
  then show ?case
    using Nil.prems list_end_is_list [OF Nil.prems(1)] by (subst list_unique_loop.simps) simp
next
  case (Cons v vs)
  have nx: "list_next h e = Some v" using list_next_is_list [OF Cons.prems(1)] by simp
  have vT: "v \<noteq> tail_of l" using is_list_headers [OF Cons.prems(1)] by auto
  note en = list_end_is_list [OF Cons.prems(1)]
  show ?case
  proof (cases "equiv_by lessf e v")
    case True
    obtain xs' where xs': "uniq_by lessf e vs = (ks, xs')" "xs = v # xs'"
      using Cons.prems(4) True by (auto split: prod.splits)
    have l: "is_list h l ((us @ [e]) @ v # vs)" using Cons.prems(1) by simp
    obtain r h1 where h1: "list_remove h v = Some (r, h1)" "is_list h1 l ((us @ [e]) @ vs)"
      "frame (foot l ((us @ [e]) @ vs)) h h1"
      using list_remove_is_list [OF l] by blast
    obtain h2 where h2: "(if d \<noteq> NULL then list_push_back h1 d v else Some h1) = Some h2"
      "is_list h2 l (us @ e # vs)" "dups_rep h2 d (ds @ [v])"
      "frame (foot l (us @ e # v # vs) \<union> (if d = NULL then {} else foot d ds)) h h2"
    proof (cases "d = NULL")
      case True
      have "frame (foot l (us @ e # v # vs)) h h1" using h1(3) by (rule frame_mono) auto
      then show ?thesis using that [of h1] h1(2) True by (simp add: dups_rep_def)
    next
      case False
      have dj: "foot l (us @ e # v # vs) \<inter> foot d ds = {}" and d: "is_list h d ds"
        using Cons.prems(2,3) False by (auto simp: dups_rep_def)
      have d1: "is_list h1 d ds"
        using d h1(3) by (rule is_list_frame) (use dj in auto)
      have okv: "ok h1 v"
        using is_list_ok [OF Cons.prems(1), of v] h1(3) by (auto simp: frame_def ok_def dom_def set_eq_iff)
      have vn: "v \<notin> foot d ds" using dj by auto
      obtain h2 where h2: "list_push_back h1 d v = Some h2" "is_list h2 d (ds @ [v])"
        "frame (insert v (foot d ds)) h1 h2"
        using list_push_back_is_list [OF d1 okv vn] by blast
      have "v \<notin> foot l ((us @ [e]) @ vs)" using is_list_headers [OF Cons.prems(1)] by auto
      then have "is_list h2 l ((us @ [e]) @ vs)"
        using dj by (intro is_list_frame [OF h1(2) h2(3)]) auto
      moreover have "frame (foot l (us @ e # v # vs) \<union> foot d ds) h h2"
      proof (rule frame_trans)
        show "frame (foot l (us @ e # v # vs) \<union> foot d ds) h h1" using h1(3) by (rule frame_mono) auto
        show "frame (foot l (us @ e # v # vs) \<union> foot d ds) h1 h2" using h2(3) by (rule frame_mono) auto
      qed
      ultimately show ?thesis using that [of h2] h2(1,2) False by (simp add: dups_rep_def)
    qed
    have fr: "d = NULL \<or> foot l (us @ e # vs) \<inter> foot d (ds @ [v]) = {}"
      using Cons.prems(3) is_list_headers [OF Cons.prems(1)] by auto
    obtain h3 where h3: "list_unique_loop h2 l d e lessf = Some h3" "is_list h3 l (us @ ks)"
      "dups_rep h3 d ((ds @ [v]) @ xs')"
      "frame (foot l (us @ e # vs) \<union> (if d = NULL then {} else foot d (ds @ [v]))) h2 h3"
      using Cons.IH [OF h2(2,3) fr xs'(1)] by blast
    have "frame (foot l (us @ e # v # vs) \<union> (if d = NULL then {} else foot d ds)) h h3"
      using h2(4) frame_mono [OF h3(4)] by (rule frame_trans) auto
    moreover have "list_unique_loop h l d e lessf = Some h3"
      using nx en vT True h1(1) h2(1) h3(1)
      by (subst list_unique_loop.simps) (simp add: equiv_by_def)
    ultimately show ?thesis using h3 xs' by auto
  next
    case False
    obtain ks' where ks': "uniq_by lessf v vs = (ks', xs)" "ks = e # ks'"
      using Cons.prems(4) False by (auto split: prod.splits)
    have l: "is_list h l ((us @ [e]) @ v # vs)" using Cons.prems(1) by simp
    obtain h3 where h3: "list_unique_loop h l d v lessf = Some h3" "is_list h3 l ((us @ [e]) @ ks')"
      "dups_rep h3 d (ds @ xs)"
      "frame (foot l ((us @ [e]) @ v # vs) \<union> (if d = NULL then {} else foot d ds)) h h3"
      using Cons.IH [OF l Cons.prems(2) _ ks'(1)] Cons.prems(3) by auto
    have "list_unique_loop h l d e lessf = Some h3"
      using nx en vT False h3(1) by (subst list_unique_loop.simps) (auto simp: equiv_by_def)
    then show ?thesis using h3 ks' by auto
  qed
qed

section \<open>Maximum and minimum\<close>

context weak_order
begin

lemma best_by_max:
  "\<exists>us vs. m # xs = us @ best_by (\<lambda>x m. lessf m x) m xs # vs
     \<and> (\<forall>x \<in> set us. lessf x (best_by (\<lambda>x m. lessf m x) m xs))
     \<and> (\<forall>x \<in> set vs. \<not> lessf (best_by (\<lambda>x m. lessf m x) m xs) x)"
proof (induction xs rule: rev_induct)
  case (snoc y ys)
  let ?b = "best_by (\<lambda>x m. lessf m x) m ys"
  have st: "best_by (\<lambda>x m. lessf m x) m (ys @ [y]) = (if lessf ?b y then y else ?b)"
    by (induction ys arbitrary: m) auto
  obtain us vs where u: "m # ys = us @ ?b # vs" "\<forall>x \<in> set us. lessf x ?b" "\<forall>x \<in> set vs. \<not> lessf ?b x"
    using snoc by blast
  show ?case
  proof (cases "lessf ?b y")
    case True
    have "lessf x y" if "x \<in> set (m # ys)" for x
    proof -
      have "\<not> lessf ?b x" using that u less_irrefl asym by auto
      then show ?thesis using True not_less_trans [of ?b x y] by blast
    qed
    then show ?thesis using True st by (intro exI [of _ "m # ys"] exI [of _ "[]"]) auto
  next
    case False
    then show ?thesis using u st by (intro exI [of _ us] exI [of _ "vs @ [y]"]) auto
  qed
qed (auto intro: exI [of _ "[]"])

end

text \<open>Reversing the comparison turns a maximum into a minimum.\<close>

sublocale weak_order \<subseteq> reversed: weak_order "\<lambda>x y. lessf y x"
  by unfold_locales (auto simp: less_irrefl intro: less_trans dest: not_less_trans)

text \<open>Comparing by a key in a linear order is such an order, however the keys are computed.\<close>

interpretation by_key: weak_order "\<lambda>a b. f a < f b" for f :: "'a \<Rightarrow> 'k :: linorder"
  by unfold_locales auto

section \<open>Properties\<close>

text \<open>
  C12. \<open>list_sort\<close> returns on every well-formed list and every comparison that is a strict weak
  order: afterwards the list holds exactly the same elements in nondecreasing order, elements
  that compare equal keep their relative order (the sort is stable), all the assertions inside
  the sort succeed, and no memory outside the list is written.
\<close>

theorem list_sort_correct:
  assumes "weak_order lessf" and "is_list h l xs"
  shows "\<exists>h' ys. list_sort h l lessf = Some h' \<and> is_list h' l ys \<and> mset ys = mset xs
    \<and> ord_by lessf ys \<and> (\<forall>z. filter (equiv_by lessf z) ys = filter (equiv_by lessf z) xs)
    \<and> (\<forall>a. a \<notin> foot l xs \<longrightarrow> h' a = h a)"
proof -
  have "addr_order lessf" using assms(1) by (simp add: addr_order_def)
  from addr_order.list_sort_is_list [OF this assms(2)] show ?thesis
    unfolding frame_def by blast
qed

definition heap_of :: "(addr \<times> addr \<times> addr) list \<Rightarrow> heap" where
  "heap_of cells = map_of (map (\<lambda>(a, p, n). (a, \<lparr>prev = p, next = n\<rparr>)) cells)"

theorem list_sort_correct_witness:
  "let h = heap_of [(8, 0, 30), (30, 8, 20), (20, 30, 40), (40, 20, 16), (16, 40, 0)] in
   is_list h 8 [30, 20, 40] \<and>
   (\<exists>h' ys. list_sort h 8 (\<lambda>a b. a < b) = Some h' \<and> is_list h' 8 ys \<and> mset ys = {#20, 30, 40#}
     \<and> ord_by (\<lambda>a b. a < b) ys)"
proof -
  let ?h = "heap_of [(8, 0, 30), (30, 8, 20), (20, 30, 40), (40, 20, 16), (16, 40, 0)]"
  have l: "is_list ?h 8 [30, 20, 40]"
    by (simp add: heap_of_def is_list_def linked_def ok_def nxt_def prv_def head_of_def tail_of_def)
  have w: "weak_order ((<) :: addr \<Rightarrow> addr \<Rightarrow> bool)" by unfold_locales auto
  show ?thesis
    using list_sort_correct [OF w l] l by (auto simp: Let_def add_mset_commute)
qed

text \<open>
  C13. \<open>list_insert_ordered\<close> into a list that is in order puts the element after every element
  it is not less than and before every element it is less than, so the list stays in order and
  equal elements are served first come, first served; nothing else is written.
\<close>

theorem list_insert_ordered_correct:
  assumes "weak_order lessf" and "is_list h l xs" and "ord_by lessf xs"
    and "ok h e" and "e \<notin> foot l xs"
  shows "\<exists>h' us vs. list_insert_ordered h l e lessf = Some h' \<and> xs = us @ vs
    \<and> is_list h' l (us @ e # vs) \<and> ord_by lessf (us @ e # vs)
    \<and> (\<forall>x \<in> set us. \<not> lessf e x) \<and> (\<forall>x \<in> set vs. lessf e x)
    \<and> (\<forall>a. a \<notin> insert e (foot l xs) \<longrightarrow> h' a = h a)"
proof -
  have "addr_order lessf" using assms(1) by (simp add: addr_order_def)
  from addr_order.list_insert_ordered_sorted [OF this assms(2,4,5,3)] show ?thesis
    unfolding frame_def by blast
qed

theorem list_insert_ordered_correct_witness:
  "let h = heap_of [(8, 0, 20), (20, 8, 40), (40, 20, 16), (16, 40, 0), (30, 5, 5)] in
   is_list h 8 [20, 40] \<and>
   (\<exists>h' us vs. list_insert_ordered h 8 30 (\<lambda>a b. a < b) = Some h' \<and> [20, 40] = us @ vs
     \<and> is_list h' 8 (us @ 30 # vs) \<and> ord_by (\<lambda>a b. a < b) (us @ 30 # vs))"
proof -
  let ?h = "heap_of [(8, 0, 20), (20, 8, 40), (40, 20, 16), (16, 40, 0), (30, 5, 5)]"
  have l: "is_list ?h 8 [20, 40]"
    by (simp add: heap_of_def is_list_def linked_def ok_def nxt_def prv_def head_of_def tail_of_def)
  have w: "weak_order ((<) :: addr \<Rightarrow> addr \<Rightarrow> bool)" by unfold_locales auto
  have e: "ok ?h 30" "30 \<notin> foot 8 [20, 40]"
    by (simp_all add: heap_of_def ok_def head_of_def tail_of_def)
  have s: "ord_by (<) [20, 40 :: addr]" by simp
  show ?thesis
    using list_insert_ordered_correct [OF w l s e] l unfolding Let_def by blast
qed

text \<open>
  C14. \<open>list_remove\<close> undoes \<open>list_insert\<close>: inserting a fresh element before any position and
  removing it again restores the list, returns the element before which it was inserted, and
  both operations succeed; in between, the element sits exactly at that position.
\<close>

theorem list_insert_remove_roundtrip:
  assumes "is_list h l (us @ vs)" and "ok h e" and "e \<notin> foot l (us @ vs)"
  shows "\<exists>h' h''. list_insert h (hd (vs @ [tail_of l])) e = Some h' \<and> is_list h' l (us @ e # vs)
    \<and> list_remove h' e = Some (hd (vs @ [tail_of l]), h'') \<and> is_list h'' l (us @ vs)"
  using list_insert_is_list [OF assms] list_remove_is_list by blast

theorem list_insert_remove_roundtrip_witness:
  "let h = heap_of [(8, 0, 20), (20, 8, 40), (40, 20, 16), (16, 40, 0), (30, 5, 5)] in
   \<exists>h' h''. list_insert h 40 30 = Some h' \<and> is_list h' 8 [20, 30, 40]
     \<and> list_remove h' 30 = Some (40, h'') \<and> is_list h'' 8 [20, 40]"
proof -
  let ?h = "heap_of [(8, 0, 20), (20, 8, 40), (40, 20, 16), (16, 40, 0), (30, 5, 5)]"
  have l: "is_list ?h 8 ([20] @ [40])" and e: "ok ?h 30" "30 \<notin> foot 8 ([20] @ [40])"
    by (simp_all add: heap_of_def is_list_def linked_def ok_def nxt_def prv_def head_of_def tail_of_def)
  show ?thesis using list_insert_remove_roundtrip [OF l e] unfolding Let_def by simp
qed

text \<open>
  \<open>list_reverse\<close> reverses a well-formed list in place, and reversing twice gives the
  original list back.
\<close>

theorem list_reverse_involution:
  assumes "is_list h l xs"
  shows "\<exists>h' h''. list_reverse h l = Some h' \<and> is_list h' l (rev xs)
    \<and> list_reverse h' l = Some h'' \<and> is_list h'' l xs \<and> (\<forall>a. a \<notin> foot l xs \<longrightarrow> h'' a = h a)"
proof -
  obtain h' where h': "list_reverse h l = Some h'" "is_list h' l (rev xs)" "frame (foot l xs) h h'"
    using list_reverse_is_list [OF assms] by blast
  obtain h'' where h'': "list_reverse h' l = Some h''" "is_list h'' l (rev (rev xs))"
    "frame (foot l (rev xs)) h' h''"
    using list_reverse_is_list [OF h'(2)] by blast
  then show ?thesis using h' by (auto simp: frame_def)
qed

theorem list_reverse_involution_witness:
  "let h = heap_of [(8, 0, 30), (30, 8, 20), (20, 30, 40), (40, 20, 16), (16, 40, 0)] in
   \<exists>h' h''. list_reverse h 8 = Some h' \<and> is_list h' 8 [40, 20, 30]
     \<and> list_reverse h' 8 = Some h'' \<and> is_list h'' 8 [30, 20, 40]"
proof -
  let ?h = "heap_of [(8, 0, 30), (30, 8, 20), (20, 30, 40), (40, 20, 16), (16, 40, 0)]"
  have l: "is_list ?h 8 [30, 20, 40]"
    by (simp add: heap_of_def is_list_def linked_def ok_def nxt_def prv_def head_of_def tail_of_def)
  show ?thesis using list_reverse_involution [OF l] unfolding Let_def by auto
qed

text \<open>
  C15. \<open>list_unique\<close> returns on every list and keeps exactly the first element of each run of
  adjacent equal elements: the list divides, in only one way, into runs whose elements compare
  equal to the first of the run while the first of the next run does not; the first elements of
  the runs stay in the list, in order, and all others are appended in order to the
  \<open>duplicates\<close> list if there is one (\<open>d \<noteq> NULL\<close>).
\<close>

theorem list_unique_correct:
  assumes "is_list h l xs" and "d = NULL \<or> is_list h d ds \<and> foot l xs \<inter> foot d ds = {}"
  shows "\<exists>h' rs. list_unique h l d lessf = Some h' \<and> runs_of lessf xs rs
    \<and> (\<forall>rs'. runs_of lessf xs rs' \<longrightarrow> map hd rs' = map hd rs \<and> concat (map tl rs') = concat (map tl rs))
    \<and> is_list h' l (map hd rs) \<and> (d \<noteq> NULL \<longrightarrow> is_list h' d (ds @ concat (map tl rs)))"
proof (cases xs)
  case Nil
  have r: "runs_of lessf xs []" using Nil by (simp add: runs_of_def)
  have "list_unique h l d lessf = Some h"
    using Nil assms(1) is_list_not_NULL [OF assms(1)] by (simp add: list_unique_def list_empty_is_list)
  moreover have "\<forall>rs'. runs_of lessf xs rs' \<longrightarrow> map hd rs' = map hd [] \<and> concat (map tl rs') = concat (map tl [])"
    using runs_of_unique [OF _ r] by blast
  moreover have "d \<noteq> NULL \<longrightarrow> is_list h d ds" using assms(2) by blast
  ultimately show ?thesis using r assms(1) Nil by (intro exI [of _ h] exI [of _ "[]"] conjI) simp_all
next
  case (Cons x ys)
  obtain ks dups where u: "uniq_by lessf x ys = (ks, dups)" by fastforce
  obtain rs where rs: "runs_of lessf xs rs" "ks = map hd rs" "dups = concat (map tl rs)" using uniq_by_runs [OF u] Cons by blast
  have l: "is_list h l ([] @ x # ys)" using assms(1) Cons by simp
  have d: "dups_rep h d ds" using assms(2) unfolding dups_rep_def by blast
  have dj: "d = NULL \<or> foot l ([] @ x # ys) \<inter> foot d ds = {}" using assms(2) unfolding Cons append_Nil by blast
  obtain h' where h': "list_unique_loop h l d x lessf = Some h'" "is_list h' l (map hd rs)" "dups_rep h' d (ds @ concat (map tl rs))"
    using list_unique_loop_is_list [OF l d dj u] unfolding append_Nil rs(2,3) by blast
  have "d \<noteq> NULL \<longrightarrow> is_list h' d (ds @ concat (map tl rs))" using h'(3) unfolding dups_rep_def by blast
  moreover have "list_unique h l d lessf = list_unique_loop h l d x lessf"
    using assms(1) is_list_not_NULL [OF assms(1)] Cons
    by (simp add: list_unique_def list_empty_is_list list_begin_is_list)
  moreover have "\<forall>rs'. runs_of lessf xs rs' \<longrightarrow> map hd rs' = map hd rs \<and> concat (map tl rs') = concat (map tl rs)"
    using runs_of_unique [OF _ rs(1)] by blast
  ultimately show ?thesis using rs(1) h'(1,2) by metis
qed

theorem list_unique_correct_witness:
  "let h = heap_of [(8, 0, 30), (30, 8, 31), (31, 30, 50), (50, 31, 16), (16, 50, 0), (80, 0, 88), (88, 80, 0)] in
   \<exists>h'. list_unique h 8 80 (\<lambda>a b. a div 10 < b div 10) = Some h' \<and> is_list h' 8 [30, 50] \<and> is_list h' 80 [31]"
proof -
  let ?h = "heap_of [(8, 0, 30), (30, 8, 31), (31, 30, 50), (50, 31, 16), (16, 50, 0), (80, 0, 88), (88, 80, 0)]"
  let ?less = "\<lambda>a b. a div 10 < b div (10 :: nat)"
  have l: "is_list ?h 8 [30, 31, 50]" and d: "is_list ?h 80 [] \<and> foot 8 [30, 31, 50] \<inter> foot 80 [] = {}"
    by (simp_all add: heap_of_def is_list_def linked_def ok_def nxt_def prv_def head_of_def tail_of_def)
  have "runs_of ?less [30, 31, 50] [[30, 31], [50]]" by (simp add: runs_of_def equiv_by_def)
  moreover obtain h' rs where "list_unique ?h 8 80 ?less = Some h'" "is_list h' 8 (map hd rs)" "is_list h' 80 ([] @ concat (map tl rs))"
    "\<forall>rs'. runs_of ?less [30, 31, 50] rs' \<longrightarrow> map hd rs' = map hd rs \<and> concat (map tl rs') = concat (map tl rs)"
    using list_unique_correct [OF l disjI2 [OF d], of ?less] by auto
  ultimately show ?thesis unfolding Let_def by force
qed

text \<open>
  \<open>list_max\<close> returns an element that no element of the list exceeds, and the first such
  element: everything before it is strictly less. On an empty list it returns the tail.
\<close>

theorem list_max_correct:
  assumes "weak_order lessf" and "is_list h l xs"
  shows "\<exists>m. list_max h l lessf = Some m \<and> (xs = [] \<longrightarrow> m = tail_of l) \<and>
    (xs \<noteq> [] \<longrightarrow> (\<exists>us vs. xs = us @ m # vs \<and> (\<forall>x \<in> set us. lessf x m) \<and> (\<forall>x \<in> set vs. \<not> lessf m x)))"
  using list_max_is_list [OF assms(2), of lessf] weak_order.best_by_max [OF assms(1)]
  by (cases xs) auto

theorem list_max_correct_witness:
  "let h = heap_of [(8, 0, 30), (30, 8, 20), (20, 30, 40), (40, 20, 16), (16, 40, 0)] in
   \<exists>m. list_max h 8 (\<lambda>a b. a < b) = Some m \<and>
     (\<exists>us vs. [30, 20, 40] = us @ m # vs \<and> (\<forall>x \<in> set us. x < m) \<and> (\<forall>x \<in> set vs. \<not> m < x))"
proof -
  let ?h = "heap_of [(8, 0, 30), (30, 8, 20), (20, 30, 40), (40, 20, 16), (16, 40, 0)]"
  have l: "is_list ?h 8 [30, 20, 40]"
    by (simp add: heap_of_def is_list_def linked_def ok_def nxt_def prv_def head_of_def tail_of_def)
  have w: "weak_order ((<) :: addr \<Rightarrow> addr \<Rightarrow> bool)" by unfold_locales auto
  show ?thesis using list_max_correct [OF w l] unfolding Let_def by simp
qed

end
