(* ===== verification/Hash_Table.thy ===== *)
theory Hash_Table
  imports List_Sort
begin

text \<open>
  \<^verbatim>\<open>lib/kernel/hash.c\<close>: a chained hash table. A bucket is a kernel list; its contents are given as
  the HOL list that \<open>is_list\<close> relates to it, with \<open>list_push_front\<close> as Cons and \<open>list_remove\<close> as the
  removal of one element, as proved for \<^verbatim>\<open>list.c\<close>. The hash and comparison functions of the client
  are arguments \<open>hashf\<close> and \<open>lessf\<close>; whether an allocation in \<open>rehash\<close> succeeds is a boolean
  argument; a \<open>hash_action_func\<close> is represented by the sequence of elements it is called on.
  \<open>None\<close> is an access outside the bucket array; a null \<open>hash_elem\<close> pointer is an inner \<open>None\<close>.
\<close>

unbundle bit_operations_syntax

section \<open>Representation\<close>

record 'e hash =
  elem_cnt :: nat
  bucket_cnt :: nat
  buckets :: "'e list list"

definition find_bucket :: "('e \<Rightarrow> 32 word) \<Rightarrow> 'e hash \<Rightarrow> 'e \<Rightarrow> nat option" where
  "find_bucket hashf h e = (let bucket_idx = unat (hashf e AND (of_nat (bucket_cnt h) - 1)) in do {
     ASSERT (bucket_idx < length (buckets h)); Some bucket_idx })"

fun find_in :: "('e \<Rightarrow> 'e \<Rightarrow> bool) \<Rightarrow> 'e list \<Rightarrow> 'e \<Rightarrow> 'e option" where
  "find_in lessf [] e = None"
| "find_in lessf (hi # bucket) e =
     (if \<not> lessf hi e \<and> \<not> lessf e hi then Some hi else find_in lessf bucket e)"

definition find_elem :: "('e \<Rightarrow> 'e \<Rightarrow> bool) \<Rightarrow> 'e hash \<Rightarrow> nat \<Rightarrow> 'e \<Rightarrow> 'e option" where
  "find_elem lessf h bucket e = find_in lessf (buckets h ! bucket) e"

definition insert_elem :: "'e hash \<Rightarrow> nat \<Rightarrow> 'e \<Rightarrow> 'e hash" where
  "insert_elem h bucket e =
     h\<lparr>elem_cnt := size_add (elem_cnt h) 1, buckets := (buckets h)[bucket := e # (buckets h ! bucket)]\<rparr>"

text \<open>
  The code unlinks the element by its address and does not know the bucket it is in; here it is
  taken out of whichever bucket holds it.
\<close>

definition remove_elem :: "'e hash \<Rightarrow> 'e \<Rightarrow> 'e hash" where
  "remove_elem h e = h\<lparr>elem_cnt := elem_cnt h - 1, buckets := map (remove1 e) (buckets h)\<rparr>"

section \<open>Resizing\<close>

definition turn_off_least_1bit :: "nat \<Rightarrow> nat" where
  "turn_off_least_1bit x = x AND (x - 1)"

definition is_power_of_2 :: "nat \<Rightarrow> bool" where
  "is_power_of_2 x \<longleftrightarrow> x \<noteq> 0 \<and> turn_off_least_1bit x = 0"

lemma and_nat_le: "(x AND y :: nat) \<le> y"
  using AND_upper2 [of "int y" "int x"] by (simp add: and_nat_def nat_le_iff)

lemma turn_off_less: "x \<noteq> 0 \<Longrightarrow> turn_off_least_1bit x < x"
  using and_nat_le [of x "x - 1"] by (simp add: turn_off_least_1bit_def)

function round_loop :: "nat \<Rightarrow> nat" where
  "round_loop n = (if n \<noteq> 0 \<and> \<not> is_power_of_2 n then round_loop (turn_off_least_1bit n) else n)"
  by pat_completeness auto
termination
  by (relation "measure id") (auto simp: turn_off_less)

declare round_loop.simps [simp del]

definition ideal_bucket_cnt :: "nat \<Rightarrow> nat" where
  "ideal_bucket_cnt n = (let c = n div 2 in round_loop (if c < 4 then 4 else c))"

fun move_elems :: "('e \<Rightarrow> 32 word) \<Rightarrow> 'e hash \<Rightarrow> 'e list \<Rightarrow> 'e hash option" where
  "move_elems hashf h [] = Some h"
| "move_elems hashf h (e # es) = do {
     i \<leftarrow> find_bucket hashf h e;
     move_elems hashf (h\<lparr>buckets := (buckets h)[i := e # (buckets h ! i)]\<rparr>) es }"

fun move_buckets :: "('e \<Rightarrow> 32 word) \<Rightarrow> 'e hash \<Rightarrow> 'e list list \<Rightarrow> 'e hash option" where
  "move_buckets hashf h [] = Some h"
| "move_buckets hashf h (b # bs) = do { h \<leftarrow> move_elems hashf h b; move_buckets hashf h bs }"

definition rehash :: "('e \<Rightarrow> 32 word) \<Rightarrow> bool \<Rightarrow> 'e hash \<Rightarrow> 'e hash option" where
  "rehash hashf mem h = (let old_buckets = buckets h; new_bucket_cnt = ideal_bucket_cnt (elem_cnt h) in
     if new_bucket_cnt = bucket_cnt h then Some h
     else if \<not> mem then Some h
     else move_buckets hashf
            (h\<lparr>buckets := replicate new_bucket_cnt [], bucket_cnt := new_bucket_cnt\<rparr>) old_buckets)"

section \<open>Operations\<close>

definition hash_clear :: "'e hash \<Rightarrow> 'e list \<times> 'e hash" where
  "hash_clear h = (concat (take (bucket_cnt h) (buckets h)),
     h\<lparr>elem_cnt := 0, buckets := replicate (bucket_cnt h) [] @ drop (bucket_cnt h) (buckets h)\<rparr>)"

definition hash_init :: "bool \<Rightarrow> 'e hash option" where
  "hash_init mem = (if mem then
     Some (snd (hash_clear \<lparr>elem_cnt = 0, bucket_cnt = 4, buckets = replicate 4 []\<rparr>)) else None)"

definition hash_insert ::
  "('e \<Rightarrow> 32 word) \<Rightarrow> ('e \<Rightarrow> 'e \<Rightarrow> bool) \<Rightarrow> bool \<Rightarrow> 'e hash \<Rightarrow> 'e \<Rightarrow> ('e option \<times> 'e hash) option" where
  "hash_insert hashf lessf mem h new = do {
     bucket \<leftarrow> find_bucket hashf h new;
     let old = find_elem lessf h bucket new;
     h \<leftarrow> rehash hashf mem (if old = None then insert_elem h bucket new else h);
     Some (old, h) }"

definition hash_replace ::
  "('e \<Rightarrow> 32 word) \<Rightarrow> ('e \<Rightarrow> 'e \<Rightarrow> bool) \<Rightarrow> bool \<Rightarrow> 'e hash \<Rightarrow> 'e \<Rightarrow> ('e option \<times> 'e hash) option" where
  "hash_replace hashf lessf mem h new = do {
     bucket \<leftarrow> find_bucket hashf h new;
     let old = find_elem lessf h bucket new;
     let h = (case old of None \<Rightarrow> h | Some x \<Rightarrow> remove_elem h x);
     h \<leftarrow> rehash hashf mem (insert_elem h bucket new);
     Some (old, h) }"

definition hash_find ::
  "('e \<Rightarrow> 32 word) \<Rightarrow> ('e \<Rightarrow> 'e \<Rightarrow> bool) \<Rightarrow> 'e hash \<Rightarrow> 'e \<Rightarrow> 'e option option" where
  "hash_find hashf lessf h e = do { bucket \<leftarrow> find_bucket hashf h e; Some (find_elem lessf h bucket e) }"

definition hash_delete ::
  "('e \<Rightarrow> 32 word) \<Rightarrow> ('e \<Rightarrow> 'e \<Rightarrow> bool) \<Rightarrow> bool \<Rightarrow> 'e hash \<Rightarrow> 'e \<Rightarrow> ('e option \<times> 'e hash) option" where
  "hash_delete hashf lessf mem h e = do {
     bucket \<leftarrow> find_bucket hashf h e;
     case find_elem lessf h bucket e of
       None \<Rightarrow> Some (None, h)
     | Some found \<Rightarrow> do { h \<leftarrow> rehash hashf mem (remove_elem h found); Some (Some found, h) } }"

definition hash_apply :: "'e hash \<Rightarrow> 'e list" where
  "hash_apply h = concat (take (bucket_cnt h) (buckets h))"

definition hash_size :: "'e hash \<Rightarrow> nat" where "hash_size h = elem_cnt h"

definition hash_empty :: "'e hash \<Rightarrow> bool" where "hash_empty h \<longleftrightarrow> elem_cnt h = 0"

section \<open>Iteration\<close>

text \<open>
  The iterator's \<open>bucket\<close> pointer is an index, its \<open>elem\<close> pointer a position in that bucket's
  list: 0 is the list head, \<open>k + 1\<close> the \<open>k\<close>-th element, one more than the length the list end.
\<close>

record hash_iterator =
  it_bucket :: nat
  it_pos :: nat

definition hash_first :: "hash_iterator" where
  "hash_first = \<lparr>it_bucket = 0, it_pos = 0\<rparr>"

function next_loop :: "'e hash \<Rightarrow> hash_iterator \<Rightarrow> hash_iterator option" where
  "next_loop h i =
     (if it_bucket i < bucket_cnt h \<and> it_bucket i < length (buckets h)
         \<and> it_pos i = length (buckets h ! it_bucket i) + 1 then
        (if it_bucket i + 1 \<ge> bucket_cnt h then None
         else next_loop h \<lparr>it_bucket = it_bucket i + 1, it_pos = 1\<rparr>)
      else Some i)"
  by pat_completeness auto
termination
  by (relation "measure (\<lambda>(h, i). bucket_cnt h - it_bucket i)") auto

declare next_loop.simps [simp del]

definition hash_next :: "'e hash \<Rightarrow> hash_iterator \<Rightarrow> hash_iterator option" where
  "hash_next h i = next_loop h (i\<lparr>it_pos := it_pos i + 1\<rparr>)"

definition hash_cur :: "'e hash \<Rightarrow> hash_iterator \<Rightarrow> 'e" where
  "hash_cur h i = buckets h ! it_bucket i ! (it_pos i - 1)"

section \<open>Sample hash functions\<close>

definition FNV_32_PRIME :: "32 word" where "FNV_32_PRIME = 16777619"

definition FNV_32_BASIS :: "32 word" where "FNV_32_BASIS = 2166136261"

fun fnv :: "32 word \<Rightarrow> 8 word list \<Rightarrow> 32 word" where
  "fnv hash [] = hash"
| "fnv hash (b # buf) = fnv ((hash * FNV_32_PRIME) XOR ucast b) buf"

definition hash_bytes :: "8 word list \<Rightarrow> 32 word" where
  "hash_bytes buf = fnv FNV_32_BASIS buf"

fun fnv_string :: "32 word \<Rightarrow> 8 word list \<Rightarrow> 32 word option" where
  "fnv_string hash [] = None"
| "fnv_string hash (c # s) =
     (if c = 0 then Some hash else fnv_string ((hash * FNV_32_PRIME) XOR ucast c) s)"

definition hash_string :: "8 word list \<Rightarrow> 32 word option" where
  "hash_string s = fnv_string FNV_32_BASIS s"

definition int_bytes :: "32 word \<Rightarrow> 8 word list" where
  "int_bytes i = [ucast i, ucast (drop_bit 8 i), ucast (drop_bit 16 i), ucast (drop_bit 24 i)]"

definition hash_int :: "32 word \<Rightarrow> 32 word" where
  "hash_int i = hash_bytes (int_bytes i)"

section \<open>Bucket counts are powers of two\<close>

lemma turn_off_odd: "odd x \<Longrightarrow> turn_off_least_1bit x = x - 1"
proof -
  assume "odd x"
  then obtain m where x: "x = 2 * m + 1" by (auto elim: oddE)
  then show ?thesis unfolding turn_off_least_1bit_def by (subst and_rec) simp
qed

lemma turn_off_even: "turn_off_least_1bit (2 * m) = 2 * turn_off_least_1bit m"
proof (cases m)
  case (Suc k)
  have "(2 * m - 1) div 2 = m - 1" using Suc by simp
  then show ?thesis unfolding turn_off_least_1bit_def by (subst and_rec) simp
qed (simp add: turn_off_least_1bit_def)

lemma is_power_of_2_double: "is_power_of_2 (2 * m) = is_power_of_2 m"
  by (simp add: is_power_of_2_def turn_off_even)

lemma is_power_of_2_odd: "odd x \<Longrightarrow> is_power_of_2 x \<longleftrightarrow> x = 1"
  by (auto simp: is_power_of_2_def turn_off_odd)

lemma is_power_of_2_iff: "is_power_of_2 x \<longleftrightarrow> (\<exists>k. x = 2 ^ k)"
proof (induction x rule: less_induct)
  case (less x)
  show ?case
  proof (cases "even x")
    case True
    then obtain m where x: "x = 2 * m" by blast
    show ?thesis
    proof (cases "m = 0")
      case False
      then have "is_power_of_2 m \<longleftrightarrow> (\<exists>k. m = 2 ^ k)" using less x by simp
      moreover have "(\<exists>k. 2 * m = 2 ^ k) \<longleftrightarrow> (\<exists>k. m = 2 ^ k)"
      proof
        assume "\<exists>k. 2 * m = 2 ^ k"
        then obtain k where "2 * m = 2 ^ k" by blast
        then show "\<exists>k. m = 2 ^ k" by (cases k) auto
      qed (metis power_Suc)
      ultimately show ?thesis by (simp add: x is_power_of_2_double)
    qed (simp add: x is_power_of_2_def)
  next
    case False
    have "(\<exists>k. x = 2 ^ k) \<longleftrightarrow> x = 1" using False
      by (metis even_power even_numeral power_0 zero_less_iff_neq_zero)
    then show ?thesis using False by (simp add: is_power_of_2_odd)
  qed
qed

lemma turn_off_lower: "\<not> is_power_of_2 x \<Longrightarrow> 2 ^ k \<le> x \<Longrightarrow> 2 ^ k \<le> turn_off_least_1bit x"
proof (induction x arbitrary: k rule: less_induct)
  case (less x)
  have x0: "x \<noteq> 0" using less.prems(2) by (metis not_le zero_less_numeral zero_less_power)
  show ?case
  proof (cases "even x")
    case True
    then obtain m where x: "x = 2 * m" by blast
    have m: "m < x" "\<not> is_power_of_2 m" using x0 x less.prems(1) by (auto simp: is_power_of_2_double)
    show ?thesis
    proof (cases k)
      case 0
      have "2 ^ 0 \<le> turn_off_least_1bit m" using x0 x by (intro less.IH [OF m]) auto
      then show ?thesis using 0 by (simp add: x turn_off_even)
    next
      case (Suc j)
      have "2 ^ j \<le> turn_off_least_1bit m" using less.prems(2) x Suc by (intro less.IH [OF m]) auto
      then show ?thesis using Suc by (simp add: x turn_off_even)
    qed
  next
    case False
    have "x \<noteq> 1" using less.prems(1) False by (simp add: is_power_of_2_odd)
    moreover have "x \<noteq> 2 ^ k" using less.prems(1) by (auto simp: is_power_of_2_iff)
    ultimately show ?thesis using less.prems(2) False by (simp add: turn_off_odd)
  qed
qed

lemma round_loop_power:
  "2 ^ k \<le> n \<Longrightarrow> \<exists>j \<ge> k. round_loop n = 2 ^ j \<and> 2 ^ j \<le> n"
proof (induction n rule: round_loop.induct)
  case (1 n)
  have n0: "n \<noteq> 0" using 1(2) by (metis not_le zero_less_numeral zero_less_power)
  show ?case
  proof (cases "is_power_of_2 n")
    case True
    then obtain j where j: "n = 2 ^ j" by (auto simp: is_power_of_2_iff)
    then show ?thesis using True 1(2) n0 by (subst round_loop.simps) (auto intro: power_le_imp_le_exp [of 2])
  next
    case False
    then obtain j where "j \<ge> k" "round_loop (turn_off_least_1bit n) = 2 ^ j" "2 ^ j \<le> turn_off_least_1bit n"
      using 1 n0 turn_off_lower [OF False] by blast
    then show ?thesis using False n0 turn_off_less [OF n0] by (subst round_loop.simps) auto
  qed
qed

lemma ideal_bucket_cnt_power:
  assumes "n < 4294967296"
  shows "\<exists>k. 2 \<le> k \<and> k \<le> 31 \<and> ideal_bucket_cnt n = 2 ^ k"
proof -
  let ?c = "if n div 2 < 4 then 4 else n div 2"
  have "2 ^ 2 \<le> ?c" by simp
  then obtain k where k: "k \<ge> 2" "round_loop ?c = 2 ^ k" "2 ^ k \<le> ?c"
    using round_loop_power [of 2 ?c] by blast
  have "2 ^ k < (2 :: nat) ^ 32" using k(3) assms by (auto split: if_splits)
  then have "k < 32" by (rule power_less_imp_less_exp [rotated]) simp
  then show ?thesis using k by (auto simp: ideal_bucket_cnt_def Let_def)
qed

lemma bucket_index: "unat (w AND (2 ^ k - 1) :: 32 word) = unat w mod 2 ^ k"
proof -
  have "w AND (2 ^ k - 1) = take_bit k w" by (simp add: take_bit_eq_mask mask_eq_exp_minus_1)
  then have "unat (w AND (2 ^ k - 1)) = take_bit k (unat w)" by (simp only: unsigned_take_bit_eq)
  then show ?thesis by (simp add: take_bit_eq_mod)
qed

section \<open>Invariant\<close>

definition h_elems :: "'e hash \<Rightarrow> 'e multiset" where
  "h_elems h = mset (concat (buckets h))"

definition shape_ok :: "('e \<Rightarrow> 32 word) \<Rightarrow> 'e hash \<Rightarrow> bool" where
  "shape_ok hashf h \<longleftrightarrow> (\<exists>k. 2 \<le> k \<and> k \<le> 31 \<and> bucket_cnt h = 2 ^ k) \<and> length (buckets h) = bucket_cnt h
     \<and> (\<forall>i < length (buckets h). \<forall>e \<in> set (buckets h ! i). unat (hashf e) mod bucket_cnt h = i)"

definition hash_inv :: "('e \<Rightarrow> 32 word) \<Rightarrow> ('e \<Rightarrow> 'e \<Rightarrow> bool) \<Rightarrow> 'e hash \<Rightarrow> bool" where
  "hash_inv hashf lessf h \<longleftrightarrow> shape_ok hashf h \<and> elem_cnt h = size (h_elems h)
     \<and> elem_cnt h < 4294967296 \<and> (\<forall>e. size (filter_mset (equiv_by lessf e) (h_elems h)) \<le> 1)"

lemma find_bucket_shape:
  "shape_ok hashf h \<Longrightarrow> find_bucket hashf h e = Some (unat (hashf e) mod bucket_cnt h)
     \<and> unat (hashf e) mod bucket_cnt h < length (buckets h)"
  by (auto simp: shape_ok_def find_bucket_def Let_def bucket_index)

lemma mset_concat_update:
  "i < length bs \<Longrightarrow> mset (concat (bs[i := e # bs ! i])) = add_mset e (mset (concat bs))"
proof (induction bs arbitrary: i)
  case (Cons b bs)
  then show ?case by (cases i) auto
qed simp

lemma move_elems_shape:
  "shape_ok hashf h \<Longrightarrow> \<exists>h'. move_elems hashf h es = Some h' \<and> shape_ok hashf h'
     \<and> bucket_cnt h' = bucket_cnt h \<and> elem_cnt h' = elem_cnt h \<and> h_elems h' = h_elems h + mset es"
proof (induction es arbitrary: h)
  case (Cons e es)
  let ?i = "unat (hashf e) mod bucket_cnt h"
  let ?h = "h\<lparr>buckets := (buckets h)[?i := e # (buckets h ! ?i)]\<rparr>"
  note fb = find_bucket_shape [OF Cons.prems, of e]
  have "shape_ok hashf ?h" using Cons.prems fb by (auto simp: shape_ok_def nth_list_update)
  moreover have "h_elems ?h = add_mset e (h_elems h)" using fb by (simp add: h_elems_def mset_concat_update)
  ultimately show ?case using Cons.IH [of ?h] fb by auto
qed auto

lemma move_buckets_shape:
  "shape_ok hashf h \<Longrightarrow> \<exists>h'. move_buckets hashf h bs = Some h' \<and> shape_ok hashf h'
     \<and> bucket_cnt h' = bucket_cnt h \<and> elem_cnt h' = elem_cnt h \<and> h_elems h' = h_elems h + mset (concat bs)"
proof (induction bs arbitrary: h)
  case (Cons b bs)
  obtain h1 where h1: "move_elems hashf h b = Some h1" "shape_ok hashf h1" "bucket_cnt h1 = bucket_cnt h"
    "elem_cnt h1 = elem_cnt h" "h_elems h1 = h_elems h + mset b"
    using move_elems_shape [OF Cons.prems] by blast
  then show ?case using Cons.IH [OF h1(2)] by auto
qed auto

lemma rehash_shape:
  assumes "shape_ok hashf h" and "elem_cnt h < 4294967296"
  shows "\<exists>h'. rehash hashf mem h = Some h' \<and> shape_ok hashf h' \<and> elem_cnt h' = elem_cnt h \<and> h_elems h' = h_elems h"
proof (cases "ideal_bucket_cnt (elem_cnt h) = bucket_cnt h \<or> \<not> mem")
  case True
  then show ?thesis using assms by (auto simp: rehash_def Let_def)
next
  case False
  let ?n = "ideal_bucket_cnt (elem_cnt h)"
  let ?h = "h\<lparr>buckets := replicate ?n [], bucket_cnt := ?n\<rparr>"
  have "shape_ok hashf ?h" using ideal_bucket_cnt_power [OF assms(2)] by (auto simp: shape_ok_def)
  moreover have "h_elems ?h = {#}" by (simp add: h_elems_def)
  ultimately show ?thesis
    using move_buckets_shape [of hashf ?h "buckets h"] False by (auto simp: rehash_def Let_def h_elems_def)
qed

lemma rehash_inv:
  assumes "hash_inv hashf lessf h"
  shows "\<exists>h'. rehash hashf mem h = Some h' \<and> hash_inv hashf lessf h' \<and> h_elems h' = h_elems h"
  using assms rehash_shape [of hashf h mem] by (auto simp: hash_inv_def)

section \<open>What the table needs of its client, and what it promises\<close>

locale hash_client = weak_order lessf for lessf :: "'e \<Rightarrow> 'e \<Rightarrow> bool" +
  fixes hashf :: "'e \<Rightarrow> 32 word"
  assumes hash_equiv: "equiv_by lessf x y \<Longrightarrow> hashf x = hashf y"
begin

lemma equiv_refl [simp]: "equiv_by lessf x x"
  by (simp add: equiv_by_def less_irrefl)

lemma equiv_sym: "equiv_by lessf x y \<longleftrightarrow> equiv_by lessf y x"
  by (auto simp: equiv_by_def)

lemma equiv_trans: "equiv_by lessf x y \<Longrightarrow> equiv_by lessf y z \<Longrightarrow> equiv_by lessf x z"
  by (auto simp: equiv_by_def dest: not_less_trans)

lemma find_in_None: "find_in lessf b e = None \<longleftrightarrow> (\<forall>x \<in> set b. \<not> equiv_by lessf x e)"
  by (induction b) (auto simp: equiv_by_def)

lemma find_in_Some: "find_in lessf b e = Some x \<Longrightarrow> x \<in> set b \<and> equiv_by lessf x e"
  by (induction b) (auto simp: equiv_by_def split: if_splits)

lemma in_own_bucket:
  assumes "shape_ok hashf h" and "x \<in># h_elems h" and "equiv_by lessf x e"
  shows "x \<in> set (buckets h ! (unat (hashf e) mod bucket_cnt h))"
proof -
  obtain b where "b \<in> set (buckets h)" "x \<in> set b" using assms(2) by (auto simp: h_elems_def)
  then obtain i where "i < length (buckets h)" "x \<in> set (buckets h ! i)" by (metis in_set_conv_nth)
  moreover from this have "unat (hashf x) mod bucket_cnt h = i" using assms(1) by (simp add: shape_ok_def)
  ultimately show ?thesis using hash_equiv [OF assms(3)] by simp
qed

lemma find_elem_spec:
  assumes "shape_ok hashf h"
  shows "find_elem lessf h (unat (hashf e) mod bucket_cnt h) e = None \<longleftrightarrow> (\<forall>x \<in># h_elems h. \<not> equiv_by lessf x e)"
    and "find_elem lessf h (unat (hashf e) mod bucket_cnt h) e = Some x \<Longrightarrow> x \<in># h_elems h \<and> equiv_by lessf x e"
proof -
  let ?i = "unat (hashf e) mod bucket_cnt h"
  have i: "?i < length (buckets h)" using find_bucket_shape [OF assms] by blast
  then have sub: "x \<in># h_elems h" if "x \<in> set (buckets h ! ?i)" for x
    using that by (auto simp: h_elems_def)
  show "find_elem lessf h ?i e = None \<longleftrightarrow> (\<forall>x \<in># h_elems h. \<not> equiv_by lessf x e)"
    using sub in_own_bucket [OF assms] by (auto simp: find_elem_def find_in_None)
  show "find_elem lessf h ?i e = Some x \<Longrightarrow> x \<in># h_elems h \<and> equiv_by lessf x e"
    using sub find_in_Some by (auto simp: find_elem_def)
qed

lemma insert_elem_inv:
  assumes "hash_inv hashf lessf h" and "\<forall>x \<in># h_elems h. \<not> equiv_by lessf x e"
    and "elem_cnt h + 1 < 4294967296"
  shows "hash_inv hashf lessf (insert_elem h (unat (hashf e) mod bucket_cnt h) e)
    \<and> h_elems (insert_elem h (unat (hashf e) mod bucket_cnt h) e) = add_mset e (h_elems h)"
proof -
  let ?i = "unat (hashf e) mod bucket_cnt h"
  let ?h = "insert_elem h ?i e"
  have sh: "shape_ok hashf h" and cnt: "elem_cnt h = size (h_elems h)"
    and un: "\<And>z. size (filter_mset (equiv_by lessf z) (h_elems h)) \<le> 1"
    using assms(1) by (auto simp: hash_inv_def)
  have i: "?i < length (buckets h)" using find_bucket_shape [OF sh] by blast
  have el: "h_elems ?h = add_mset e (h_elems h)"
    using i by (simp add: h_elems_def insert_elem_def mset_concat_update)
  have "shape_ok hashf ?h" using sh i by (auto simp: shape_ok_def insert_elem_def nth_list_update)
  moreover have "filter_mset (equiv_by lessf z) (h_elems h) = {#}" if "equiv_by lessf z e" for z
    using that assms(2) equiv_trans [of _ z e] by (auto simp: equiv_sym)
  then have "size (filter_mset (equiv_by lessf z) (h_elems ?h)) \<le> 1" for z
    using un by (auto simp: el)
  ultimately show ?thesis using el cnt assms(3) by (auto simp: hash_inv_def insert_elem_def size_add_def)
qed

lemma mset_concat_remove1:
  "count (mset (concat bs)) x \<le> 1 \<Longrightarrow> mset (concat (map (remove1 x) bs)) = mset (concat bs) - {#x#}"
proof (induction bs)
  case (Cons b bs)
  then have IH: "mset (concat (map (remove1 x) bs)) = mset (concat bs) - {#x#}" by simp
  show ?case
  proof (cases "x \<in> set b")
    case True
    then have "count (mset b) x > 0" by simp
    moreover have "count (mset b) x + count (mset (concat bs)) x \<le> 1" using Cons.prems by simp
    ultimately have "count (mset (concat bs)) x = 0" by linarith
    then have "mset (concat bs) - {#x#} = mset (concat bs)" by (intro diff_single_trivial) (simp add: not_in_iff)
    then show ?thesis using IH True by (simp add: multiset_diff_union_assoc)
  next
    case False
    then have c0: "count (mset b) x = 0" by simp
    have "mset b + (mset (concat bs) - {#x#}) = mset b + mset (concat bs) - {#x#}"
      by (simp add: multiset_eq_iff c0)
    then show ?thesis using IH False by (simp add: remove1_idem)
  qed
qed simp

lemma remove_elem_inv:
  assumes "hash_inv hashf lessf h" and "x \<in># h_elems h"
  shows "hash_inv hashf lessf (remove_elem h x) \<and> h_elems (remove_elem h x) = h_elems h - {#x#}"
proof -
  have sh: "shape_ok hashf h" and cnt: "elem_cnt h = size (h_elems h)" "elem_cnt h < 4294967296"
    and un: "\<And>z. size (filter_mset (equiv_by lessf z) (h_elems h)) \<le> 1"
    using assms(1) by (auto simp: hash_inv_def)
  have "count (h_elems h) x = count (filter_mset (equiv_by lessf x) (h_elems h)) x" by simp
  also have "\<dots> \<le> 1" by (rule order_trans [OF count_le_size un])
  finally have "count (mset (concat (buckets h))) x \<le> 1" by (simp only: h_elems_def)
  from mset_concat_remove1 [OF this] have el: "h_elems (remove_elem h x) = h_elems h - {#x#}"
    by (simp add: h_elems_def remove_elem_def)
  have ec: "elem_cnt (remove_elem h x) = elem_cnt h - 1" by (simp add: remove_elem_def)
  have "shape_ok hashf (remove_elem h x)"
    using sh set_remove1_subset by (fastforce simp: shape_ok_def remove_elem_def)
  moreover have "size (filter_mset (equiv_by lessf z) (h_elems h - {#x#})) \<le> 1" for z
    using size_mset_mono [OF multiset_filter_mono [OF diff_subset_eq_self, of "equiv_by lessf z" "h_elems h" "{#x#}"]]
      un [of z] by (rule order_trans)
  ultimately show ?thesis
    using cnt assms(2) by (simp add: hash_inv_def el size_Diff_singleton ec)
qed

text \<open>The four operations. They never leave the bucket array, whether or not memory runs out.\<close>

lemma hash_find_spec:
  assumes "hash_inv hashf lessf h"
  shows "\<exists>r. hash_find hashf lessf h e = Some r \<and>
    (case r of None \<Rightarrow> \<forall>x \<in># h_elems h. \<not> equiv_by lessf x e | Some x \<Rightarrow> x \<in># h_elems h \<and> equiv_by lessf x e)"
proof -
  have sh: "shape_ok hashf h" using assms by (simp add: hash_inv_def)
  show ?thesis
    using find_elem_spec [OF sh, of e] find_bucket_shape [OF sh, of e]
    by (auto simp: hash_find_def split: option.splits)
qed

lemma hash_insert_spec:
  assumes "hash_inv hashf lessf h" and "elem_cnt h + 1 < 4294967296"
  shows "\<exists>old h'. hash_insert hashf lessf mem h e = Some (old, h') \<and> hash_inv hashf lessf h' \<and>
    (case old of None \<Rightarrow> (\<forall>x \<in># h_elems h. \<not> equiv_by lessf x e) \<and> h_elems h' = add_mset e (h_elems h)
     | Some x \<Rightarrow> x \<in># h_elems h \<and> equiv_by lessf x e \<and> h_elems h' = h_elems h)"
proof -
  have sh: "shape_ok hashf h" using assms by (simp add: hash_inv_def)
  let ?i = "unat (hashf e) mod bucket_cnt h"
  note fb = find_bucket_shape [OF sh, of e] and fe = find_elem_spec [OF sh, of e]
  show ?thesis
  proof (cases "find_elem lessf h ?i e")
    case None
    then have no: "\<forall>x \<in># h_elems h. \<not> equiv_by lessf x e" using fe(1) by blast
    note ins = insert_elem_inv [OF assms(1) no assms(2)]
    obtain h' where "rehash hashf mem (insert_elem h ?i e) = Some h'" "hash_inv hashf lessf h'"
      "h_elems h' = add_mset e (h_elems h)"
      using rehash_inv [of hashf lessf "insert_elem h ?i e" mem] ins by auto
    then show ?thesis using None fb no by (auto simp: hash_insert_def)
  next
    case (Some x)
    obtain h' where "rehash hashf mem h = Some h'" "hash_inv hashf lessf h'" "h_elems h' = h_elems h"
      using rehash_inv [OF assms(1)] by blast
    then show ?thesis using Some fb fe(2) by (auto simp: hash_insert_def)
  qed
qed

lemma hash_delete_spec:
  assumes "hash_inv hashf lessf h"
  shows "\<exists>r h'. hash_delete hashf lessf mem h e = Some (r, h') \<and> hash_inv hashf lessf h' \<and>
    (case r of None \<Rightarrow> (\<forall>x \<in># h_elems h. \<not> equiv_by lessf x e) \<and> h_elems h' = h_elems h
     | Some x \<Rightarrow> x \<in># h_elems h \<and> equiv_by lessf x e \<and> h_elems h' = h_elems h - {#x#})"
proof -
  have sh: "shape_ok hashf h" using assms by (simp add: hash_inv_def)
  let ?i = "unat (hashf e) mod bucket_cnt h"
  note fb = find_bucket_shape [OF sh, of e] and fe = find_elem_spec [OF sh, of e]
  show ?thesis
  proof (cases "find_elem lessf h ?i e")
    case None
    then show ?thesis using assms fb fe(1) by (auto simp: hash_delete_def)
  next
    case (Some x)
    then have x: "x \<in># h_elems h" "equiv_by lessf x e" using fe(2) by auto
    note rm = remove_elem_inv [OF assms x(1)]
    obtain h' where "rehash hashf mem (remove_elem h x) = Some h'" "hash_inv hashf lessf h'"
      "h_elems h' = h_elems h - {#x#}"
      using rehash_inv [of hashf lessf "remove_elem h x" mem] rm by auto
    then show ?thesis using Some fb x by (auto simp: hash_delete_def)
  qed
qed

lemma hash_replace_spec:
  assumes "hash_inv hashf lessf h" and "elem_cnt h + 1 < 4294967296"
  shows "\<exists>old h'. hash_replace hashf lessf mem h e = Some (old, h') \<and> hash_inv hashf lessf h' \<and>
    (case old of None \<Rightarrow> (\<forall>x \<in># h_elems h. \<not> equiv_by lessf x e) \<and> h_elems h' = add_mset e (h_elems h)
     | Some x \<Rightarrow> x \<in># h_elems h \<and> equiv_by lessf x e \<and> h_elems h' = add_mset e (h_elems h - {#x#}))"
proof -
  have sh: "shape_ok hashf h" using assms by (simp add: hash_inv_def)
  let ?i = "unat (hashf e) mod bucket_cnt h"
  note fb = find_bucket_shape [OF sh, of e] and fe = find_elem_spec [OF sh, of e]
  let ?h = "case find_elem lessf h ?i e of None \<Rightarrow> h | Some x \<Rightarrow> remove_elem h x"
  have inv: "hash_inv hashf lessf ?h" and bc: "bucket_cnt ?h = bucket_cnt h"
    and no: "\<forall>x \<in># h_elems ?h. \<not> equiv_by lessf x e" and cnt: "elem_cnt ?h + 1 < 4294967296"
  proof -
    show "hash_inv hashf lessf ?h"
      using assms(1) remove_elem_inv [OF assms(1)] fe(2) by (auto split: option.splits)
    show "bucket_cnt ?h = bucket_cnt h" by (auto simp: remove_elem_def split: option.splits)
    show "elem_cnt ?h + 1 < 4294967296" using assms(2) by (auto simp: remove_elem_def split: option.splits)
    show "\<forall>x \<in># h_elems ?h. \<not> equiv_by lessf x e"
    proof (cases "find_elem lessf h ?i e")
      case (Some y)
      have y: "y \<in># h_elems h" "equiv_by lessf y e" using fe(2) [OF Some] by auto
      have "filter_mset (equiv_by lessf e) (h_elems h) = add_mset y (filter_mset (equiv_by lessf e) (h_elems h - {#y#}))"
        using y by (metis equiv_sym filter_mset_add_mset insert_DiffM)
      moreover have "size (filter_mset (equiv_by lessf e) (h_elems h)) \<le> 1"
        using assms(1) by (simp add: hash_inv_def)
      ultimately have "size (filter_mset (equiv_by lessf e) (h_elems h - {#y#})) = 0"
        by (metis One_nat_def Suc_le_mono le_zero_eq size_add_mset)
      then have "\<forall>x \<in># h_elems h - {#y#}. \<not> equiv_by lessf e x"
        by (simp only: size_eq_0_iff_empty filter_mset_eq_mempty_iff) blast
      then show ?thesis using Some remove_elem_inv [OF assms(1) y(1)] equiv_sym by simp
    qed (use fe(1) in auto)
  qed
  note ins = insert_elem_inv [OF inv no cnt, unfolded bc]
  obtain h' where "rehash hashf mem (insert_elem ?h ?i e) = Some h'" "hash_inv hashf lessf h'"
    "h_elems h' = add_mset e (h_elems ?h)"
    using rehash_inv [of hashf lessf "insert_elem ?h ?i e" mem] ins by auto
  moreover have "hash_replace hashf lessf mem h e = Some (find_elem lessf h ?i e, h')"
    if "rehash hashf mem (insert_elem ?h ?i e) = Some h'" for h'
    using that fb by (simp add: hash_replace_def)
  moreover have "h_elems ?h = (case find_elem lessf h ?i e of None \<Rightarrow> h_elems h | Some x \<Rightarrow> h_elems h - {#x#})"
    using fe(2) remove_elem_inv [OF assms(1)] by (auto split: option.splits)
  ultimately show ?thesis
    using fe by (cases "find_elem lessf h ?i e") auto
qed

end

text \<open>
  A structure hashed by an integer member with \<open>hash_int\<close> and compared by that member is such a
  client, whatever the structure.
\<close>

interpretation int_keyed: hash_client "\<lambda>a b. key a < key b" "\<lambda>e. hash_int (key e)"
  for key :: "'e \<Rightarrow> 32 word"
  by unfold_locales (auto simp: equiv_by_def)

lemma fnv_string_fnv: "0 \<notin> set s \<Longrightarrow> fnv_string hash (s @ 0 # rest) = Some (fnv hash s)"
  by (induction s arbitrary: hash) auto

lemma hash_string_bytes: "0 \<notin> set s \<Longrightarrow> hash_string (s @ 0 # rest) = Some (hash_bytes s)"
  by (simp add: hash_string_def hash_bytes_def fnv_string_fnv)

section \<open>Iteration visits every element once\<close>

definition it_rest :: "'e hash \<Rightarrow> hash_iterator \<Rightarrow> 'e list" where
  "it_rest h i = drop (it_pos i) (buckets h ! it_bucket i) @ concat (drop (Suc (it_bucket i)) (buckets h))"

definition it_ok :: "'e hash \<Rightarrow> hash_iterator \<Rightarrow> bool" where
  "it_ok h i \<longleftrightarrow> bucket_cnt h = length (buckets h) \<and> it_bucket i < bucket_cnt h
     \<and> it_pos i \<le> length (buckets h ! it_bucket i)"

text \<open>The loop of \<open>hash_next\<close> starts one past the position \<open>p\<close> whose rest is still to come.\<close>

lemma next_loop_rest:
  assumes "it_ok h \<lparr>it_bucket = b, it_pos = p\<rparr>"
  shows "case next_loop h \<lparr>it_bucket = b, it_pos = Suc p\<rparr> of
      None \<Rightarrow> it_rest h \<lparr>it_bucket = b, it_pos = p\<rparr> = []
    | Some j \<Rightarrow> it_ok h j \<and> it_rest h \<lparr>it_bucket = b, it_pos = p\<rparr> = hash_cur h j # it_rest h j"
  using assms
proof (induction "bucket_cnt h - b" arbitrary: b p rule: less_induct)
  case less
  let ?B = "buckets h ! b"
  have ok: "bucket_cnt h = length (buckets h)" "b < bucket_cnt h" "p \<le> length ?B"
    using less.prems by (auto simp: it_ok_def)
  show ?case
  proof (cases "p = length ?B")
    case False
    then have "p < length ?B" using ok by simp
    then show ?thesis using ok
      by (subst next_loop.simps) (auto simp: it_rest_def it_ok_def hash_cur_def Cons_nth_drop_Suc [symmetric])
  next
    case True
    show ?thesis
    proof (cases "Suc b = bucket_cnt h")
      case last: True
      then show ?thesis using ok True by (subst next_loop.simps) (simp add: it_rest_def)
    next
      case False
      then have b': "Suc b < bucket_cnt h" using ok by simp
      have st: "next_loop h \<lparr>it_bucket = b, it_pos = Suc p\<rparr> = next_loop h \<lparr>it_bucket = Suc b, it_pos = Suc 0\<rparr>"
        using ok True b' by (subst next_loop.simps) simp
      have "it_rest h \<lparr>it_bucket = b, it_pos = p\<rparr> = it_rest h \<lparr>it_bucket = Suc b, it_pos = 0\<rparr>"
        using True b' ok by (simp add: it_rest_def Cons_nth_drop_Suc [symmetric])
      moreover have "it_ok h \<lparr>it_bucket = Suc b, it_pos = 0\<rparr>" using ok b' by (simp add: it_ok_def)
      moreover have "bucket_cnt h - Suc b < bucket_cnt h - b" using b' by simp
      ultimately show ?thesis unfolding st using less.hyps [of "Suc b" 0] by (simp split: option.splits)
    qed
  qed
qed

lemma hash_next_rest:
  assumes "it_ok h i"
  shows "case hash_next h i of None \<Rightarrow> it_rest h i = []
    | Some j \<Rightarrow> it_ok h j \<and> it_rest h i = hash_cur h j # it_rest h j"
proof -
  have i: "\<lparr>it_bucket = it_bucket i, it_pos = it_pos i\<rparr> = i"
    and i': "\<lparr>it_bucket = it_bucket i, it_pos = Suc (it_pos i)\<rparr> = i\<lparr>it_pos := Suc (it_pos i)\<rparr>" by simp_all
  show ?thesis using next_loop_rest [of h "it_bucket i" "it_pos i"] assms unfolding i i' by (simp add: hash_next_def)
qed


text \<open>The iteration idiom of the comment above \<open>hash_first\<close>, with the body collecting elements.\<close>

fun iterate :: "nat \<Rightarrow> 'e hash \<Rightarrow> hash_iterator \<Rightarrow> 'e list option" where
  "iterate 0 h i = None"
| "iterate (Suc n) h i =
     (case hash_next h i of None \<Rightarrow> Some []
      | Some j \<Rightarrow> map_option ((#) (hash_cur h j)) (iterate n h j))"

lemma iterate_rest: "it_ok h i \<Longrightarrow> length (it_rest h i) < n \<Longrightarrow> iterate n h i = Some (it_rest h i)"
proof (induction n arbitrary: i)
  case (Suc n)
  then show ?case using hash_next_rest [OF Suc.prems(1)] by (auto split: option.splits)
qed simp

lemma hash_first_rest:
  assumes "shape_ok hashf h"
  shows "it_ok h hash_first" "it_rest h hash_first = hash_apply h"
proof -
  obtain b bs where "buckets h = b # bs" using assms by (cases "buckets h") (auto simp: shape_ok_def)
  then show "it_ok h hash_first" "it_rest h hash_first = hash_apply h"
    using assms by (auto simp: shape_ok_def it_ok_def it_rest_def hash_first_def hash_apply_def)
qed

section \<open>Properties\<close>

lemma hash_find_None_iff:
  assumes "hash_client lessf hashf" and "hash_inv hashf lessf h"
  shows "hash_find hashf lessf h z = Some None \<longleftrightarrow> (\<forall>x \<in># h_elems h. \<not> equiv_by lessf x z)"
  using hash_client.hash_find_spec [OF assms, of z] by (fastforce split: option.splits)

lemma hash_find_present:
  assumes "hash_client lessf hashf" and "hash_inv hashf lessf h" and "y \<in># h_elems h" and "equiv_by lessf y z"
  shows "\<exists>x. hash_find hashf lessf h z = Some (Some x) \<and> x \<in># h_elems h \<and> equiv_by lessf x z"
  using hash_client.hash_find_spec [OF assms(1,2), of z] assms(3,4) by (auto split: option.splits)

lemma word_table_client: "hash_client (<) hash_int"
  using int_keyed.hash_client_axioms [of "\<lambda>x. x"] by simp

definition table_357 :: "32 word hash" where
  "table_357 = \<lparr>elem_cnt = 3, bucket_cnt = 4, buckets = [[7, 3], [], [5], []]\<rparr>"

lemma table_357_inv: "hash_inv hash_int (<) table_357"
proof -
  have "unat (hash_int 3) mod 4 = 0" "unat (hash_int 5) mod 4 = 2" "unat (hash_int 7) mod 4 = 0"
    by (simp_all add: hash_int_def hash_bytes_def int_bytes_def FNV_32_PRIME_def FNV_32_BASIS_def)
  moreover have "equiv_by (<) e x \<longleftrightarrow> x = e" for e x :: "32 word" by (auto simp: equiv_by_def)
  ultimately show ?thesis
    by (auto simp: hash_inv_def shape_ok_def table_357_def h_elems_def less_Suc_eq All_less_Suc intro!: exI [of _ 2])
qed

text \<open>
  C17. For every client whose comparison is a strict weak order and whose hash respects it:
  \<open>hash_insert\<close> succeeds, keeps the table's invariant, adds the new element exactly when no
  equal element is present and otherwise returns the one that is, whether or not the memory
  for more buckets is available; and afterwards \<open>hash_find\<close> on the same key finds an equal
  element, while a key unequal to it is found after the insertion exactly when it was before.
\<close>

theorem hash_insert_find:
  assumes "hash_client lessf hashf" and "hash_inv hashf lessf h" and "elem_cnt h + 1 < 4294967296"
  shows "\<exists>old h' x. hash_insert hashf lessf mem h e = Some (old, h') \<and> hash_inv hashf lessf h'
    \<and> h_elems h' = (if old = None then add_mset e (h_elems h) else h_elems h)
    \<and> (old = None \<longleftrightarrow> (\<forall>x \<in># h_elems h. \<not> equiv_by lessf x e))
    \<and> (\<forall>y. old = Some y \<longrightarrow> y \<in># h_elems h \<and> equiv_by lessf y e)
    \<and> hash_find hashf lessf h' e = Some (Some x) \<and> equiv_by lessf x e
    \<and> (\<forall>z. \<not> equiv_by lessf e z \<longrightarrow>
         hash_find hashf lessf h' z = Some None \<longleftrightarrow> hash_find hashf lessf h z = Some None)"
proof -
  note fn = hash_find_None_iff [OF assms(1)] and refl = hash_client.equiv_refl [OF assms(1)]
  obtain old h' where r: "hash_insert hashf lessf mem h e = Some (old, h')" "hash_inv hashf lessf h'"
      "case old of None \<Rightarrow> (\<forall>x \<in># h_elems h. \<not> equiv_by lessf x e) \<and> h_elems h' = add_mset e (h_elems h)
       | Some x \<Rightarrow> x \<in># h_elems h \<and> equiv_by lessf x e \<and> h_elems h' = h_elems h"
    using hash_client.hash_insert_spec [OF assms] by blast
  obtain y where "y \<in># h_elems h'" "equiv_by lessf y e" using r(3) refl by (cases old) auto
  then obtain x where "hash_find hashf lessf h' e = Some (Some x)" "equiv_by lessf x e"
    using hash_find_present [OF assms(1) r(2)] by blast
  moreover have "h_elems h' = (if old = None then add_mset e (h_elems h) else h_elems h)"
    and "old = None \<longleftrightarrow> (\<forall>x \<in># h_elems h. \<not> equiv_by lessf x e)"
    and "\<forall>y. old = Some y \<longrightarrow> y \<in># h_elems h \<and> equiv_by lessf y e"
    using r(3) by (auto split: option.splits)
  moreover from this(1,2) have "hash_find hashf lessf h' z = Some None \<longleftrightarrow> hash_find hashf lessf h z = Some None"
    if "\<not> equiv_by lessf e z" for z
    using that unfolding fn [OF r(2)] fn [OF assms(2)] by (cases old) simp_all
  ultimately show ?thesis using r(1,2) by blast
qed

theorem hash_insert_find_witness:
  "hash_inv hash_int (<) table_357 \<and> elem_cnt table_357 + 1 < 4294967296
   \<and> (\<exists>old h' x. hash_insert hash_int (<) True table_357 9 = Some (old, h') \<and> hash_inv hash_int (<) h'
        \<and> hash_find hash_int (<) h' 9 = Some (Some x) \<and> equiv_by (<) x 9)"
  using hash_insert_find [OF word_table_client table_357_inv, of True 9] table_357_inv
  by (auto simp: table_357_def)

text \<open>
  C18. \<open>hash_delete\<close> succeeds, keeps the invariant and removes exactly the one element equal to
  its argument, which it returns; a table without such an element keeps its elements; and after
  it no search for that key succeeds.
\<close>

theorem hash_delete_find:
  assumes "hash_client lessf hashf" and "hash_inv hashf lessf h"
  shows "\<exists>r h'. hash_delete hashf lessf mem h e = Some (r, h') \<and> hash_inv hashf lessf h'
    \<and> h_elems h = h_elems h' + (case r of None \<Rightarrow> {#} | Some x \<Rightarrow> {#x#})
    \<and> (\<forall>x. r = Some x \<longrightarrow> equiv_by lessf x e) \<and> hash_find hashf lessf h' e = Some None"
proof -
  obtain r h' where d: "hash_delete hashf lessf mem h e = Some (r, h')" "hash_inv hashf lessf h'"
      "case r of None \<Rightarrow> (\<forall>x \<in># h_elems h. \<not> equiv_by lessf x e) \<and> h_elems h' = h_elems h
       | Some x \<Rightarrow> x \<in># h_elems h \<and> equiv_by lessf x e \<and> h_elems h' = h_elems h - {#x#}"
    using hash_client.hash_delete_spec [OF assms] by blast
  have "\<not> equiv_by lessf y e" if "y \<in># h_elems h'" for y
  proof (cases r)
    case None
    then show ?thesis using d(3) that by auto
  next
    case (Some x)
    then have x: "h_elems h = add_mset x (h_elems h')" "equiv_by lessf x e" using d(3) by auto
    have "size (filter_mset (equiv_by lessf e) (h_elems h)) \<le> 1" using assms(2) by (simp add: hash_inv_def)
    then have "filter_mset (equiv_by lessf e) (h_elems h') = {#}"
      using x hash_client.equiv_sym [OF assms(1)] by simp
    then show ?thesis using that hash_client.equiv_sym [OF assms(1)] by (auto simp: filter_mset_eq_conv)
  qed
  then have "hash_find hashf lessf h' e = Some None" using hash_find_None_iff [OF assms(1) d(2)] by blast
  then show ?thesis using d by (intro exI [of _ r] exI [of _ h']) (auto split: option.splits)
qed

theorem hash_delete_find_witness:
  "hash_inv hash_int (<) table_357
   \<and> (\<exists>r h'. hash_delete hash_int (<) True table_357 5 = Some (r, h') \<and> hash_inv hash_int (<) h'
        \<and> hash_find hash_int (<) h' 5 = Some None)"
  using hash_delete_find [OF word_table_client table_357_inv, of True 5] table_357_inv by blast

text \<open>
  C19. The iteration idiom \<open>hash_first (&i, h); while (hash_next (&i)) ... hash_cur (&i)\<close> ends and
  visits every element of the table exactly once, in the order in which \<open>hash_apply\<close> does.
\<close>

theorem hash_iteration_complete:
  assumes "hash_inv hashf lessf h"
  shows "iterate (Suc (elem_cnt h)) h hash_first = Some (hash_apply h) \<and> mset (hash_apply h) = h_elems h"
proof -
  have sh: "shape_ok hashf h" using assms by (simp add: hash_inv_def)
  have "mset (hash_apply h) = h_elems h" using sh by (simp add: hash_apply_def h_elems_def shape_ok_def)
  moreover from this have "length (hash_apply h) = elem_cnt h"
    using assms by (metis hash_inv_def size_mset)
  ultimately show ?thesis using iterate_rest [of h hash_first "Suc (elem_cnt h)"] hash_first_rest [OF sh] by simp
qed

theorem hash_iteration_complete_witness:
  "hash_inv hash_int (<) table_357 \<and> iterate 4 table_357 hash_first = Some [7, 3, 5]"
  using hash_iteration_complete [OF table_357_inv] table_357_inv
  by (simp add: table_357_def hash_apply_def eval_nat_numeral)

text \<open>
  C20. The target number of buckets for \<open>n\<close> elements is a power of two, at least four, and, once
  there are eight elements, the largest power of two that is no more than half their number: between two and four
  elements per bucket.
\<close>

theorem ideal_bucket_cnt_spec:
  assumes "n < 4294967296"
  shows "\<exists>k. ideal_bucket_cnt n = 2 ^ k \<and> 2 \<le> k \<and> k \<le> 31
    \<and> (8 \<le> n \<longrightarrow> 2 * ideal_bucket_cnt n \<le> n \<and> n < 4 * ideal_bucket_cnt n)"
proof -
  let ?c = "if n div 2 < 4 then 4 else n div 2"
  obtain k where k: "2 \<le> k" "k \<le> 31" "ideal_bucket_cnt n = 2 ^ k" using ideal_bucket_cnt_power [OF assms] by blast
  have "1 \<le> ?c" by simp
  then obtain m where m: "2 ^ m \<le> ?c" "?c < 2 ^ (m + 1)" using ex_power_ivl1 [OF order_refl, of ?c] by blast
  obtain j where j: "m \<le> j" "round_loop ?c = 2 ^ j" "2 ^ j \<le> ?c" using round_loop_power [OF m(1)] by blast
  have "(2::nat) ^ j < 2 ^ (m + 1)" using j(3) m(2) by linarith
  then have "j = m" using j(1) by (simp only: power_strict_increasing_iff)
  then have "ideal_bucket_cnt n = 2 ^ m" using j(2) by (simp add: ideal_bucket_cnt_def)
  moreover have "2 * 2 ^ m \<le> n \<and> n < 4 * 2 ^ m" if "8 \<le> n"
    using m that by (cases "n div 2 < 4") (simp_all, linarith) 
  ultimately show ?thesis using k by (intro exI [of _ k]) simp
qed

theorem ideal_bucket_cnt_spec_witness: "ideal_bucket_cnt 20 = 8"
proof -
  obtain k where k: "ideal_bucket_cnt 20 = 2 ^ k" "2 * (2::nat) ^ k \<le> 20" "(20::nat) < 4 * 2 ^ k"
    using ideal_bucket_cnt_spec [of 20] by auto
  have "(2::nat) ^ k < 2 ^ 4" "(2::nat) ^ 2 < 2 ^ k" using k by simp_all
  then have "k < 4" "2 < k" by (simp_all only: power_strict_increasing_iff) 
  then have "k = 3" by simp
  then show ?thesis using k by simp
qed

end
