(* ===== verification/Fixed_Point.thy ===== *)
theory Fixed_Point
  imports Prelude
begin

text \<open>
  The 17.14 fixed-point arithmetic of \<open>threads/fixed-point.h\<close>, used by the feedback-queue scheduler.

  A \<open>fixed_point\<close> is a C \<open>int\<close>. Each macro is a function on mathematical integers that applies
  the conversions its expansion has at the scheduler's uses: products of two \<open>int\<close>s wrap
  (\<open>wrap_s32\<close>), the products of \<open>FP_MUL_FP\<close> and \<open>FP_DIV_FP\<close> are taken in 64 bits, where those of
  two 32-bit operands cannot overflow (\<open>FP_wide_product\<close>), and division truncates (\<open>c_div\<close>).
\<close>

definition FP_F :: int where "FP_F = 16384"

definition INT_TO_FP :: "int \<Rightarrow> int" where
  "INT_TO_FP n = wrap_s32 (n * FP_F)"

definition FP_TO_INT_TRUNC :: "int \<Rightarrow> int" where
  "FP_TO_INT_TRUNC x = c_div x FP_F"

definition FP_TO_INT_ROUND :: "int \<Rightarrow> int" where
  "FP_TO_INT_ROUND x =
     (if x \<ge> 0 then c_div (wrap_s32 (x + c_div FP_F 2)) FP_F else c_div (wrap_s32 (x - c_div FP_F 2)) FP_F)"

definition FP_ADD_FP :: "int \<Rightarrow> int \<Rightarrow> int" where
  "FP_ADD_FP x y = wrap_s32 (x + y)"

definition FP_SUB_FP :: "int \<Rightarrow> int \<Rightarrow> int" where
  "FP_SUB_FP x y = wrap_s32 (x - y)"

definition FP_ADD_INT :: "int \<Rightarrow> int \<Rightarrow> int" where
  "FP_ADD_INT x n = wrap_s32 (x + wrap_s32 (n * FP_F))"

definition FP_SUB_INT :: "int \<Rightarrow> int \<Rightarrow> int" where
  "FP_SUB_INT x n = wrap_s32 (x - wrap_s32 (n * FP_F))"

definition FP_MUL_FP :: "int \<Rightarrow> int \<Rightarrow> int" where
  "FP_MUL_FP x y = c_div (x * y) FP_F"

definition FP_MUL_INT :: "int \<Rightarrow> int \<Rightarrow> int" where
  "FP_MUL_INT x n = wrap_s32 (x * n)"

definition FP_DIV_FP :: "int \<Rightarrow> int \<Rightarrow> int option" where
  "FP_DIV_FP x y = (if y = 0 then None else Some (c_div (x * FP_F) y))"

definition FP_DIV_INT :: "int \<Rightarrow> int \<Rightarrow> int option" where
  "FP_DIV_INT x n = (if n = 0 then None else Some (c_div x n))"

abbreviation is_int32 :: "int \<Rightarrow> bool" where
  "is_int32 x \<equiv> - 2147483648 \<le> x \<and> x < 2147483648"

lemma FP_wide_product:
  assumes "is_int32 x" and "is_int32 y"
  shows "\<bar>x * y\<bar> < 9223372036854775808"
proof -
  have "\<bar>x\<bar> \<le> 2147483648" "\<bar>y\<bar> \<le> 2147483648" using assms by linarith+
  then have "\<bar>x\<bar> * \<bar>y\<bar> \<le> 2147483648 * 2147483648" by (intro mult_mono) auto
  then show ?thesis by (simp add: abs_mult)
qed

lemma c_div_between: "0 < b \<Longrightarrow> \<bar>c_div a b\<bar> \<le> \<bar>a\<bar>"
proof -
  assume b: "0 < b"
  then have "0 \<le> \<bar>a\<bar> div b" by (simp add: pos_imp_zdiv_nonneg_iff)
  moreover have "\<bar>a\<bar> div b \<le> \<bar>a\<bar>" using zdiv_mono2 [of "\<bar>a\<bar>" 1 b] b by simp
  ultimately show ?thesis using b by (cases "0 < a") (auto simp: c_div_def abs_mult sgn_if)
qed

lemma c_div_scale [cint_simps]: "0 < b \<Longrightarrow> c_div (a * b) b = a"
  by (simp add: c_div_def abs_mult sgn_mult mult_sgn_abs)

lemma c_div_pos_range:
  assumes "0 \<le> a" and "0 < b"
  shows "b * c_div a b \<le> a \<and> a < b * c_div a b + b"
proof -
  have "b * (a div b) + a mod b = a" "0 \<le> a mod b" "a mod b < b" using assms(2) by simp_all
  then show ?thesis unfolding c_div_nonneg [OF assms] by linarith
qed

lemma FP_round_trip:
  assumes "\<bar>n\<bar> < 131072"
  shows "FP_TO_INT_TRUNC (INT_TO_FP n) = n"
  using assms by (simp add: FP_TO_INT_TRUNC_def INT_TO_FP_def FP_F_def wrap_s32_id c_div_scale)

end
