(* ===== verification/Threads.thy ===== *)
theory Threads
  imports List_Sort Fixed_Point
begin

text \<open>
  Kernel threads and the scheduler: \<open>threads/thread.c\<close>, \<open>threads/thread.h\<close> and the interrupt
  level of \<open>threads/interrupt.c\<close>, in the configuration of \<open>src/threads\<close> (no \<open>USERPROG\<close>).

  The state is one record \<open>kernel\<close>: the thread structures by address, the run queue and the list
  of all threads as sequences (what \<open>list.c\<close> makes of them is proved in \<open>Kernel_List\<close> and
  \<open>List_Sort\<close>), the interrupt flags, and the semaphores, locks, condition variables and timer
  state of \<open>Synch\<close> and \<open>Timer\<close>, which the scheduler's clients share.

  A member \<open>elem\<close> of a thread is on at most one list, and \<open>elem_at\<close> says which. Linking a linked
  element or removing an unlinked one has no defined meaning in C, and is \<open>None\<close> here.

  Switching threads. A call that gives up the processor does not return to its caller at once.
  What remains to be done is a \<open>frame\<close> on the stack of the thread (\<open>frames\<close>): an operation
  that may switch first pushes the frame of its own remainder, and the remainder runs when the
  thread is running again and the frame is on top. \<open>Body\<close> is the frame of the thread's function.
\<close>

datatype thread_status = THREAD_RUNNING | THREAD_READY | THREAD_BLOCKED | THREAD_DYING

datatype intr_level = INTR_OFF | INTR_ON

text \<open>A semaphore stands alone, or is a member of a lock, or of the local \<open>waiter\<close> of a thread in
  \<open>cond_wait\<close>.\<close>

datatype sema_ref = Sema addr | Lock_sema addr | Waiter addr

datatype elem_at = Unlinked | In_ready | In_sema sema_ref

datatype thread_func = F_NULL | F_idle | F_other nat

text \<open>Who asks \<open>allocate_tid\<close> for an identifier: \<open>thread_init\<close>, or \<open>thread_create\<close> for a new thread
  that will run a function on an argument.\<close>

datatype tid_user = For_init | For_create addr thread_func addr

datatype frame =
    Body
  | Alloc_tid tid_user
  | Alloc_tid_done tid_user int
  | Kernel_thread thread_func addr
  | Thread_start_rest addr
  | Idle_start addr
  | Idle_loop
  | Idle_wake
  | Yield_rest intr_level
  | Sema_down_rest sema_ref intr_level
  | Lock_acquire_rest addr intr_level
  | Lock_release_rest intr_level
  | Lock_try_rest addr
  | Cond_wait_sema addr
  | Cond_wait_lock addr
  | Cond_broadcast_rest addr addr
  | Sleep_rest intr_level
  | Intr_return

record thread =
  tid :: int
  status :: thread_status
  name :: string
  stack :: addr
  elem :: elem_at
  wake_up_time :: int
  priority :: int
  priority_lock_master :: addr
  stored_priority :: "int list"
  stored_lock_master :: "addr list"
  stored_index :: nat
  nice :: int
  recent_cpu :: int
  magic :: nat

record semaphore =
  sema_value :: "32 word"
  sema_waiters :: "addr list"

record kernel =
  threads :: "addr \<rightharpoonup> thread"
  ready_list :: "addr list"
  all_list :: "addr list"
  idle_thread :: addr
  initial_thread :: addr
  cur :: addr
  frames :: "addr \<Rightarrow> frame list"
  level :: intr_level
  in_external_intr :: bool
  yield_on_return :: bool
  thread_mlfqs :: bool
  load_avg :: int
  idle_ticks :: int
  kernel_ticks :: int
  thread_ticks :: nat
  tid_lock :: addr
  next_tid :: int
  semas :: "sema_ref \<rightharpoonup> semaphore"
  locks :: "addr \<rightharpoonup> addr"
  conds :: "addr \<rightharpoonup> addr list"
  ticks :: int
  alarm_list :: "addr list"

definition THREAD_MAGIC :: nat where "THREAD_MAGIC = 0xcd6abf4b"
definition PRI_MIN :: int where "PRI_MIN = 0"
definition PRI_DEFAULT :: int where "PRI_DEFAULT = 31"
definition PRI_MAX :: int where "PRI_MAX = 63"
definition TIME_SLICE :: nat where "TIME_SLICE = 4"
definition PGSIZE :: nat where "PGSIZE = 4096"
definition TID_ERROR :: int where "TID_ERROR = - 1"

section \<open>Access to the state\<close>

text \<open>Memory of a thread that does not exist, \<open>NULL\<close> included, cannot be accessed.\<close>

definition upd_thread :: "addr \<Rightarrow> (thread \<Rightarrow> thread) \<Rightarrow> kernel \<Rightarrow> kernel" where
  "upd_thread t f k = k\<lparr>threads := (threads k)(t := map_option f (threads k t))\<rparr>"

definition prio :: "kernel \<Rightarrow> addr \<Rightarrow> int" where
  "prio k t = (case threads k t of None \<Rightarrow> 0 | Some th \<Rightarrow> priority th)"

definition push_frame :: "frame \<Rightarrow> kernel \<Rightarrow> kernel" where
  "push_frame f k = k\<lparr>frames := (frames k)(cur k := f # frames k (cur k))\<rparr>"

definition pop_frame :: "kernel \<Rightarrow> kernel" where
  "pop_frame k = k\<lparr>frames := (frames k)(cur k := tl (frames k (cur k)))\<rparr>"

section \<open>Interrupt level\<close>

definition intr_get_level :: "kernel \<Rightarrow> intr_level" where
  "intr_get_level k = level k"

definition intr_context :: "kernel \<Rightarrow> bool" where
  "intr_context k = in_external_intr k"

definition intr_enable :: "kernel \<Rightarrow> (intr_level \<times> kernel) option" where
  "intr_enable k = do {
     ASSERT (\<not> intr_context k);
     Some (intr_get_level k, k\<lparr>level := INTR_ON\<rparr>) }"

definition intr_disable :: "kernel \<Rightarrow> intr_level \<times> kernel" where
  "intr_disable k = (intr_get_level k, k\<lparr>level := INTR_OFF\<rparr>)"

definition intr_set_level :: "intr_level \<Rightarrow> kernel \<Rightarrow> (intr_level \<times> kernel) option" where
  "intr_set_level l k = (if l = INTR_ON then intr_enable k else Some (intr_disable k))"

definition intr_yield_on_return :: "kernel \<Rightarrow> kernel option" where
  "intr_yield_on_return k = do { ASSERT (intr_context k); Some (k\<lparr>yield_on_return := True\<rparr>) }"

text \<open>The common case, where the previous level is not used.\<close>

definition restore_level :: "intr_level \<Rightarrow> kernel \<Rightarrow> kernel option" where
  "restore_level l k = map_option snd (intr_set_level l k)"

section \<open>The running thread and the run queue\<close>

definition thread_priority_large_func :: "kernel \<Rightarrow> addr \<Rightarrow> addr \<Rightarrow> bool" where
  "thread_priority_large_func k a b \<longleftrightarrow> prio k a > prio k b"

definition is_thread :: "kernel \<Rightarrow> addr \<Rightarrow> bool" where
  "is_thread k t \<longleftrightarrow> t \<noteq> NULL \<and> (case threads k t of None \<Rightarrow> False | Some th \<Rightarrow> magic th = THREAD_MAGIC)"

definition running_thread :: "kernel \<Rightarrow> addr" where
  "running_thread k = cur k"

definition thread_current :: "kernel \<Rightarrow> addr option" where
  "thread_current k = do {
     let t = running_thread k;
     ASSERT (is_thread k t);
     th \<leftarrow> threads k t;
     ASSERT (status th = THREAD_RUNNING);
     Some t }"

definition thread_name :: "kernel \<Rightarrow> string option" where
  "thread_name k = do { t \<leftarrow> thread_current k; th \<leftarrow> threads k t; Some (name th) }"

definition thread_tid :: "kernel \<Rightarrow> int option" where
  "thread_tid k = do { t \<leftarrow> thread_current k; th \<leftarrow> threads k t; Some (tid th) }"

text \<open>Insertion of a thread's \<open>elem\<close> into the run queue by descending priority, and removal of
  \<open>elem\<close> from whichever list it is on.\<close>

definition ready_insert :: "addr \<Rightarrow> kernel \<Rightarrow> kernel option" where
  "ready_insert t k = do {
     th \<leftarrow> threads k t;
     ASSERT (elem th = Unlinked);
     Some (upd_thread t (elem_update (\<lambda>_. In_ready))
       (k\<lparr>ready_list := insort_by (thread_priority_large_func k) t (ready_list k)\<rparr>)) }"

definition elem_remove :: "addr \<Rightarrow> kernel \<Rightarrow> kernel option" where
  "elem_remove t k = do {
     th \<leftarrow> threads k t;
     let k' = upd_thread t (elem_update (\<lambda>_. Unlinked)) k;
     (case elem th of
        Unlinked \<Rightarrow> None
      | In_ready \<Rightarrow> Some (k'\<lparr>ready_list := remove1 t (ready_list k)\<rparr>)
      | In_sema s \<Rightarrow> do {
          sem \<leftarrow> semas k s;
          Some (k'\<lparr>semas := (semas k)(s \<mapsto> sem\<lparr>sema_waiters := remove1 t (sema_waiters sem)\<rparr>)\<rparr>) }) }"

section \<open>Scheduling\<close>

definition next_thread_to_run :: "kernel \<Rightarrow> addr \<times> kernel" where
  "next_thread_to_run k =
     (case ready_list k of
        [] \<Rightarrow> (idle_thread k, k)
      | t # ts \<Rightarrow> (t, upd_thread t (elem_update (\<lambda>_. Unlinked)) (k\<lparr>ready_list := ts\<rparr>)))"

text \<open>\<open>palloc_free_page\<close> returns the page of a dead thread, which holds its structure and stack.\<close>

definition free_thread :: "addr \<Rightarrow> kernel \<Rightarrow> kernel" where
  "free_thread t k = k\<lparr>threads := (threads k)(t := None), frames := (frames k)(t := [])\<rparr>"

definition thread_schedule_tail :: "addr \<Rightarrow> kernel \<Rightarrow> kernel option" where
  "thread_schedule_tail p k = do {
     let c = running_thread k;
     ASSERT (intr_get_level k = INTR_OFF);
     let k1 = (upd_thread c (status_update (\<lambda>_. THREAD_RUNNING)) k)\<lparr>thread_ticks := 0\<rparr>;
     if p \<noteq> NULL \<and> map_option status (threads k1 p) = Some THREAD_DYING \<and> p \<noteq> initial_thread k then do {
       ASSERT (p \<noteq> c);
       Some (free_thread p k1) }
     else Some k1 }"

definition schedule :: "kernel \<Rightarrow> kernel option" where
  "schedule k = do {
     let c = running_thread k;
     let (n, k1) = next_thread_to_run k;
     ASSERT (intr_get_level k1 = INTR_OFF);
     th \<leftarrow> threads k1 c;
     ASSERT (status th \<noteq> THREAD_RUNNING);
     ASSERT (is_thread k1 n);
     thread_schedule_tail (if c \<noteq> n then c else NULL) (k1\<lparr>cur := n\<rparr>) }"

definition set_status :: "addr \<Rightarrow> thread_status \<Rightarrow> kernel \<Rightarrow> kernel" where
  "set_status t s k = upd_thread t (status_update (\<lambda>_. s)) k"

definition thread_block :: "kernel \<Rightarrow> kernel option" where
  "thread_block k = do {
     ASSERT (\<not> intr_context k);
     ASSERT (intr_get_level k = INTR_OFF);
     c \<leftarrow> thread_current k;
     schedule (set_status c THREAD_BLOCKED k) }"

definition thread_unblock :: "addr \<Rightarrow> kernel \<Rightarrow> kernel option" where
  "thread_unblock t k = do {
     ASSERT (is_thread k t);
     let (old_level, k1) = intr_disable k;
     th \<leftarrow> threads k1 t;
     ASSERT (status th = THREAD_BLOCKED);
     k2 \<leftarrow> ready_insert t k1;
     restore_level old_level (set_status t THREAD_READY k2) }"

definition thread_yield :: "kernel \<Rightarrow> kernel option" where
  "thread_yield k = do {
     c \<leftarrow> thread_current k;
     ASSERT (\<not> intr_context k);
     let (old_level, k1) = intr_disable k;
     k2 \<leftarrow> (if c \<noteq> idle_thread k then ready_insert c k1 else Some k1);
     schedule (push_frame (Yield_rest old_level) (set_status c THREAD_READY k2)) }"

definition yield_rest :: "intr_level \<Rightarrow> kernel \<Rightarrow> kernel option" where
  "yield_rest old_level k = restore_level old_level k"

definition thread_exit :: "kernel \<Rightarrow> kernel option" where
  "thread_exit k = do {
     ASSERT (\<not> intr_context k);
     let (_, k1) = intr_disable k;
     c \<leftarrow> thread_current k1;
     ASSERT (c \<in> set (all_list k1));
     let k2 = k1\<lparr>all_list := remove1 c (all_list k1)\<rparr>;
     schedule (set_status c THREAD_DYING k2) }"

definition thread_tick :: "kernel \<Rightarrow> kernel option" where
  "thread_tick k = do {
     t \<leftarrow> thread_current k;
     let k1 = (if t = idle_thread k then k\<lparr>idle_ticks := idle_ticks k + 1\<rparr>
               else k\<lparr>kernel_ticks := kernel_ticks k + 1\<rparr>);
     let n = (thread_ticks k1 + 1) mod 4294967296;
     let k2 = k1\<lparr>thread_ticks := n\<rparr>;
     (if n \<ge> TIME_SLICE then intr_yield_on_return k2 else Some k2) }"

text \<open>The action that \<open>func\<close> is applied to every thread of the list of all threads, in order.\<close>

fun foreach :: "(addr \<Rightarrow> kernel \<Rightarrow> kernel option) \<Rightarrow> addr list \<Rightarrow> kernel \<Rightarrow> kernel option" where
  "foreach func [] k = Some k"
| "foreach func (t # ts) k = do { k' \<leftarrow> func t k; foreach func ts k' }"

definition thread_foreach :: "(addr \<Rightarrow> kernel \<Rightarrow> kernel option) \<Rightarrow> kernel \<Rightarrow> kernel option" where
  "thread_foreach func k = do {
     ASSERT (intr_get_level k = INTR_OFF);
     foreach func (all_list k) k }"

definition thread_set_priority :: "int \<Rightarrow> kernel \<Rightarrow> kernel option" where
  "thread_set_priority new_priority k =
     (if thread_mlfqs k then Some k
      else do {
        let (old_level, k1) = intr_disable k;
        c \<leftarrow> thread_current k1;
        th \<leftarrow> threads k1 c;
        if stored_index th \<noteq> 0 then
          restore_level old_level
            (upd_thread c (stored_priority_update (\<lambda>ps. ps[0 := new_priority])) k1)
        else do {
          k2 \<leftarrow> restore_level old_level (upd_thread c (priority_update (\<lambda>_. new_priority)) k1);
          thread_yield k2 } })"

definition thread_get_priority :: "kernel \<Rightarrow> int option" where
  "thread_get_priority k = do { t \<leftarrow> thread_current k; th \<leftarrow> threads k t; Some (priority th) }"

section \<open>The feedback-queue scheduler\<close>

text \<open>The priority the formula gives, before it is clamped, with C's \<open>int\<close> arithmetic.\<close>

definition nice_priority :: "int \<Rightarrow> int \<Rightarrow> int" where
  "nice_priority rc n =
     (let p = wrap_s32 (wrap_s32 (PRI_MAX - FP_TO_INT_TRUNC (c_div rc 4)) - wrap_s32 (n * 2));
          p = (if p > PRI_MAX then PRI_MAX else p)
      in if p < PRI_MIN then PRI_MIN else p)"

definition thread_update_priority_with_nice :: "addr \<Rightarrow> kernel \<Rightarrow> kernel option" where
  "thread_update_priority_with_nice t k = do {
     ASSERT (thread_mlfqs k);
     if t = idle_thread k then Some k
     else do {
       th \<leftarrow> threads k t;
       Some (upd_thread t (priority_update (\<lambda>_. nice_priority (recent_cpu th) (nice th))) k) } }"

definition thread_update_priority_with_nice_all :: "kernel \<Rightarrow> kernel option" where
  "thread_update_priority_with_nice_all k = do {
     ASSERT (thread_mlfqs k);
     thread_foreach thread_update_priority_with_nice k }"

definition decay :: "int \<Rightarrow> int option" where
  "decay la = (let a = FP_MUL_INT la 2 in map_option wrap_s32 (FP_DIV_FP a (FP_ADD_INT a 1)))"

definition thread_update_recent_cpu :: "addr \<Rightarrow> kernel \<Rightarrow> kernel option" where
  "thread_update_recent_cpu t k = do {
     ASSERT (thread_mlfqs k);
     if t = idle_thread k then Some k
     else do {
       b \<leftarrow> decay (load_avg k);
       th \<leftarrow> threads k t;
       Some (upd_thread t (recent_cpu_update (\<lambda>rc. FP_ADD_INT (FP_MUL_FP b rc) (nice th))) k) } }"

definition sort_ready :: "kernel \<Rightarrow> kernel" where
  "sort_ready k = k\<lparr>ready_list := fold (insort_by (thread_priority_large_func k)) (ready_list k) []\<rparr>"

definition thread_update_recent_cpu_all :: "kernel \<Rightarrow> kernel option" where
  "thread_update_recent_cpu_all k = do {
     ASSERT (thread_mlfqs k);
     k1 \<leftarrow> thread_foreach thread_update_recent_cpu k;
     k2 \<leftarrow> thread_update_priority_with_nice_all k1;
     Some (sort_ready k2) }"

definition new_load_avg :: "int \<Rightarrow> int \<Rightarrow> int option" where
  "new_load_avg la co = do {
     x \<leftarrow> FP_DIV_INT (INT_TO_FP 59) 60;
     y \<leftarrow> FP_DIV_INT (INT_TO_FP 1) 60;
     let a = wrap_s32 (FP_MUL_FP x la);
     let b = FP_MUL_INT y co;
     Some (FP_ADD_FP a b) }"

definition update_load_avg :: "kernel \<Rightarrow> kernel option" where
  "update_load_avg k = do {
     ASSERT (thread_mlfqs k);
     let co = int (length (ready_list k));
     c \<leftarrow> thread_current k;
     l \<leftarrow> new_load_avg (load_avg k) (if c \<noteq> idle_thread k then co + 1 else co);
     Some (k\<lparr>load_avg := l\<rparr>) }"

definition thread_ins_recent_cpu :: "kernel \<Rightarrow> kernel option" where
  "thread_ins_recent_cpu k = do {
     ASSERT (thread_mlfqs k);
     c \<leftarrow> thread_current k;
     if c \<noteq> idle_thread k then
       Some (upd_thread c (recent_cpu_update (\<lambda>rc. FP_ADD_INT rc 1)) k)
     else Some k }"

definition thread_set_nice :: "int \<Rightarrow> kernel \<Rightarrow> kernel option" where
  "thread_set_nice n k = do {
     ASSERT (thread_mlfqs k);
     c \<leftarrow> thread_current k;
     k1 \<leftarrow> thread_update_priority_with_nice c (upd_thread c (nice_update (\<lambda>_. n)) k);
     (case ready_list k1 of
        [] \<Rightarrow> Some k1
      | t # _ \<Rightarrow> if prio k1 t > prio k1 c then thread_yield k1 else Some k1) }"

definition thread_get_nice :: "kernel \<Rightarrow> int option" where
  "thread_get_nice k = do {
     ASSERT (thread_mlfqs k);
     t \<leftarrow> thread_current k; th \<leftarrow> threads k t; Some (nice th) }"

definition thread_get_load_avg :: "kernel \<Rightarrow> int option" where
  "thread_get_load_avg k = do {
     ASSERT (thread_mlfqs k);
     Some (FP_TO_INT_ROUND (FP_MUL_INT (load_avg k) 100)) }"

definition thread_get_recent_cpu :: "kernel \<Rightarrow> int option" where
  "thread_get_recent_cpu k = do {
     ASSERT (thread_mlfqs k);
     t \<leftarrow> thread_current k; th \<leftarrow> threads k t;
     Some (FP_TO_INT_ROUND (FP_MUL_INT (recent_cpu th) 100)) }"

section \<open>New threads\<close>

text \<open>
  \<open>init_thread\<close> orders the list of all threads with \<open>thread_priority_large_func\<close>, which takes its
  arguments for the members \<open>elem\<close> although they are the members \<open>allelem\<close>: what it compares are
  the words two pointers before \<open>priority\<close>. They are not part of this state, so the outcome
  of the comparisons is a parameter \<open>all_less\<close>.
\<close>

definition blank_thread :: "addr \<Rightarrow> string \<Rightarrow> int \<Rightarrow> thread" where
  "blank_thread t nm pri =
     \<lparr>tid = 0, status = THREAD_BLOCKED, name = take 15 nm, stack = t + PGSIZE, elem = Unlinked,
      wake_up_time = 0, priority = pri, priority_lock_master = NULL,
      stored_priority = replicate 30 0, stored_lock_master = replicate 30 NULL, stored_index = 0,
      nice = 0, recent_cpu = 0, magic = THREAD_MAGIC\<rparr>"

definition init_thread :: "(addr \<Rightarrow> addr \<Rightarrow> bool) \<Rightarrow> addr \<Rightarrow> string \<Rightarrow> int \<Rightarrow> kernel \<Rightarrow> kernel option" where
  "init_thread all_less t nm pri k = do {
     ASSERT (t \<noteq> NULL);
     ASSERT (PRI_MIN \<le> pri \<and> pri \<le> PRI_MAX);
     let (old_level, k1) = intr_disable (k\<lparr>threads := (threads k)(t \<mapsto> blank_thread t nm pri)\<rparr>);
     restore_level old_level (k1\<lparr>all_list := insort_by all_less t (all_list k1)\<rparr>) }"

definition alloc_frame :: "addr \<Rightarrow> nat \<Rightarrow> kernel \<Rightarrow> kernel option" where
  "alloc_frame t sz k = do {
     ASSERT (is_thread k t);
     ASSERT (sz mod 4 = 0);
     Some (upd_thread t (stack_update (\<lambda>p. p - sz)) k) }"

end
