(* ===== verification/Synch.thy ===== *)
theory Synch
  imports Threads
begin

text \<open>
  Semaphores, locks with priority donation, and condition variables (\<open>threads/synch.c\<close>), and the
  parts of \<open>threads/thread.c\<close> that use them: thread identifiers, the creation of threads and the
  idle thread. Every operation that may switch threads is split where it may: \<open>..._loop\<close> is the
  body of its waiting loop, and a \<open>frame\<close> stands for the rest (see \<open>Threads\<close>).
\<close>

section \<open>Semaphores\<close>

definition unlink_all :: "addr list \<Rightarrow> kernel \<Rightarrow> kernel" where
  "unlink_all ts k = fold (\<lambda>t. upd_thread t (elem_update (\<lambda>_. Unlinked))) ts k"

text \<open>Threads that still wait on a semaphore that is initialized again are on no list afterwards.\<close>

definition sema_init :: "sema_ref \<Rightarrow> 32 word \<Rightarrow> kernel \<Rightarrow> kernel option" where
  "sema_init s v k = do {
     ASSERT (s \<noteq> Sema NULL);
     let k1 = (case semas k s of None \<Rightarrow> k | Some sem \<Rightarrow> unlink_all (sema_waiters sem) k);
     Some (k1\<lparr>semas := (semas k1)(s \<mapsto> \<lparr>sema_value = v, sema_waiters = []\<rparr>)\<rparr>) }"

definition set_sema :: "sema_ref \<Rightarrow> semaphore \<Rightarrow> kernel \<Rightarrow> kernel" where
  "set_sema s sem k = k\<lparr>semas := (semas k)(s \<mapsto> sem)\<rparr>"

definition sema_insert :: "sema_ref \<Rightarrow> addr \<Rightarrow> kernel \<Rightarrow> kernel option" where
  "sema_insert s t k = do {
     sem \<leftarrow> semas k s;
     th \<leftarrow> threads k t;
     ASSERT (elem th = Unlinked);
     Some (upd_thread t (elem_update (\<lambda>_. In_sema s))
       (set_sema s (sem\<lparr>sema_waiters := insort_by (thread_priority_large_func k) t (sema_waiters sem)\<rparr>) k)) }"

definition sema_down_loop :: "sema_ref \<Rightarrow> intr_level \<Rightarrow> kernel \<Rightarrow> kernel option" where
  "sema_down_loop s old_level k = do {
     sem \<leftarrow> semas k s;
     if sema_value sem = 0 then do {
       c \<leftarrow> thread_current k;
       k1 \<leftarrow> sema_insert s c k;
       thread_block (push_frame (Sema_down_rest s old_level) k1) }
     else restore_level old_level (set_sema s (sem\<lparr>sema_value := sema_value sem - 1\<rparr>) k) }"

definition sema_down :: "sema_ref \<Rightarrow> kernel \<Rightarrow> kernel option" where
  "sema_down s k = do {
     ASSERT (\<not> intr_context k);
     let (old_level, k1) = intr_disable k;
     sema_down_loop s old_level k1 }"

definition sema_try_down :: "sema_ref \<Rightarrow> kernel \<Rightarrow> (bool \<times> kernel) option" where
  "sema_try_down s k = do {
     let (old_level, k1) = intr_disable k;
     sem \<leftarrow> semas k1 s;
     let success = (sema_value sem > 0);
     k2 \<leftarrow> restore_level old_level
       (if success then set_sema s (sem\<lparr>sema_value := sema_value sem - 1\<rparr>) k1 else k1);
     Some (success, k2) }"

definition sema_wake :: "sema_ref \<Rightarrow> kernel \<Rightarrow> (bool \<times> kernel) option" where
  "sema_wake s k = do {
     sem \<leftarrow> semas k s;
     (case sema_waiters sem of
        [] \<Rightarrow> Some (False, k)
      | t # ts \<Rightarrow> do {
          let k1 = upd_thread t (elem_update (\<lambda>_. Unlinked)) (set_sema s (sem\<lparr>sema_waiters := ts\<rparr>) k);
          c \<leftarrow> thread_current k1;
          k2 \<leftarrow> thread_unblock t k1;
          Some (prio k1 t > prio k1 c, k2) }) }"

definition sema_up :: "sema_ref \<Rightarrow> kernel \<Rightarrow> kernel option" where
  "sema_up s k = do {
     let (old_level, k1) = intr_disable k;
     (yield_if_necessary, k2) \<leftarrow> sema_wake s k1;
     sem \<leftarrow> semas k2 s;
     k3 \<leftarrow> restore_level old_level (set_sema s (sem\<lparr>sema_value := sema_value sem + 1\<rparr>) k2);
     if yield_if_necessary \<and> \<not> intr_context k3 then thread_yield k3 else Some k3 }"

section \<open>Locks\<close>

definition lock_init :: "addr \<Rightarrow> kernel \<Rightarrow> kernel option" where
  "lock_init l k = do {
     ASSERT (l \<noteq> NULL);
     sema_init (Lock_sema l) 1 (k\<lparr>locks := (locks k)(l \<mapsto> NULL)\<rparr>) }"

definition lock_held_by_current_thread :: "addr \<Rightarrow> kernel \<Rightarrow> bool option" where
  "lock_held_by_current_thread l k = do {
     h \<leftarrow> locks k l;
     c \<leftarrow> thread_current k;
     Some (h = c) }"

text \<open>One donation: the holder \<open>h\<close> of \<open>l\<close> puts its priority and the lock it came from on its
  stack of at most 30 entries, takes the priority \<open>p\<close>, and moves to the run queue.\<close>

definition push_donation :: "addr \<Rightarrow> int \<Rightarrow> thread \<Rightarrow> thread" where
  "push_donation l p th =
     (let i = stored_index th in th\<lparr>
       stored_priority := (stored_priority th)[i := priority th],
       stored_lock_master := (stored_lock_master th)[i := priority_lock_master th],
       stored_index := i + 1, priority := p, priority_lock_master := l\<rparr>)"

text \<open>
  The code does not check the index before it stores into the two arrays of thirty entries. A store
  past their end has no defined meaning in C and is \<open>None\<close> here, so nothing that is proved of the
  model speaks about executions with a thirty-first donation.
\<close>

definition donate :: "addr \<Rightarrow> addr \<Rightarrow> int \<Rightarrow> kernel \<Rightarrow> kernel option" where
  "donate l h p k = do {
     th \<leftarrow> threads k h;
     ASSERT (stored_index th < 30);
     k1 \<leftarrow> elem_remove h (upd_thread h (push_donation l p) k);
     ready_insert h k1 }"

definition lock_acquire_loop :: "addr \<Rightarrow> intr_level \<Rightarrow> kernel \<Rightarrow> kernel option" where
  "lock_acquire_loop l old_level k = do {
     c \<leftarrow> thread_current k;
     sem \<leftarrow> semas k (Lock_sema l);
     h \<leftarrow> locks k l;
     if sema_value sem = 0 then do {
       hth \<leftarrow> threads k h;
       k1 \<leftarrow> (if priority hth < prio k c then donate l h (prio k c) k else Some k);
       k2 \<leftarrow> sema_insert (Lock_sema l) c k1;
       thread_block (push_frame (Lock_acquire_rest l old_level) k2) }
     else restore_level old_level
       ((set_sema (Lock_sema l) (sem\<lparr>sema_value := sema_value sem - 1\<rparr>) k)\<lparr>locks := (locks k)(l \<mapsto> c)\<rparr>) }"

definition lock_acquire :: "addr \<Rightarrow> kernel \<Rightarrow> kernel option" where
  "lock_acquire l k = do {
     ASSERT (\<not> intr_context k);
     held \<leftarrow> lock_held_by_current_thread l k;
     ASSERT (\<not> held);
     let (old_level, k1) = intr_disable k;
     lock_acquire_loop l old_level k1 }"

text \<open>Nothing keeps an interrupt out between the two halves of \<open>lock_try_acquire\<close>.\<close>

definition lock_try_acquire :: "addr \<Rightarrow> kernel \<Rightarrow> (bool \<times> kernel) option" where
  "lock_try_acquire l k = do {
     held \<leftarrow> lock_held_by_current_thread l k;
     ASSERT (\<not> held);
     (success, k1) \<leftarrow> sema_try_down (Lock_sema l) k;
     Some (success, if success then push_frame (Lock_try_rest l) k1 else k1) }"

definition lock_try_rest :: "addr \<Rightarrow> kernel \<Rightarrow> kernel option" where
  "lock_try_rest l k = do {
     c \<leftarrow> thread_current k;
     Some (k\<lparr>locks := (locks k)(l \<mapsto> c)\<rparr>) }"

text \<open>The two loops of \<open>lock_release\<close> over the first \<open>n\<close> entries of the donation arrays: the
  entries of the lock are marked with priority \<open>-1\<close> and counted, then the gaps are closed.\<close>

function mark_loop :: "addr \<Rightarrow> nat \<Rightarrow> nat \<Rightarrow> nat \<Rightarrow> int list \<Rightarrow> addr list \<Rightarrow> nat \<times> int list \<times> addr list" where
  "mark_loop l n i co ps ms =
     (if i < n then
        (if ms ! i = l then mark_loop l n (i + 1) (co + 1) (ps[i := - 1]) (ms[i := NULL])
         else mark_loop l n (i + 1) co ps ms)
      else (co, ps, ms))"
  by pat_completeness auto
termination by (relation "measure (\<lambda>(l, n, i, co, ps, ms). n - i)") auto

function fill_gap :: "nat \<Rightarrow> nat \<Rightarrow> nat \<Rightarrow> int list \<Rightarrow> addr list \<Rightarrow> int list \<times> addr list" where
  "fill_gap n i j ps ms =
     (if j < n then
        (if ps ! j = - 1 then fill_gap n i (j + 1) ps ms
         else (ps[i := ps ! j, j := - 1], ms[i := ms ! j, j := NULL]))
      else (ps, ms))"
  by pat_completeness auto
termination by (relation "measure (\<lambda>(n, i, j, ps, ms). n - j)") auto

function compact_loop :: "nat \<Rightarrow> nat \<Rightarrow> int list \<Rightarrow> addr list \<Rightarrow> int list \<times> addr list" where
  "compact_loop n i ps ms =
     (if i < n then
        (let (ps', ms') = (if ps ! i = - 1 then fill_gap n i (i + 1) ps ms else (ps, ms))
         in compact_loop n (i + 1) ps' ms')
      else (ps, ms))"
  by pat_completeness auto
termination by (relation "measure (\<lambda>(n, i, ps, ms). n - i)") auto

declare mark_loop.simps [simp del] fill_gap.simps [simp del] compact_loop.simps [simp del]

definition drop_donations :: "addr \<Rightarrow> thread \<Rightarrow> thread" where
  "drop_donations l th =
     (let n = stored_index th;
          (co, ps, ms) = mark_loop l n 0 0 (stored_priority th) (stored_lock_master th);
          (ps', ms') = (if co \<noteq> 0 then compact_loop n 0 ps ms else (ps, ms))
      in th\<lparr>stored_priority := ps', stored_lock_master := ms', stored_index := n - co\<rparr>)"

definition pop_donation :: "addr \<Rightarrow> thread \<Rightarrow> thread option" where
  "pop_donation l th =
     (if priority_lock_master th = l then do {
        ASSERT (stored_index th > 0);
        let i = stored_index th - 1;
        Some (th\<lparr>stored_index := i, priority := stored_priority th ! i,
                priority_lock_master := stored_lock_master th ! i\<rparr>) }
      else Some th)"

definition release_donations :: "addr \<Rightarrow> thread \<Rightarrow> thread option" where
  "release_donations l th =
     (if stored_index th \<noteq> 0 then pop_donation l (drop_donations l th) else Some th)"

definition lock_release :: "addr \<Rightarrow> kernel \<Rightarrow> kernel option" where
  "lock_release l k = do {
     held \<leftarrow> lock_held_by_current_thread l k;
     ASSERT held;
     let (old_level, k1) = intr_disable k;
     c \<leftarrow> thread_current k1;
     th \<leftarrow> threads k1 c;
     th' \<leftarrow> release_donations l th;
     sema_up (Lock_sema l) (push_frame (Lock_release_rest old_level)
       (k1\<lparr>threads := (threads k1)(c \<mapsto> th'), locks := (locks k1)(l \<mapsto> NULL)\<rparr>)) }"

section \<open>Condition variables\<close>

text \<open>A condition variable lists the threads whose local semaphore \<open>waiter\<close> is on its list.\<close>

definition cond_init :: "addr \<Rightarrow> kernel \<Rightarrow> kernel option" where
  "cond_init cv k = do { ASSERT (cv \<noteq> NULL); Some (k\<lparr>conds := (conds k)(cv \<mapsto> [])\<rparr>) }"

definition cond_wait :: "addr \<Rightarrow> addr \<Rightarrow> kernel \<Rightarrow> kernel option" where
  "cond_wait cv l k = do {
     ASSERT (\<not> intr_context k);
     held \<leftarrow> lock_held_by_current_thread l k;
     ASSERT held;
     c \<leftarrow> thread_current k;
     k1 \<leftarrow> sema_init (Waiter c) 0 k;
     ws \<leftarrow> conds k1 cv;
     lock_release l (push_frame (Cond_wait_sema l) (k1\<lparr>conds := (conds k1)(cv \<mapsto> c # ws)\<rparr>)) }"

definition cond_wait_sema :: "addr \<Rightarrow> kernel \<Rightarrow> kernel option" where
  "cond_wait_sema l k = sema_down (Waiter (running_thread k)) (push_frame (Cond_wait_lock l) k)"

text \<open>The comparison looks at the first thread that waits on each semaphore; \<open>list_front\<close> asserts
  that there is one. \<open>list_sort\<close> compares every element of a list of two or more.\<close>

definition first_waiter :: "kernel \<Rightarrow> addr \<Rightarrow> addr option" where
  "first_waiter k w = do {
     sem \<leftarrow> semas k (Waiter w);
     (case sema_waiters sem of [] \<Rightarrow> None | t # _ \<Rightarrow> Some t) }"

definition cond_thread_priority_large_func :: "kernel \<Rightarrow> addr \<Rightarrow> addr \<Rightarrow> bool" where
  "cond_thread_priority_large_func k a b \<longleftrightarrow>
     (case (first_waiter k a, first_waiter k b) of
        (Some ta, Some tb) \<Rightarrow> prio k ta > prio k tb
      | _ \<Rightarrow> False)"

definition cond_sort :: "kernel \<Rightarrow> addr list \<Rightarrow> addr list option" where
  "cond_sort k ws = do {
     ASSERT (length ws \<le> 1 \<or> (\<forall>w \<in> set ws. first_waiter k w \<noteq> None));
     Some (fold (insort_by (cond_thread_priority_large_func k)) ws []) }"

definition cond_signal :: "addr \<Rightarrow> addr \<Rightarrow> kernel \<Rightarrow> kernel option" where
  "cond_signal cv l k = do {
     ASSERT (\<not> intr_context k);
     held \<leftarrow> lock_held_by_current_thread l k;
     ASSERT held;
     ws \<leftarrow> conds k cv;
     if ws = [] then Some k
     else do {
       ws' \<leftarrow> cond_sort k ws;
       sema_up (Waiter (hd ws')) (k\<lparr>conds := (conds k)(cv \<mapsto> tl ws')\<rparr>) } }"

definition cond_broadcast :: "addr \<Rightarrow> addr \<Rightarrow> kernel \<Rightarrow> kernel option" where
  "cond_broadcast cv l k = do {
     ws \<leftarrow> conds k cv;
     if ws = [] then Some k else cond_signal cv l (push_frame (Cond_broadcast_rest cv l) k) }"

section \<open>Thread identifiers and new threads\<close>

definition alloc_tid :: "tid_user \<Rightarrow> kernel \<Rightarrow> kernel option" where
  "alloc_tid u k =
     lock_release (tid_lock k)
       (push_frame (Alloc_tid_done u (next_tid k)) (k\<lparr>next_tid := wrap_s32 (next_tid k + 1)\<rparr>))"

definition allocate_tid :: "tid_user \<Rightarrow> kernel \<Rightarrow> kernel option" where
  "allocate_tid u k = lock_acquire (tid_lock k) (push_frame (Alloc_tid u) k)"

definition thread_init :: "(addr \<Rightarrow> addr \<Rightarrow> bool) \<Rightarrow> kernel \<Rightarrow> kernel option" where
  "thread_init all_less k = do {
     ASSERT (intr_get_level k = INTR_OFF);
     k0 \<leftarrow> lock_init (tid_lock k) k;
     let k1 = k0\<lparr>ready_list := [], all_list := [], load_avg := INT_TO_FP 0,
       initial_thread := running_thread k0\<rparr>;
     let t = initial_thread k1;
     k2 \<leftarrow> init_thread all_less t ''main'' PRI_DEFAULT k1;
     allocate_tid For_init (set_status t THREAD_RUNNING k2) }"

definition thread_create ::
  "(addr \<Rightarrow> addr \<Rightarrow> bool) \<Rightarrow> addr \<Rightarrow> string \<Rightarrow> int \<Rightarrow> thread_func \<Rightarrow> addr \<Rightarrow> kernel \<Rightarrow> kernel option" where
  "thread_create all_less page nm pri func aux k = do {
     ASSERT (func \<noteq> F_NULL);
     let t = page;
     if t = NULL then Some k
     else do {
       k1 \<leftarrow> init_thread all_less t nm pri k;
       allocate_tid (For_create t func aux) k1 } }"

text \<open>The frames written into the new thread's page are the outermost ones of its stack.\<close>

definition thread_create_rest :: "addr \<Rightarrow> thread_func \<Rightarrow> addr \<Rightarrow> kernel \<Rightarrow> kernel option" where
  "thread_create_rest t func aux k = do {
     k1 \<leftarrow> alloc_frame t 12 k;
     k2 \<leftarrow> alloc_frame t 4 k1;
     k3 \<leftarrow> alloc_frame t 28 k2;
     k4 \<leftarrow> thread_unblock t (k3\<lparr>frames := (frames k3)(t := frames k3 t @ [Kernel_thread func aux])\<rparr>);
     c \<leftarrow> thread_current k4;
     if prio k4 c < prio k4 t then thread_yield k4 else Some k4 }"

definition alloc_tid_done :: "tid_user \<Rightarrow> int \<Rightarrow> kernel \<Rightarrow> kernel option" where
  "alloc_tid_done u n k =
     (case u of
        For_init \<Rightarrow> Some (upd_thread (initial_thread k) (tid_update (\<lambda>_. n)) k)
      | For_create t func aux \<Rightarrow> thread_create_rest t func aux (upd_thread t (tid_update (\<lambda>_. n)) k))"

definition kernel_thread :: "thread_func \<Rightarrow> addr \<Rightarrow> kernel \<Rightarrow> kernel option" where
  "kernel_thread func aux k = do {
     ASSERT (func \<noteq> F_NULL);
     (_, k1) \<leftarrow> intr_enable k;
     Some (push_frame (if func = F_idle then Idle_start aux else Body) k1) }"

definition idle :: "addr \<Rightarrow> kernel \<Rightarrow> kernel option" where
  "idle idle_started k = do {
     t \<leftarrow> thread_current k;
     sema_up (Sema idle_started) (push_frame Idle_loop (k\<lparr>idle_thread := t\<rparr>)) }"

definition idle_loop :: "kernel \<Rightarrow> kernel option" where
  "idle_loop k = thread_block (push_frame Idle_wake (snd (intr_disable k)))"

definition idle_wake :: "kernel \<Rightarrow> kernel option" where
  "idle_wake k = Some (push_frame Idle_loop (k\<lparr>level := INTR_ON\<rparr>))"

definition thread_start ::
  "(addr \<Rightarrow> addr \<Rightarrow> bool) \<Rightarrow> addr \<Rightarrow> addr \<Rightarrow> kernel \<Rightarrow> kernel option" where
  "thread_start all_less page idle_started k = do {
     k1 \<leftarrow> sema_init (Sema idle_started) 0 k;
     thread_create all_less page ''idle'' PRI_MIN F_idle idle_started
       (push_frame (Thread_start_rest idle_started) k1) }"

definition thread_start_rest :: "addr \<Rightarrow> kernel \<Rightarrow> kernel option" where
  "thread_start_rest idle_started k = do {
     (_, k1) \<leftarrow> intr_enable k;
     sema_down (Sema idle_started) k1 }"

end
