(* ===== verification/Timer.thy ===== *)
theory Timer
  imports Synch
begin

text \<open>
  The timer of \<open>devices/timer.c\<close> with its alarm list, and the entry point \<open>intr_handler\<close> of
  \<open>threads/interrupt.c\<close> through which its interrupt reaches the scheduler. Tick counts are
  mathematical integers where the code has \<open>int64_t\<close>; sums that could leave that range wrap,
  except the tick counter itself, which would need 2^63 ticks to do so.
\<close>

unbundle bit_operations_syntax

definition TIMER_FREQ :: int where "TIMER_FREQ = 100"

section \<open>Sleeping\<close>

definition wake_time :: "kernel \<Rightarrow> addr \<Rightarrow> int" where
  "wake_time k t = (case threads k t of None \<Rightarrow> 0 | Some th \<Rightarrow> wake_up_time th)"

definition alarm_less_func :: "kernel \<Rightarrow> addr \<Rightarrow> addr \<Rightarrow> bool" where
  "alarm_less_func k a b \<longleftrightarrow> wake_time k a < wake_time k b"

definition timer_init :: "kernel \<Rightarrow> kernel" where
  "timer_init k = k\<lparr>alarm_list := []\<rparr>"

definition timer_ticks :: "kernel \<Rightarrow> int" where
  "timer_ticks k = ticks k"

definition timer_elapsed :: "int \<Rightarrow> kernel \<Rightarrow> int" where
  "timer_elapsed since k = wrap_s64 (timer_ticks k - since)"

definition timer_sleep :: "int \<Rightarrow> kernel \<Rightarrow> kernel option" where
  "timer_sleep n k =
     (if n \<le> 0 then Some k
      else do {
        let start = timer_ticks k;
        ASSERT (intr_get_level k = INTR_ON);
        let (old_level, k1) = intr_disable k;
        c \<leftarrow> thread_current k1;
        ASSERT (c \<notin> set (alarm_list k1));
        let k2 = upd_thread c (wake_up_time_update (\<lambda>_. wrap_s64 (n + start))) k1;
        let k3 = k2\<lparr>alarm_list := insort_by (alarm_less_func k2) c (alarm_list k2)\<rparr>;
        thread_block (push_frame (Sleep_rest old_level) k3) })"

text \<open>The loop counts that \<open>real_time_delay\<close> passes to \<open>busy_wait\<close>, which only passes time.\<close>

definition delay_loops :: "int \<Rightarrow> int \<Rightarrow> int \<Rightarrow> int option" where
  "delay_loops loops_per_tick num denom = do {
     ASSERT (c_mod denom 1000 = 0);
     ASSERT (c_div denom 1000 \<noteq> 0);
     Some (c_div (wrap_s64 (c_div (wrap_s64 (loops_per_tick * num)) 1000 * TIMER_FREQ)) (c_div denom 1000)) }"

fun busy_wait :: "nat \<Rightarrow> unit" where
  "busy_wait 0 = ()"
| "busy_wait (Suc n) = busy_wait n"

definition real_time_delay :: "int \<Rightarrow> int \<Rightarrow> int \<Rightarrow> unit option" where
  "real_time_delay loops_per_tick num denom = do {
     loops \<leftarrow> delay_loops loops_per_tick num denom;
     Some (busy_wait (nat loops)) }"

definition real_time_sleep :: "int \<Rightarrow> int \<Rightarrow> int \<Rightarrow> kernel \<Rightarrow> kernel option" where
  "real_time_sleep loops_per_tick num denom k = do {
     let n = c_div (wrap_s64 (num * TIMER_FREQ)) denom;
     ASSERT (intr_get_level k = INTR_ON);
     if n > 0 then timer_sleep n k
     else do { real_time_delay loops_per_tick num denom; Some k } }"

definition timer_msleep :: "int \<Rightarrow> int \<Rightarrow> kernel \<Rightarrow> kernel option" where
  "timer_msleep loops_per_tick ms k = real_time_sleep loops_per_tick ms 1000 k"

definition timer_usleep :: "int \<Rightarrow> int \<Rightarrow> kernel \<Rightarrow> kernel option" where
  "timer_usleep loops_per_tick us k = real_time_sleep loops_per_tick us (1000 * 1000) k"

definition timer_nsleep :: "int \<Rightarrow> int \<Rightarrow> kernel \<Rightarrow> kernel option" where
  "timer_nsleep loops_per_tick ns k = real_time_sleep loops_per_tick ns (1000 * 1000 * 1000) k"

definition timer_mdelay :: "int \<Rightarrow> int \<Rightarrow> unit option" where
  "timer_mdelay loops_per_tick ms = real_time_delay loops_per_tick ms 1000"

definition timer_udelay :: "int \<Rightarrow> int \<Rightarrow> unit option" where
  "timer_udelay loops_per_tick us = real_time_delay loops_per_tick us (1000 * 1000)"

definition timer_ndelay :: "int \<Rightarrow> int \<Rightarrow> unit option" where
  "timer_ndelay loops_per_tick ns = real_time_delay loops_per_tick ns (1000 * 1000 * 1000)"

section \<open>Calibration\<close>

text \<open>Whether a number of loops takes longer than a tick depends on the machine:
  \<open>too_many_loops\<close> is a parameter.\<close>

partial_function (option) double_loop :: "(nat \<Rightarrow> bool) \<Rightarrow> nat \<Rightarrow> nat option" where
  "double_loop too_many_loops n =
     (let n' = (n * 2) mod 4294967296 in
      if too_many_loops n' then Some n
      else do { ASSERT (n' \<noteq> 0); double_loop too_many_loops n' })"

function refine_loop :: "(nat \<Rightarrow> bool) \<Rightarrow> nat \<Rightarrow> nat \<Rightarrow> nat \<Rightarrow> nat" where
  "refine_loop too_many_loops high_bit test_bit n =
     (if test_bit = high_bit div 1024 \<or> test_bit = 0 then n
      else refine_loop too_many_loops high_bit (test_bit div 2)
        (if too_many_loops (n OR test_bit) then n else n OR test_bit))"
  by pat_completeness auto
termination by (relation "measure (\<lambda>(f, h, t, n). t)") auto

declare refine_loop.simps [simp del]

definition timer_calibrate :: "(nat \<Rightarrow> bool) \<Rightarrow> kernel \<Rightarrow> nat option" where
  "timer_calibrate too_many_loops k = do {
     ASSERT (level k = INTR_ON);
     high_bit \<leftarrow> double_loop too_many_loops 1024;
     Some (refine_loop too_many_loops high_bit (high_bit div 2) high_bit) }"

section \<open>The timer interrupt\<close>

fun wake_loop :: "addr list \<Rightarrow> kernel \<Rightarrow> kernel option" where
  "wake_loop [] k = Some k"
| "wake_loop (t # ts) k = do {
     th \<leftarrow> threads k t;
     if wake_up_time th > ticks k then Some k
     else do {
       k1 \<leftarrow> thread_unblock t k;
       wake_loop ts (k1\<lparr>alarm_list := ts\<rparr>) } }"

definition mlfqs_tick :: "kernel \<Rightarrow> kernel option" where
  "mlfqs_tick k = do {
     k1 \<leftarrow> thread_ins_recent_cpu k;
     k2 \<leftarrow> (if c_mod (ticks k1) TIMER_FREQ = 0 then do {
              k' \<leftarrow> update_load_avg k1;
              thread_update_recent_cpu_all k' }
            else Some k1);
     if c_mod (ticks k2) 4 = 0 then do {
       c \<leftarrow> thread_current k2;
       thread_update_priority_with_nice c k2 }
     else Some k2 }"

definition timer_interrupt :: "kernel \<Rightarrow> kernel option" where
  "timer_interrupt k = do {
     k1 \<leftarrow> thread_tick (k\<lparr>ticks := ticks k + 1\<rparr>);
     k2 \<leftarrow> wake_loop (alarm_list k1) k1;
     if thread_mlfqs k2 then mlfqs_tick k2 else Some k2 }"

section \<open>Interrupt dispatch\<close>

type_synonym handlers = "nat \<rightharpoonup> (kernel \<Rightarrow> kernel option)"

definition intr_handler :: "handlers \<Rightarrow> nat \<Rightarrow> kernel \<Rightarrow> kernel option" where
  "intr_handler intr_handlers vec_no k = do {
     let external = (0x20 \<le> vec_no \<and> vec_no < 0x30);
     k1 \<leftarrow> (if external then do {
              ASSERT (intr_get_level k = INTR_OFF);
              ASSERT (\<not> intr_context k);
              Some (k\<lparr>in_external_intr := True, yield_on_return := False\<rparr>) }
            else Some k);
     k2 \<leftarrow> (case intr_handlers vec_no of Some handler \<Rightarrow> handler k1 | None \<Rightarrow> Some k1);
     if external then do {
       ASSERT (intr_get_level k2 = INTR_OFF);
       ASSERT (intr_context k2);
       let k3 = k2\<lparr>in_external_intr := False\<rparr>;
       if yield_on_return k3 then thread_yield k3 else Some k3 }
     else Some k2 }"

text \<open>The processor enters the handler through an interrupt gate: it does so only while interrupts
  are on, turns them off, and the return instruction turns them on again.\<close>

definition timer_irq :: "kernel \<Rightarrow> kernel option" where
  "timer_irq k = do {
     ASSERT (level k = INTR_ON);
     intr_handler [0x20 \<mapsto> timer_interrupt] 0x20 ((push_frame Intr_return k)\<lparr>level := INTR_OFF\<rparr>) }"

definition intr_return :: "kernel \<Rightarrow> kernel option" where
  "intr_return k = Some (k\<lparr>level := INTR_ON\<rparr>)"

end
