(* ===== verification/Kernel_Steps.thy ===== *)
theory Kernel_Steps
  imports Timer
begin

text \<open>
  The kernel as a transition system. A step is one of:

  \<^item> the function of the running thread calls a kernel operation (\<open>op\<close>, run by \<open>exec\<close>);
  \<^item> the function of the running thread returns, and \<open>kernel_thread\<close> ends the thread;
  \<^item> an operation that was interrupted by a thread switch, or that called one, goes on
    (\<open>resume\<close> of the topmost frame of the running thread);
  \<^item> the timer interrupts, which it can whenever interrupts are on.

  Between two such points the scheduler, the semaphores, the locks and the alarm list are worked on
  with interrupts off, so there an interrupt can only come before or after. Some code runs with
  interrupts on and is one step all the same: \<open>thread_set_nice\<close>, the comparison of priorities at the
  end of \<open>thread_create\<close>, the reading of the clock at the start of \<open>timer_sleep\<close>, and the work of
  \<open>cond_wait\<close> and \<open>cond_signal\<close> on the list of waiters, which the lock of the condition variable
  protects. Interleavings that place an interrupt inside these are not among the steps; those
  inside \<open>lock_try_acquire\<close>, \<open>cond_wait\<close> between release and wait, and \<open>cond_broadcast\<close> between two
  signals are. A step that panics does not exist.

  \<open>permitted\<close> is what the kernel's interface asks of its callers and does not check: a new thread
  gets a page that is not in use, only a thread that is not asleep on the alarm list is
  unblocked by hand, a lock is initialized once, and priorities lie between \<open>PRI_MIN\<close> and
  \<open>PRI_MAX\<close>.
\<close>

datatype op =
    Op_thread_create "addr \<Rightarrow> addr \<Rightarrow> bool" addr string int nat addr
  | Op_thread_start "addr \<Rightarrow> addr \<Rightarrow> bool" addr addr
  | Op_thread_exit
  | Op_thread_yield
  | Op_thread_block
  | Op_thread_unblock addr
  | Op_thread_set_priority int
  | Op_thread_set_nice int
  | Op_sema_init addr "32 word"
  | Op_sema_down addr
  | Op_sema_try_down addr
  | Op_sema_up addr
  | Op_lock_init addr
  | Op_lock_acquire addr
  | Op_lock_try_acquire addr
  | Op_lock_release addr
  | Op_cond_init addr
  | Op_cond_wait addr addr
  | Op_cond_signal addr addr
  | Op_cond_broadcast addr addr
  | Op_timer_sleep int
  | Op_intr_disable
  | Op_intr_enable

fun exec :: "op \<Rightarrow> kernel \<Rightarrow> kernel option" where
  "exec (Op_thread_create all_less page nm pri f aux) k = thread_create all_less page nm pri (F_other f) aux k"
| "exec (Op_thread_start all_less page s) k = thread_start all_less page s k"
| "exec Op_thread_exit k = thread_exit k"
| "exec Op_thread_yield k = thread_yield k"
| "exec Op_thread_block k = thread_block k"
| "exec (Op_thread_unblock t) k = thread_unblock t k"
| "exec (Op_thread_set_priority p) k = thread_set_priority p k"
| "exec (Op_thread_set_nice n) k = thread_set_nice n k"
| "exec (Op_sema_init s v) k = sema_init (Sema s) v k"
| "exec (Op_sema_down s) k = sema_down (Sema s) k"
| "exec (Op_sema_try_down s) k = map_option snd (sema_try_down (Sema s) k)"
| "exec (Op_sema_up s) k = sema_up (Sema s) k"
| "exec (Op_lock_init l) k = lock_init l k"
| "exec (Op_lock_acquire l) k = lock_acquire l k"
| "exec (Op_lock_try_acquire l) k = map_option snd (lock_try_acquire l k)"
| "exec (Op_lock_release l) k = lock_release l k"
| "exec (Op_cond_init cv) k = cond_init cv k"
| "exec (Op_cond_wait cv l) k = cond_wait cv l k"
| "exec (Op_cond_signal cv l) k = cond_signal cv l k"
| "exec (Op_cond_broadcast cv l) k = cond_broadcast cv l k"
| "exec (Op_timer_sleep n) k = timer_sleep n k"
| "exec Op_intr_disable k = Some (snd (intr_disable k))"
| "exec Op_intr_enable k = map_option snd (intr_enable k)"

fun resume :: "frame \<Rightarrow> kernel \<Rightarrow> kernel option" where
  "resume Body k = thread_exit k"
| "resume (Alloc_tid u) k = alloc_tid u k"
| "resume (Alloc_tid_done u n) k = alloc_tid_done u n k"
| "resume (Kernel_thread f aux) k = kernel_thread f aux k"
| "resume (Thread_start_rest s) k = thread_start_rest s k"
| "resume (Idle_start s) k = idle s k"
| "resume Idle_loop k = idle_loop k"
| "resume Idle_wake k = idle_wake k"
| "resume (Yield_rest old) k = yield_rest old k"
| "resume (Sema_down_rest s old) k = sema_down_loop s old k"
| "resume (Lock_acquire_rest l old) k = lock_acquire_loop l old k"
| "resume (Lock_release_rest old) k = restore_level old k"
| "resume (Lock_try_rest l) k = lock_try_rest l k"
| "resume (Cond_wait_sema l) k = cond_wait_sema l k"
| "resume (Cond_wait_lock l) k = lock_acquire l k"
| "resume (Cond_broadcast_rest cv l) k = cond_broadcast cv l k"
| "resume (Sleep_rest old) k = restore_level old k"
| "resume Intr_return k = intr_return k"

fun permitted :: "op \<Rightarrow> kernel \<Rightarrow> bool" where
  "permitted (Op_thread_create _ page _ _ _ _) k \<longleftrightarrow> threads k page = None"
| "permitted (Op_thread_start _ page _) k \<longleftrightarrow> threads k page = None"
| "permitted (Op_thread_unblock t) k \<longleftrightarrow> t \<notin> set (alarm_list k)"
| "permitted (Op_thread_set_priority p) k \<longleftrightarrow> PRI_MIN \<le> p \<and> p \<le> PRI_MAX"
| "permitted (Op_lock_init l) k \<longleftrightarrow> locks k l = None"
| "permitted _ k \<longleftrightarrow> True"

inductive step :: "kernel \<Rightarrow> kernel \<Rightarrow> bool" where
  call: "frames k (cur k) = Body # fs \<Longrightarrow> permitted op k \<Longrightarrow> exec op k = Some k' \<Longrightarrow> step k k'"
| go_on: "frames k (cur k) = f # fs \<Longrightarrow> resume f (pop_frame k) = Some k' \<Longrightarrow> step k k'"
| tick: "timer_irq k = Some k' \<Longrightarrow> step k k'"

text \<open>The state in which the boot code calls \<open>thread_init\<close>: interrupts are off, nothing is set up,
  and the code that runs becomes the thread whose page is \<open>page\<close>.\<close>

definition boot :: "addr \<Rightarrow> addr \<Rightarrow> bool \<Rightarrow> kernel" where
  "boot page tlock mlfqs =
     \<lparr>threads = Map.empty, ready_list = [], all_list = [], idle_thread = NULL, initial_thread = NULL,
      cur = page, frames = (\<lambda>_. [])(page := [Body]), level = INTR_OFF, in_external_intr = False,
      yield_on_return = False, thread_mlfqs = mlfqs, load_avg = 0, idle_ticks = 0, kernel_ticks = 0,
      thread_ticks = 0, tid_lock = tlock, next_tid = 1, semas = Map.empty, locks = Map.empty,
      conds = Map.empty, ticks = 0, alarm_list = []\<rparr>"

inductive reachable :: "kernel \<Rightarrow> bool" where
  init: "thread_init all_less (boot page tlock mlfqs) = Some k \<Longrightarrow> reachable k"
| step: "reachable k \<Longrightarrow> step k k' \<Longrightarrow> reachable k'"

end
