(* ===== verification/Donation.thy ===== *)
theory Donation
  imports Synch
begin

text \<open>
  The donation stack of a thread. \<open>threads/synch.c\<close> keeps it in two arrays of thirty entries, with
  the top in \<open>priority\<close> and \<open>priority_lock_master\<close>; \<open>lock_release\<close> removes the entries of a lock
  by marking them with priority \<open>-1\<close> and closing the gaps in place. \<open>dstack\<close> is the stack they
  stand for, and the operations are shown to be a push and a filter on it.
\<close>

type_synonym donation = "int \<times> addr"

definition dstack :: "thread \<Rightarrow> donation list" where
  "dstack th = (priority th, priority_lock_master th) #
     rev (take (stored_index th) (zip (stored_priority th) (stored_lock_master th)))"

definition don_ok :: "thread \<Rightarrow> bool" where
  "don_ok th \<longleftrightarrow> length (stored_priority th) = 30 \<and> length (stored_lock_master th) = 30
     \<and> stored_index th \<le> 30 \<and> (priority_lock_master th = NULL \<longleftrightarrow> stored_index th = 0)
     \<and> (\<forall>i < stored_index th. stored_lock_master th ! i = NULL \<longleftrightarrow> i = 0)
     \<and> PRI_MIN \<le> priority th \<and> priority th \<le> PRI_MAX
     \<and> (\<forall>i < stored_index th. PRI_MIN \<le> stored_priority th ! i \<and> stored_priority th ! i \<le> PRI_MAX)"

section \<open>Marking\<close>

lemma mark_loop_eq:
  assumes "length ps = length ms" "n \<le> length ms" "i \<le> n"
  shows "\<exists>ps' ms'. mark_loop l n i co ps ms = (co + length (filter (\<lambda>j. ms ! j = l) [i..<n]), ps', ms')
     \<and> length ps' = length ps \<and> length ms' = length ms
     \<and> (\<forall>j < length ms. zip ps' ms' ! j = (if i \<le> j \<and> j < n \<and> ms ! j = l then (- 1, NULL) else zip ps ms ! j))"
  using assms
proof (induction l n i co ps ms rule: mark_loop.induct)
  case (1 l n i co ps ms)
  show ?case
  proof (cases "i < n")
    case False
    then show ?thesis using 1(3-) by (subst mark_loop.simps) auto
  next
    case True
    then have up: "[i..<n] = i # [Suc i..<n]" by (rule upt_conv_Cons)
    show ?thesis
    proof (cases "ms ! i = l")
      case True
      have f: "filter (\<lambda>j. ms[i := NULL] ! j = l) [Suc i..<n] = filter (\<lambda>j. ms ! j = l) [Suc i..<n]"
        by (rule filter_cong) auto
      obtain ps' ms' where r: "mark_loop l n (i + 1) (co + 1) (ps[i := - 1]) (ms[i := NULL]) =
            (co + 1 + length (filter (\<lambda>j. ms[i := NULL] ! j = l) [i + 1..<n]), ps', ms')"
          "length ps' = length ps" "length ms' = length ms"
          "\<forall>j < length ms. zip ps' ms' ! j = (if i + 1 \<le> j \<and> j < n \<and> ms[i := NULL] ! j = l then (- 1, NULL)
            else zip (ps[i := - 1]) (ms[i := NULL]) ! j)"
        using 1(1) [OF \<open>i < n\<close> True] 1(3-) \<open>i < n\<close> by auto
      have "zip ps' ms' ! j = (if i \<le> j \<and> j < n \<and> ms ! j = l then (- 1, NULL) else zip ps ms ! j)" if "j < length ms" for j
        using r(4) that True 1(3,4) \<open>i < n\<close> by (cases "j = i") auto
      then show ?thesis using r(1-3) \<open>i < n\<close> True up f by (subst mark_loop.simps) simp
    next
      case False
      obtain ps' ms' where r: "mark_loop l n (i + 1) co ps ms = (co + length (filter (\<lambda>j. ms ! j = l) [i + 1..<n]), ps', ms')"
          "length ps' = length ps" "length ms' = length ms"
          "\<forall>j < length ms. zip ps' ms' ! j = (if i + 1 \<le> j \<and> j < n \<and> ms ! j = l then (- 1, NULL) else zip ps ms ! j)"
        using 1(2) [OF \<open>i < n\<close> False] 1(3-) \<open>i < n\<close> by auto
      have "zip ps' ms' ! j = (if i \<le> j \<and> j < n \<and> ms ! j = l then (- 1, NULL) else zip ps ms ! j)" if "j < length ms" for j
        using r(4) that False 1(3,4) by (cases "j = i") auto
      then show ?thesis using r(1-3) \<open>i < n\<close> False up by (subst mark_loop.simps) simp
    qed
  qed
qed

section \<open>Closing the gaps\<close>

definition gap :: "donation \<Rightarrow> bool" where
  "gap d \<longleftrightarrow> fst d = - 1"

lemma fill_gap_eq:
  assumes "length ps = length ms" "n \<le> length ms" "i < j" "j \<le> n"
    and "\<forall>m. i \<le> m \<and> m < j \<longrightarrow> gap (zip ps ms ! m)" and "fill_gap n i j ps ms = (ps', ms')"
  shows "length ps' = length ps \<and> length ms' = length ms \<and>
    (zip ps' ms' = zip ps ms \<and> (\<forall>m. i \<le> m \<and> m < n \<longrightarrow> gap (zip ps ms ! m)) \<or>
     (\<exists>m. j \<le> m \<and> m < n \<and> \<not> gap (zip ps ms ! m) \<and> (\<forall>q. i \<le> q \<and> q < m \<longrightarrow> gap (zip ps ms ! q)) \<and>
       zip ps' ms' = (zip ps ms)[i := zip ps ms ! m, m := (- 1, NULL)]))"
  using assms
proof (induction n i j ps ms rule: fill_gap.induct)
  case (1 n i j ps ms)
  show ?case
  proof (cases "j < n")
    case False
    then have "ps' = ps" "ms' = ms" using 1(7) by (subst (asm) fill_gap.simps; simp)+
    then show ?thesis using False 1(5,6) by auto
  next
    case True
    show ?thesis
    proof (cases "ps ! j = - 1")
      case True
      have "\<forall>m. i \<le> m \<and> m < j + 1 \<longrightarrow> gap (zip ps ms ! m)"
        using 1(2,3,6) True \<open>j < n\<close> by (auto simp: gap_def less_Suc_eq)
      moreover have "fill_gap n i (j + 1) ps ms = (ps', ms')" using 1(7) True \<open>j < n\<close> by (subst (asm) fill_gap.simps) simp
      ultimately show ?thesis using 1(1) [OF \<open>j < n\<close> True] 1(2-5) \<open>j < n\<close> by (auto dest: Suc_leD)
    next
      case False
      have "ps' = ps[i := ps ! j, j := - 1]" "ms' = ms[i := ms ! j, j := NULL]"
        using 1(7) False \<open>j < n\<close> by (subst (asm) fill_gap.simps; simp)+
      then show ?thesis using False \<open>j < n\<close> 1(2-6)
        by (auto simp: zip_update gap_def intro!: exI [of _ j])
    qed
  qed
qed

text \<open>Moving an entry over gaps does not change the sequence of entries.\<close>

lemma filter_move:
  assumes "i < m" "m < length xs" "\<forall>q. i \<le> q \<and> q < m \<longrightarrow> \<not> P (xs ! q)" "\<not> P y"
  shows "filter P (xs[i := xs ! m, m := y]) = filter P xs"
proof -
  define a b c where "a = take i xs" "b = drop (Suc i) (take m xs)" "c = drop (Suc m) xs"
  have "xs = take m xs @ xs ! m # c" unfolding a_b_c_def by (rule id_take_nth_drop [OF assms(2)])
  moreover have "take m xs = a @ xs ! i # b" unfolding a_b_c_def
    using id_take_nth_drop [of i "take m xs"] assms(1,2) by simp
  ultimately have xs: "xs = a @ xs ! i # b @ xs ! m # c" by simp
  have "\<forall>y \<in> set b. \<not> P y" unfolding a_b_c_def using assms(1-3) by (auto simp: in_set_conv_nth)
  then have b: "filter P b = []" by simp
  have l: "length a = i" "length b = m - Suc i" unfolding a_b_c_def using assms(1,2) by simp_all
  have "xs[i := xs ! m, m := y] = (a @ xs ! i # b @ xs ! m # c)[i := xs ! m, m := y]" using xs by simp
  also have "\<dots> = a @ xs ! m # b @ y # c"
  proof -
    obtain d where "m = i + Suc d" using assms(1) less_natE by auto
    then show ?thesis using l by (simp add: list_update_append)
  qed
  finally have "filter P (xs[i := xs ! m, m := y]) = filter P a @ filter P [xs ! m] @ filter P c" using b assms(4) by simp
  moreover have "filter P xs = filter P a @ filter P [xs ! m] @ filter P c"
    by (subst xs) (use b assms(1,3) in simp)
  ultimately show ?thesis by simp
qed


definition closed :: "nat \<Rightarrow> nat \<Rightarrow> donation list \<Rightarrow> bool" where
  "closed n i xs \<longleftrightarrow> (\<exists>a \<le> i. (\<forall>j < a. \<not> gap (xs ! j)) \<and> (\<forall>j. a \<le> j \<and> j < i \<longrightarrow> gap (xs ! j))
     \<and> (a < i \<longrightarrow> (\<forall>j. a \<le> j \<and> j < n \<longrightarrow> gap (xs ! j))))"

lemma closed_take:
  assumes "closed n n xs" "n \<le> length xs"
  shows "filter (\<lambda>d. \<not> gap d) (take n xs) = take (length (filter (\<lambda>d. \<not> gap d) (take n xs))) xs"
proof -
  obtain a where a: "a \<le> n" "\<forall>j < a. \<not> gap (xs ! j)" "\<forall>j. a \<le> j \<and> j < n \<longrightarrow> gap (xs ! j)"
    using assms(1) by (auto simp: closed_def)
  have "take n xs = take a xs @ drop a (take n xs)" using a(1) by (metis append_take_drop_id min.absorb1 take_take)
  moreover have "filter (\<lambda>d. \<not> gap d) (take a xs) = take a xs"
    using a(1,2) assms(2) by (simp add: filter_id_conv all_set_conv_all_nth)
  moreover have "filter (\<lambda>d. \<not> gap d) (drop a (take n xs)) = []"
    using a(3) assms(2) by (simp add: filter_empty_conv all_set_conv_all_nth)
  ultimately have "filter (\<lambda>d. \<not> gap d) (take n xs) = take a xs" by (metis append.right_neutral filter_append)
  then show ?thesis using a(1) assms(2) by simp
qed

lemma closed_gap:
  assumes "closed n i xs" "i < n" "\<forall>m. i \<le> m \<and> m < n \<longrightarrow> gap (xs ! m)"
  shows "closed n (i + 1) xs"
proof -
  obtain a where a: "a \<le> i" "\<forall>j < a. \<not> gap (xs ! j)" "\<forall>j. a \<le> j \<and> j < i \<longrightarrow> gap (xs ! j)"
    using assms(1) by (auto simp: closed_def)
  then have "\<forall>j. a \<le> j \<and> j < n \<longrightarrow> gap (xs ! j)" using assms(3) by (metis not_le)
  then show ?thesis unfolding closed_def using a(1,2) assms(2) by (intro exI [of _ a]) auto
qed

lemma closed_entry:
  assumes "closed n i xs" "\<not> gap (xs ! m)" "i \<le> m" "m < n" "n \<le> length xs"
  shows "closed n (i + 1) (xs[i := xs ! m, m := y]) \<or> m = i" and "closed n (i + 1) xs \<or> m \<noteq> i"
proof -
  obtain a where a: "a \<le> i" "\<forall>j < a. \<not> gap (xs ! j)" "a < i \<longrightarrow> (\<forall>j. a \<le> j \<and> j < n \<longrightarrow> gap (xs ! j))"
    using assms(1) by (auto simp: closed_def)
  then have "a = i" using assms(2-4) by (metis le_neq_implies_less order_trans)
  then have e: "\<forall>j < i. \<not> gap (xs ! j)" using a(2) by simp
  show "closed n (i + 1) xs \<or> m \<noteq> i" using e assms(2) unfolding closed_def by (auto simp: less_Suc_eq intro!: exI [of _ "Suc i"])
  have "\<not> gap (xs[i := xs ! m, m := y] ! j)" if "j < i + 1" "m \<noteq> i" for j
    using that e assms(2-5) by (auto simp: nth_list_update less_Suc_eq)
  then show "closed n (i + 1) (xs[i := xs ! m, m := y]) \<or> m = i"
    unfolding closed_def by (intro disjCI exI [of _ "i + 1"]) auto
qed

lemma compact_loop_eq:
  assumes "length ps = length ms" "n \<le> length ms" "i \<le> n" "closed n i (zip ps ms)" "compact_loop n i ps ms = (ps', ms')"
  shows "length ps' = length ps \<and> length ms' = length ms \<and> closed n n (zip ps' ms') \<and>
    filter (\<lambda>d. \<not> gap d) (take n (zip ps' ms')) = filter (\<lambda>d. \<not> gap d) (take n (zip ps ms))"
  using assms
proof (induction n i ps ms rule: compact_loop.induct)
  case (1 n i ps ms)
  show ?case
  proof (cases "i < n")
    case False
    then show ?thesis using 1(2-) by (subst (asm) compact_loop.simps) auto
  next
    case True
    let ?X = "zip ps ms"
    obtain ps1 ms1 where s: "(if ps ! i = - 1 then fill_gap n i (i + 1) ps ms else (ps, ms)) = (ps1, ms1)" by fastforce
    then have r: "compact_loop n (i + 1) ps1 ms1 = (ps', ms')" using 1(6) True by (subst (asm) compact_loop.simps) simp
    have "length ps1 = length ps \<and> length ms1 = length ms \<and> closed n (i + 1) (zip ps1 ms1) \<and>
      filter (\<lambda>d. \<not> gap d) (take n (zip ps1 ms1)) = filter (\<lambda>d. \<not> gap d) (take n ?X)"
    proof (cases "ps ! i = - 1")
      case False
      then have "\<not> gap (?X ! i)" using 1(2,3) True by (simp add: gap_def)
      then show ?thesis using closed_entry(2) [OF 1(5), of i] True s False 1(2,3) by auto
    next
      case gi: True
      have g: "\<forall>m. i \<le> m \<and> m < i + 1 \<longrightarrow> gap (?X ! m)" using gi 1(2,3) True by (auto simp: gap_def le_less_Suc_eq)
      have f: "fill_gap n i (i + 1) ps ms = (ps1, ms1)" using s gi by simp
      note F = fill_gap_eq [OF 1(2,3) _ _ g f]
      consider "zip ps1 ms1 = ?X" "\<forall>m. i \<le> m \<and> m < n \<longrightarrow> gap (?X ! m)"
        | m where "i + 1 \<le> m" "m < n" "\<not> gap (?X ! m)" "\<forall>q. i \<le> q \<and> q < m \<longrightarrow> gap (?X ! q)"
          "zip ps1 ms1 = ?X[i := ?X ! m, m := (- 1, NULL)]"
        using F True by auto
      then show ?thesis
      proof cases
        case 1
        then show ?thesis using F closed_gap [OF \<open>closed n i ?X\<close>] True by auto
      next
        case (2 m)
        have "take n (zip ps1 ms1) = (take n ?X)[i := take n ?X ! m, m := (- 1, NULL)]"
          using 2(1,2) by (simp add: 2(5) take_update_swap)
        then have "filter (\<lambda>d. \<not> gap d) (take n (zip ps1 ms1)) = filter (\<lambda>d. \<not> gap d) (take n ?X)"
          using filter_move [of i m "take n ?X" "\<lambda>d. \<not> gap d" "(- 1, NULL)"] 2 \<open>length ps = length ms\<close> \<open>n \<le> length ms\<close>
          by (simp add: gap_def)
        then show ?thesis using F True closed_entry(1) [OF \<open>closed n i ?X\<close> 2(3), of "(- 1, NULL)"] 2(1,2,5)
            \<open>length ps = length ms\<close> \<open>n \<le> length ms\<close> by auto
      qed
    qed
    then show ?thesis using 1(1) [OF True refl, of ps1 ms1] 1(2,3) True r s by auto
  qed
qed

section \<open>Dropping the entries of a lock\<close>

lemma count_filter: "length (filter (\<lambda>j. ms ! j = l) [0..<n]) = length (filter (\<lambda>m. m = l) (take n ms))" if "n \<le> length ms"
proof -
  have "take n ms = map (\<lambda>j. ms ! j) [0..<n]" by (rule nth_equalityI) (use that in simp_all)
  then show ?thesis by (simp add: filter_map comp_def)
qed

lemma filter_full: "length (filter P xs) = length xs \<Longrightarrow> filter P xs = xs"
  by (metis filter_id_conv length_filter_less less_irrefl)

lemma drop_donations_stack:
  assumes "don_ok th" and "l \<noteq> NULL"
  defines "xs \<equiv> take (stored_index th) (zip (stored_priority th) (stored_lock_master th))"
    and "th' \<equiv> drop_donations l th"
  shows "take (stored_index th') (zip (stored_priority th') (stored_lock_master th')) = filter (\<lambda>(p, m). m \<noteq> l) xs"
    and "length (stored_priority th') = 30" "length (stored_lock_master th') = 30"
    and "stored_index th' = length (filter (\<lambda>(p, m). m \<noteq> l) xs)"
    and "priority th' = priority th" "priority_lock_master th' = priority_lock_master th"
proof -
  let ?n = "stored_index th" and ?ps = "stored_priority th" and ?ms = "stored_lock_master th"
  have d: "length ?ps = 30" "length ?ms = 30" "?n \<le> 30" "\<forall>i < ?n. 0 \<le> ?ps ! i" using assms(1) by (auto simp: don_ok_def PRI_MIN_def)
  obtain ps ms where mk: "mark_loop l ?n 0 0 ?ps ?ms = (length (filter (\<lambda>j. ?ms ! j = l) [0..<?n]), ps, ms)"
      "length ps = 30" "length ms = 30"
      "\<forall>j < 30. zip ps ms ! j = (if j < ?n \<and> ?ms ! j = l then (- 1, NULL) else zip ?ps ?ms ! j)"
    using mark_loop_eq [of ?ps ?ms ?n 0 l 0] d by auto
  define co where "co = length (filter (\<lambda>j. ?ms ! j = l) [0..<?n])"
  have marked: "take ?n (zip ps ms) = map (\<lambda>(p, m). if m = l then (- 1, NULL) else (p, m)) xs"
    unfolding xs_def using mk d by (intro nth_equalityI) auto
  have "filter (\<lambda>d. \<not> gap d) (map (\<lambda>(p, m). if m = l then (- 1, NULL) else (p, m)) xs) = filter (\<lambda>(p, m). m \<noteq> l) xs"
  proof -
    have "\<forall>(p, m) \<in> set xs. 0 \<le> p" unfolding xs_def using d by (auto simp: in_set_conv_nth)
    then show ?thesis by (induction xs) (auto simp: gap_def)
  qed
  then have fm: "filter (\<lambda>d. \<not> gap d) (take ?n (zip ps ms)) = filter (\<lambda>(p, m). m \<noteq> l) xs" by (simp add: marked)
  have len: "length (filter (\<lambda>(p, m). m \<noteq> l) xs) = ?n - co"
  proof -
    have "map snd xs = take ?n ?ms" unfolding xs_def using d by (simp add: take_map [symmetric])
    then have "co = length (filter (\<lambda>(p, m). m = l) xs)"
      unfolding co_def using count_filter [of ?n ?ms l] d by (simp add: filter_map comp_def case_prod_unfold flip: \<open>map snd xs = take ?n ?ms\<close>)
    moreover have "length xs = ?n" unfolding xs_def using d by simp
    moreover have "length (filter (\<lambda>(p, m). m = l) xs) + length (filter (\<lambda>(p, m). m \<noteq> l) xs) = length xs"
      using sum_length_filter_compl [of "\<lambda>(p, m). m = l" xs] by (simp add: case_prod_unfold)
    ultimately show ?thesis by linarith
  qed
  obtain ps' ms' where c: "(if co \<noteq> 0 then compact_loop ?n 0 ps ms else (ps, ms)) = (ps', ms')" by fastforce
  have th': "th' = th\<lparr>stored_priority := ps', stored_lock_master := ms', stored_index := ?n - co\<rparr>"
    unfolding th'_def drop_donations_def Let_def mk(1) co_def [symmetric] using c by simp
  have "length ps' = 30 \<and> length ms' = 30 \<and> take (?n - co) (zip ps' ms') = filter (\<lambda>(p, m). m \<noteq> l) xs"
  proof (cases "co = 0")
    case True
    then have "filter (\<lambda>d. \<not> gap d) (take ?n (zip ps ms)) = take ?n (zip ps ms)"
      using fm len d mk(2,3) by (intro filter_full) simp
    then show ?thesis using True c fm mk by simp
  next
    case False
    then have cl: "compact_loop ?n 0 ps ms = (ps', ms')" using c by simp
    have "closed ?n 0 (zip ps ms)" by (simp add: closed_def)
    from compact_loop_eq [OF _ _ _ this cl] mk(2,3) d(3)
    have e: "length ps' = 30" "length ms' = 30" "closed ?n ?n (zip ps' ms')"
      "filter (\<lambda>d. \<not> gap d) (take ?n (zip ps' ms')) = filter (\<lambda>d. \<not> gap d) (take ?n (zip ps ms))" by simp_all
    have "filter (\<lambda>d. \<not> gap d) (take ?n (zip ps' ms')) = take (?n - co) (zip ps' ms')"
      using closed_take [OF e(3)] e fm len d(3) by simp
    then show ?thesis using e fm by simp
  qed
  then show "take (stored_index th') (zip (stored_priority th') (stored_lock_master th')) = filter (\<lambda>(p, m). m \<noteq> l) xs"
    "length (stored_priority th') = 30" "length (stored_lock_master th') = 30"
    "stored_index th' = length (filter (\<lambda>(p, m). m \<noteq> l) xs)"
    "priority th' = priority th" "priority_lock_master th' = priority_lock_master th"
    using len by (simp_all add: th')
qed


text \<open>The base entry of the stack has no lock, and it is the only one.\<close>

lemma dstack_base:
  assumes "don_ok th"
  obtains ds p where "dstack th = ds @ [(p, NULL)]" "\<forall>(q, m) \<in> set ds. m \<noteq> NULL"
proof (cases "stored_index th")
  case 0
  then have "dstack th = [] @ [(priority th, NULL)]" using assms by (simp add: dstack_def don_ok_def)
  then show thesis using that by fastforce
next
  case (Suc n)
  let ?X = "take (stored_index th) (zip (stored_priority th) (stored_lock_master th))"
  have l: "length ?X = Suc n" using assms Suc by (simp add: don_ok_def)
  then obtain x xs where x: "?X = x # xs" by (cases ?X) auto
  have n: "snd (?X ! i) = NULL \<longleftrightarrow> i = 0" if "i < Suc n" for i using that assms Suc by (simp add: don_ok_def)
  from n [of 0] have "snd x = NULL" by (simp add: x)
  moreover have "\<forall>d \<in> set xs. snd d \<noteq> NULL"
  proof -
    have "snd (xs ! i) \<noteq> NULL" if "i < length xs" for i using n [of "Suc i"] that l x by simp
    then show ?thesis by (simp add: all_set_conv_all_nth)
  qed
  moreover have "priority_lock_master th \<noteq> NULL" using assms Suc by (simp add: don_ok_def)
  moreover have "dstack th = ((priority th, priority_lock_master th) # rev xs) @ [x]" by (simp add: dstack_def x)
  ultimately show thesis using that [of "(priority th, priority_lock_master th) # rev xs" "fst x"] by (cases x) (auto simp: case_prod_unfold)
qed

lemma don_okI:
  assumes "length (stored_priority th) = 30" "length (stored_lock_master th) = 30" "stored_index th \<le> 30"
    and "dstack th = ds @ [(p, NULL)]" "\<forall>(q, m) \<in> set ds. m \<noteq> NULL"
    and "\<forall>(q, m) \<in> set (dstack th). PRI_MIN \<le> q \<and> q \<le> PRI_MAX"
  shows "don_ok th"
proof -
  define X where "X = take (stored_index th) (zip (stored_priority th) (stored_lock_master th))"
  have l: "length X = stored_index th" using assms(1-3) by (simp add: X_def)
  have x: "X ! i = (stored_priority th ! i, stored_lock_master th ! i)" if "i < stored_index th" for i
    using that assms(1-3) by (simp add: X_def)
  have d: "dstack th = (priority th, priority_lock_master th) # rev X" by (simp add: dstack_def X_def)
  have pr: "PRI_MIN \<le> stored_priority th ! i \<and> stored_priority th ! i \<le> PRI_MAX" if "i < stored_index th" for i
  proof -
    have "X ! i \<in> set (dstack th)" unfolding d using nth_mem [of i X] that l by simp
    then show ?thesis using assms(6) x [OF that] by auto
  qed
  have "(priority_lock_master th = NULL \<longleftrightarrow> stored_index th = 0) \<and>
    (\<forall>i < stored_index th. stored_lock_master th ! i = NULL \<longleftrightarrow> i = 0)"
  proof (cases X)
    case Nil
    then have "priority_lock_master th = NULL" using assms(4) unfolding d by (cases ds) auto
    moreover have "stored_index th = 0" using l Nil by simp
    ultimately show ?thesis by simp
  next
    case (Cons y ys)
    have "((priority th, priority_lock_master th) # rev ys) @ [y] = ds @ [(p, NULL)]" using assms(4) unfolding d Cons by simp
    then have y: "y = (p, NULL)" "ds = (priority th, priority_lock_master th) # rev ys"
      unfolding append1_eq_conv by (rule conjunct2, rule sym [OF conjunct1])
    have "stored_index th \<noteq> 0" using l Cons by auto
    moreover have "stored_lock_master th ! i = NULL \<longleftrightarrow> i = 0" if i: "i < stored_index th" for i
    proof (cases i)
      case 0
      then show ?thesis using x [OF i] unfolding Cons y by simp
    next
      case (Suc j)
      then have "ys ! j \<in> set ds" unfolding y using i l Cons nth_mem [of j ys] by simp
      moreover have "ys ! j = (stored_priority th ! i, stored_lock_master th ! i)" using x [OF i] unfolding Cons Suc by simp
      ultimately show ?thesis using assms(5) Suc by auto
    qed
    ultimately show ?thesis using assms(5) unfolding y by auto
  qed
  moreover have "PRI_MIN \<le> priority th \<and> priority th \<le> PRI_MAX" using assms(6) unfolding d by simp
  ultimately show ?thesis unfolding don_ok_def using assms(1-3) pr by simp
qed

text \<open>\<open>lock_release\<close> takes the donations that came with the lock off the stack.\<close>

lemma release_donations_stack:
  assumes "don_ok th" and "l \<noteq> NULL"
  obtains th' where "release_donations l th = Some th'" "dstack th' = filter (\<lambda>(p, m). m \<noteq> l) (dstack th)"
    "th' = th\<lparr>stored_priority := stored_priority th', stored_lock_master := stored_lock_master th',
       stored_index := stored_index th', priority := priority th', priority_lock_master := priority_lock_master th'\<rparr>"
    "length (stored_priority th') = 30" "length (stored_lock_master th') = 30" "stored_index th' \<le> 30"
proof (cases "stored_index th = 0")
  case True
  then have "release_donations l th = Some th" "dstack th = [(priority th, NULL)]"
    using assms(1) by (simp_all add: release_donations_def dstack_def don_ok_def)
  then show thesis using that [of th] assms by (simp add: don_ok_def)
next
  case False
  define t1 where "t1 = drop_donations l th"
  let ?xs = "take (stored_index th) (zip (stored_priority th) (stored_lock_master th))"
  let ?F = "filter (\<lambda>(p, m). m \<noteq> l)"
  note D = drop_donations_stack [OF assms, folded t1_def]
  have n1: "stored_index t1 \<le> 30" using D(4) assms(1) length_filter_le [of "\<lambda>(p, m). m \<noteq> l" ?xs] by (simp add: don_ok_def)
  have eq: "t1 = th\<lparr>stored_priority := stored_priority t1, stored_lock_master := stored_lock_master t1,
       stored_index := stored_index t1\<rparr>" unfolding t1_def drop_donations_def Let_def by (simp split: prod.splits)
  show thesis
  proof (cases "priority_lock_master th = l")
    case True
    have "?F ?xs \<noteq> []"
    proof -
      have "?xs ! 0 \<in> set ?xs" using False assms(1) by (intro nth_mem) (simp add: don_ok_def)
      moreover have "snd (?xs ! 0) \<noteq> l" using False assms by (auto simp: don_ok_def)
      ultimately show ?thesis by (force simp: filter_empty_conv)
    qed
    then have i: "stored_index t1 > 0" using D(4) by simp
    define j where "j = stored_index t1 - 1"
    define t2 where "t2 = t1\<lparr>stored_index := j, priority := stored_priority t1 ! j, priority_lock_master := stored_lock_master t1 ! j\<rparr>"
    have rel: "release_donations l th = Some t2"
      using False i True D(6) by (simp add: release_donations_def pop_donation_def t1_def [symmetric] t2_def j_def Let_def)
    have j: "stored_index t1 = Suc j" using i by (simp add: j_def)
    have "?F ?xs = take j (zip (stored_priority t1) (stored_lock_master t1)) @ [(stored_priority t1 ! j, stored_lock_master t1 ! j)]"
      using D(1-3) j n1 by (simp add: take_Suc_conv_app_nth flip: D(1))
    then have "dstack t2 = ?F (dstack th)" using True by (simp add: dstack_def t2_def rev_filter [symmetric])
    moreover have "t2 = th\<lparr>stored_priority := stored_priority t2, stored_lock_master := stored_lock_master t2,
       stored_index := stored_index t2, priority := priority t2, priority_lock_master := priority_lock_master t2\<rparr>"
      unfolding t2_def by (subst eq) simp
    ultimately show thesis using that [OF rel] D(2,3) n1 j by (simp add: t2_def)
  next
    case m: False
    have rel: "release_donations l th = Some t1"
      using False m D(6) by (simp add: release_donations_def pop_donation_def t1_def [symmetric])
    have "dstack t1 = ?F (dstack th)" using m D by (simp add: dstack_def rev_filter [symmetric])
    moreover have "t1 = th\<lparr>stored_priority := stored_priority t1, stored_lock_master := stored_lock_master t1,
       stored_index := stored_index t1, priority := priority t1, priority_lock_master := priority_lock_master t1\<rparr>"
      using eq D(5,6) by (cases th; cases t1) simp
    ultimately show thesis using that [OF rel] D(2,3) n1 by simp
  qed
qed


lemma release_donations_ok:
  assumes "don_ok th" "l \<noteq> NULL" "release_donations l th = Some th'"
  shows "don_ok th'" "dstack th' = filter (\<lambda>(p, m). m \<noteq> l) (dstack th)"
    "elem th' = elem th" "status th' = status th" "wake_up_time th' = wake_up_time th" "magic th' = magic th"
proof -
  obtain t1 where r: "release_donations l th = Some t1" "dstack t1 = filter (\<lambda>(p, m). m \<noteq> l) (dstack th)"
    "t1 = th\<lparr>stored_priority := stored_priority t1, stored_lock_master := stored_lock_master t1,
       stored_index := stored_index t1, priority := priority t1, priority_lock_master := priority_lock_master t1\<rparr>"
    "length (stored_priority t1) = 30" "length (stored_lock_master t1) = 30" "stored_index t1 \<le> 30"
    by (rule release_donations_stack [OF assms(1,2)])
  have t: "t1 = th'" using r(1) assms(3) by simp
  obtain ds p where b: "dstack th = ds @ [(p, NULL)]" "\<forall>(q, m) \<in> set ds. m \<noteq> NULL" by (rule dstack_base [OF assms(1)])
  have range: "\<forall>(q, m) \<in> set (dstack th). PRI_MIN \<le> q \<and> q \<le> PRI_MAX"
    using assms(1) by (auto simp: dstack_def don_ok_def in_set_conv_nth)
  have b': "dstack t1 = filter (\<lambda>(p, m). m \<noteq> l) ds @ [(p, NULL)]" using r(2) b(1) assms(2) by simp
  have "don_ok t1"
    by (rule don_okI [OF r(4-6) b']) (use b(2) range r(2) in auto)
  then show "don_ok th'" "dstack th' = filter (\<lambda>(p, m). m \<noteq> l) (dstack th)" using r(2) t by simp_all
  show "elem th' = elem th" "status th' = status th" "wake_up_time th' = wake_up_time th" "magic th' = magic th"
    unfolding t [symmetric] by (subst r(3), simp)+
qed

text \<open>A donation pushes an entry.\<close>

lemma push_donation_stack:
  assumes "don_ok th" "stored_index th < 30"
  shows "dstack (push_donation l p th) = (p, l) # dstack th"
  using assms by (simp add: dstack_def push_donation_def Let_def don_ok_def take_Suc_conv_app_nth zip_update)

lemma push_donation_ok:
  assumes "don_ok th" "stored_index th < 30" "l \<noteq> NULL" "PRI_MIN \<le> p" "p \<le> PRI_MAX"
  shows "don_ok (push_donation l p th)"
  using assms by (auto simp: push_donation_def Let_def don_ok_def nth_list_update less_Suc_eq)

lemma push_donation_simps [simp]:
  "elem (push_donation l p th) = elem th" "status (push_donation l p th) = status th"
  "wake_up_time (push_donation l p th) = wake_up_time th" "magic (push_donation l p th) = magic th"
  "priority (push_donation l p th) = p"
  by (simp_all add: push_donation_def Let_def)

end
