(* ===== verification/Kernel_Inv.thy ===== *)
theory Kernel_Inv
  imports Kernel_Steps Donation
begin

text \<open>
  The invariants of the kernel as a transition system (\<open>Kernel_Steps\<close>), in three groups:

  \<^item> \<open>core\<close> and \<open>status_ok\<close>: the run queue and the wait queues hold exactly the threads whose
    \<open>elem\<close> says so, each once; the run queue is in priority order, and so are the wait queues
    unless the feedback scheduler recomputes priorities behind their back; the donation stack of
    every thread is well formed; sleeping threads are blocked and in order of their wake-up
    times; exactly the current thread is running;
  \<^item> \<open>stacks_ok\<close>: which frames can lie on top of which;
  \<^item> \<open>lock_ok\<close>: every lock has exactly one owner or is free, as its semaphore says.
\<close>

section \<open>Projections of the state\<close>

definition elem_of :: "kernel \<Rightarrow> addr \<Rightarrow> elem_at option" where
  "elem_of k t = map_option elem (threads k t)"

definition waiting :: "kernel \<Rightarrow> sema_ref \<Rightarrow> addr list" where
  "waiting k s = (case semas k s of None \<Rightarrow> [] | Some sem \<Rightarrow> sema_waiters sem)"

interpretation prio_order: addr_order "thread_priority_large_func k" for k
  by unfold_locales (auto simp: thread_priority_large_func_def)

interpretation alarm_order: addr_order "alarm_less_func k" for k
  by unfold_locales (auto simp: alarm_less_func_def)

lemma threads_upd_thread [simp]:
  "threads (upd_thread t f k) = (threads k)(t := map_option f (threads k t))"
  by (simp add: upd_thread_def)

lemma upd_thread_simps [simp]:
  "ready_list (upd_thread t f k) = ready_list k" "all_list (upd_thread t f k) = all_list k"
  "idle_thread (upd_thread t f k) = idle_thread k" "initial_thread (upd_thread t f k) = initial_thread k"
  "cur (upd_thread t f k) = cur k" "frames (upd_thread t f k) = frames k" "level (upd_thread t f k) = level k"
  "in_external_intr (upd_thread t f k) = in_external_intr k" "thread_mlfqs (upd_thread t f k) = thread_mlfqs k"
  "semas (upd_thread t f k) = semas k" "locks (upd_thread t f k) = locks k" "alarm_list (upd_thread t f k) = alarm_list k"
  "ticks (upd_thread t f k) = ticks k" "load_avg (upd_thread t f k) = load_avg k" "tid_lock (upd_thread t f k) = tid_lock k"
  "conds (upd_thread t f k) = conds k" "next_tid (upd_thread t f k) = next_tid k"
  by (simp_all add: upd_thread_def)

lemma push_frame_simps [simp]:
  "threads (push_frame f k) = threads k" "ready_list (push_frame f k) = ready_list k"
  "all_list (push_frame f k) = all_list k" "idle_thread (push_frame f k) = idle_thread k"
  "initial_thread (push_frame f k) = initial_thread k" "cur (push_frame f k) = cur k"
  "frames (push_frame f k) = (frames k)(cur k := f # frames k (cur k))" "level (push_frame f k) = level k"
  "in_external_intr (push_frame f k) = in_external_intr k" "thread_mlfqs (push_frame f k) = thread_mlfqs k"
  "semas (push_frame f k) = semas k" "locks (push_frame f k) = locks k" "alarm_list (push_frame f k) = alarm_list k"
  "ticks (push_frame f k) = ticks k" "tid_lock (push_frame f k) = tid_lock k" "conds (push_frame f k) = conds k"
  "next_tid (push_frame f k) = next_tid k"
  by (simp_all add: push_frame_def)

lemma set_sema_simps [simp]:
  "threads (set_sema s x k) = threads k" "ready_list (set_sema s x k) = ready_list k"
  "all_list (set_sema s x k) = all_list k" "idle_thread (set_sema s x k) = idle_thread k"
  "initial_thread (set_sema s x k) = initial_thread k" "cur (set_sema s x k) = cur k"
  "frames (set_sema s x k) = frames k" "level (set_sema s x k) = level k"
  "in_external_intr (set_sema s x k) = in_external_intr k" "thread_mlfqs (set_sema s x k) = thread_mlfqs k"
  "semas (set_sema s x k) = (semas k)(s \<mapsto> x)" "locks (set_sema s x k) = locks k"
  "alarm_list (set_sema s x k) = alarm_list k" "conds (set_sema s x k) = conds k" "tid_lock (set_sema s x k) = tid_lock k"
  by (simp_all add: set_sema_def)

lemma elem_of_cong: "threads k' = threads k \<Longrightarrow> elem_of k' = elem_of k"
  by (simp add: elem_of_def fun_eq_iff)

lemma prio_cong: "threads k' = threads k \<Longrightarrow> prio k' = prio k"
  by (simp add: prio_def fun_eq_iff)

lemma wake_time_cong: "threads k' = threads k \<Longrightarrow> wake_time k' = wake_time k"
  by (simp add: wake_time_def fun_eq_iff)

lemma elem_of_upd_elem [simp]:
  "elem_of (upd_thread t (elem_update (\<lambda>_. e)) k) =
     (if threads k t = None then elem_of k else (elem_of k)(t \<mapsto> e))"
  by (auto simp: elem_of_def fun_eq_iff)

lemma elem_of_upd [simp]: "(\<And>th. elem (f th) = elem th) \<Longrightarrow> elem_of (upd_thread t f k) = elem_of k"
  by (auto simp: elem_of_def fun_eq_iff map_option_case split: option.splits)

lemma prio_upd [simp]: "(\<And>th. priority (f th) = priority th) \<Longrightarrow> prio (upd_thread t f k) = prio k"
  by (auto simp: prio_def fun_eq_iff split: option.splits)

lemma wake_time_upd [simp]:
  "(\<And>th. wake_up_time (f th) = wake_up_time th) \<Longrightarrow> wake_time (upd_thread t f k) = wake_time k"
  by (auto simp: wake_time_def fun_eq_iff split: option.splits)

lemma waiting_upd [simp]: "waiting (upd_thread t f k) = waiting k"
  by (simp add: waiting_def fun_eq_iff)

lemma waiting_set_sema [simp]: "waiting (set_sema s x k) = (waiting k)(s := sema_waiters x)"
  by (simp add: waiting_def fun_eq_iff)

lemma waiting_cong: "semas k' = semas k \<Longrightarrow> waiting k' = waiting k"
  by (simp add: waiting_def fun_eq_iff)

text \<open>None of the projections depends on the other fields.\<close>

lemma prio_other [simp]:
  "prio (k\<lparr>ready_list := v1\<rparr>) = prio k" "prio (k\<lparr>all_list := v1\<rparr>) = prio k"
  "prio (k\<lparr>alarm_list := v1\<rparr>) = prio k" "prio (k\<lparr>level := v2\<rparr>) = prio k"
  "prio (k\<lparr>cur := v3\<rparr>) = prio k" "prio (k\<lparr>locks := v4\<rparr>) = prio k"
  "prio (k\<lparr>conds := v5\<rparr>) = prio k" "prio (k\<lparr>frames := v6\<rparr>) = prio k"
  "prio (k\<lparr>in_external_intr := v7\<rparr>) = prio k" "prio (k\<lparr>yield_on_return := v7\<rparr>) = prio k"
  "prio (k\<lparr>thread_ticks := v8\<rparr>) = prio k" "prio (k\<lparr>ticks := v9\<rparr>) = prio k"
  "prio (k\<lparr>load_avg := v9\<rparr>) = prio k" "prio (k\<lparr>idle_thread := v3\<rparr>) = prio k"
  "prio (k\<lparr>next_tid := v9\<rparr>) = prio k" "prio (k\<lparr>idle_ticks := v9\<rparr>) = prio k"
  "prio (k\<lparr>kernel_ticks := v9\<rparr>) = prio k" "prio (push_frame f k) = prio k"
  "prio (set_sema s x k) = prio k"
  by (simp_all add: prio_def fun_eq_iff)

lemma wake_time_other [simp]:
  "wake_time (k\<lparr>ready_list := v1\<rparr>) = wake_time k" "wake_time (k\<lparr>all_list := v1\<rparr>) = wake_time k"
  "wake_time (k\<lparr>alarm_list := v1\<rparr>) = wake_time k" "wake_time (k\<lparr>level := v2\<rparr>) = wake_time k"
  "wake_time (k\<lparr>cur := v3\<rparr>) = wake_time k" "wake_time (k\<lparr>locks := v4\<rparr>) = wake_time k"
  "wake_time (k\<lparr>conds := v5\<rparr>) = wake_time k" "wake_time (k\<lparr>frames := v6\<rparr>) = wake_time k"
  "wake_time (k\<lparr>in_external_intr := v7\<rparr>) = wake_time k" "wake_time (k\<lparr>yield_on_return := v7\<rparr>) = wake_time k"
  "wake_time (k\<lparr>thread_ticks := v8\<rparr>) = wake_time k" "wake_time (k\<lparr>ticks := v9\<rparr>) = wake_time k"
  "wake_time (k\<lparr>load_avg := v9\<rparr>) = wake_time k" "wake_time (k\<lparr>idle_thread := v3\<rparr>) = wake_time k"
  "wake_time (k\<lparr>next_tid := v9\<rparr>) = wake_time k" "wake_time (k\<lparr>idle_ticks := v9\<rparr>) = wake_time k"
  "wake_time (k\<lparr>kernel_ticks := v9\<rparr>) = wake_time k" "wake_time (push_frame f k) = wake_time k"
  "wake_time (set_sema s x k) = wake_time k"
  by (simp_all add: wake_time_def fun_eq_iff)

lemma elem_of_other [simp]:
  "elem_of (k\<lparr>ready_list := v1\<rparr>) = elem_of k" "elem_of (k\<lparr>all_list := v1\<rparr>) = elem_of k"
  "elem_of (k\<lparr>alarm_list := v1\<rparr>) = elem_of k" "elem_of (k\<lparr>level := v2\<rparr>) = elem_of k"
  "elem_of (k\<lparr>cur := v3\<rparr>) = elem_of k" "elem_of (k\<lparr>locks := v4\<rparr>) = elem_of k"
  "elem_of (k\<lparr>conds := v5\<rparr>) = elem_of k" "elem_of (k\<lparr>frames := v6\<rparr>) = elem_of k"
  "elem_of (k\<lparr>in_external_intr := v7\<rparr>) = elem_of k" "elem_of (k\<lparr>yield_on_return := v7\<rparr>) = elem_of k"
  "elem_of (k\<lparr>thread_ticks := v8\<rparr>) = elem_of k" "elem_of (k\<lparr>ticks := v9\<rparr>) = elem_of k"
  "elem_of (k\<lparr>load_avg := v9\<rparr>) = elem_of k" "elem_of (k\<lparr>idle_thread := v3\<rparr>) = elem_of k"
  "elem_of (k\<lparr>next_tid := v9\<rparr>) = elem_of k" "elem_of (k\<lparr>idle_ticks := v9\<rparr>) = elem_of k"
  "elem_of (k\<lparr>kernel_ticks := v9\<rparr>) = elem_of k" "elem_of (push_frame f k) = elem_of k"
  "elem_of (set_sema s x k) = elem_of k"
  by (simp_all add: elem_of_def fun_eq_iff)

lemma waiting_other [simp]:
  "waiting (k\<lparr>ready_list := v1\<rparr>) = waiting k" "waiting (k\<lparr>all_list := v1\<rparr>) = waiting k"
  "waiting (k\<lparr>alarm_list := v1\<rparr>) = waiting k" "waiting (k\<lparr>level := v2\<rparr>) = waiting k"
  "waiting (k\<lparr>cur := v3\<rparr>) = waiting k" "waiting (k\<lparr>locks := v4\<rparr>) = waiting k"
  "waiting (k\<lparr>conds := v5\<rparr>) = waiting k" "waiting (k\<lparr>frames := v6\<rparr>) = waiting k"
  "waiting (k\<lparr>in_external_intr := v7\<rparr>) = waiting k" "waiting (k\<lparr>yield_on_return := v7\<rparr>) = waiting k"
  "waiting (k\<lparr>thread_ticks := v8\<rparr>) = waiting k" "waiting (k\<lparr>ticks := v9\<rparr>) = waiting k"
  "waiting (k\<lparr>load_avg := v9\<rparr>) = waiting k" "waiting (k\<lparr>idle_thread := v3\<rparr>) = waiting k"
  "waiting (k\<lparr>next_tid := v9\<rparr>) = waiting k" "waiting (k\<lparr>idle_ticks := v9\<rparr>) = waiting k"
  "waiting (k\<lparr>kernel_ticks := v9\<rparr>) = waiting k" "waiting (push_frame f k) = waiting k"
  by (simp_all add: waiting_def fun_eq_iff)

text \<open>Priority order depends on the priorities of the members only.\<close>

lemma ord_prio_cong:
  "(\<And>t. t \<in> set xs \<Longrightarrow> prio k' t = prio k t) \<Longrightarrow>
   ord_by (thread_priority_large_func k') xs = ord_by (thread_priority_large_func k) xs"
  by (intro iffI; erule sorted_wrt_mono_rel [rotated]) (simp_all add: thread_priority_large_func_def)

lemma ord_alarm_cong:
  "(\<And>t. t \<in> set xs \<Longrightarrow> wake_time k' t = wake_time k t) \<Longrightarrow>
   ord_by (alarm_less_func k') xs = ord_by (alarm_less_func k) xs"
  by (intro iffI; erule sorted_wrt_mono_rel [rotated]) (simp_all add: alarm_less_func_def)

lemma ord_by_remove1: "ord_by lessf xs \<Longrightarrow> ord_by lessf (remove1 t xs)"
  by (induction xs) (auto dest: notin_set_remove1 in_set_remove1 [THEN iffD1, rotated] set_remove1_subset [THEN subsetD])

section \<open>The invariants\<close>

definition elems_ok :: "kernel \<Rightarrow> bool" where
  "elems_ok k \<longleftrightarrow> distinct (ready_list k) \<and> (\<forall>t. t \<in> set (ready_list k) \<longleftrightarrow> elem_of k t = Some In_ready)
     \<and> (\<forall>s. distinct (waiting k s)) \<and> (\<forall>s t. t \<in> set (waiting k s) \<longleftrightarrow> elem_of k t = Some (In_sema s))"

definition order_ok :: "kernel \<Rightarrow> bool" where
  "order_ok k \<longleftrightarrow> ord_by (thread_priority_large_func k) (ready_list k)
     \<and> (thread_mlfqs k \<or> (\<forall>s. ord_by (thread_priority_large_func k) (waiting k s)))"

definition threads_ok :: "kernel \<Rightarrow> bool" where
  "threads_ok k \<longleftrightarrow> (\<forall>t th. threads k t = Some th \<longrightarrow> t \<noteq> NULL \<and> magic th = THREAD_MAGIC \<and> don_ok th)"

definition alarm_ok :: "kernel \<Rightarrow> bool" where
  "alarm_ok k \<longleftrightarrow> distinct (alarm_list k) \<and> ord_by (alarm_less_func k) (alarm_list k) \<and> distinct (all_list k)"

definition core :: "kernel \<Rightarrow> bool" where
  "core k \<longleftrightarrow> elems_ok k \<and> order_ok k \<and> threads_ok k \<and> alarm_ok k"

text \<open>\<open>status_ok X r k\<close>: every thread outside \<open>X\<close> is in a state that fits the lists it is on, and \<open>r\<close>
  is the running thread, if there is one.\<close>

definition status_at :: "addr option \<Rightarrow> kernel \<Rightarrow> addr \<Rightarrow> thread \<Rightarrow> bool" where
  "status_at r k t th \<longleftrightarrow> (status th = THREAD_RUNNING \<longleftrightarrow> r = Some t)
     \<and> (elem th = In_ready \<longrightarrow> status th = THREAD_READY \<or> status th = THREAD_BLOCKED)
     \<and> (\<forall>s. elem th = In_sema s \<longrightarrow> status th = THREAD_BLOCKED)
     \<and> (t \<in> set (alarm_list k) \<longrightarrow> status th = THREAD_BLOCKED \<and> elem th = Unlinked)
     \<and> (t \<in> set (all_list k) \<longleftrightarrow> status th \<noteq> THREAD_DYING)"

definition status_ok :: "addr set \<Rightarrow> addr option \<Rightarrow> kernel \<Rightarrow> bool" where
  "status_ok X r k \<longleftrightarrow> (\<forall>t th. threads k t = Some th \<longrightarrow> t \<in> X \<or> status_at r k t th)
     \<and> (\<forall>t. threads k t = None \<longrightarrow> r \<noteq> Some t \<and> t \<notin> set (alarm_list k) \<and> t \<notin> set (all_list k))"

section \<open>What the invariants depend on\<close>

lemma core_cong:
  assumes "threads k' = threads k" "ready_list k' = ready_list k" "semas k' = semas k"
    "alarm_list k' = alarm_list k" "all_list k' = all_list k" "thread_mlfqs k' = thread_mlfqs k"
  shows "core k' = core k"
proof -
  have [simp]: "elem_of k' = elem_of k" "waiting k' = waiting k"
    using elem_of_cong [OF assms(1)] waiting_cong [OF assms(3)] by simp_all
  have [simp]: "thread_priority_large_func k' = thread_priority_large_func k" "alarm_less_func k' = alarm_less_func k"
    using prio_cong [OF assms(1)] wake_time_cong [OF assms(1)]
    by (simp_all add: thread_priority_large_func_def alarm_less_func_def fun_eq_iff)
  show ?thesis using assms
    by (simp add: core_def elems_ok_def order_ok_def threads_ok_def alarm_ok_def)
qed

lemma status_ok_cong:
  assumes "threads k' = threads k" "alarm_list k' = alarm_list k" "all_list k' = all_list k"
  shows "status_ok X r k' = status_ok X r k"
  using assms by (simp add: status_ok_def status_at_def)

text \<open>The parts of the state the two invariants do not look at.\<close>

lemma core_other [simp]:
  "core (k\<lparr>level := v1\<rparr>) = core k" "core (k\<lparr>in_external_intr := v2\<rparr>) = core k"
  "core (k\<lparr>yield_on_return := v2\<rparr>) = core k" "core (k\<lparr>load_avg := v3\<rparr>) = core k"
  "core (k\<lparr>idle_ticks := v3\<rparr>) = core k" "core (k\<lparr>kernel_ticks := v3\<rparr>) = core k"
  "core (k\<lparr>thread_ticks := v4\<rparr>) = core k" "core (k\<lparr>next_tid := v3\<rparr>) = core k"
  "core (k\<lparr>conds := v5\<rparr>) = core k" "core (k\<lparr>ticks := v3\<rparr>) = core k" "core (k\<lparr>locks := v6\<rparr>) = core k"
  "core (k\<lparr>frames := v7\<rparr>) = core k" "core (k\<lparr>cur := v8\<rparr>) = core k" "core (k\<lparr>idle_thread := v8\<rparr>) = core k"
  "core (push_frame f k) = core k" "core (pop_frame k) = core k"
  by (rule core_cong; simp add: push_frame_def pop_frame_def)+

lemma status_other [simp]:
  "status_ok X r (k\<lparr>level := v1\<rparr>) = status_ok X r k" "status_ok X r (k\<lparr>in_external_intr := v2\<rparr>) = status_ok X r k"
  "status_ok X r (k\<lparr>yield_on_return := v2\<rparr>) = status_ok X r k" "status_ok X r (k\<lparr>load_avg := v3\<rparr>) = status_ok X r k"
  "status_ok X r (k\<lparr>idle_ticks := v3\<rparr>) = status_ok X r k" "status_ok X r (k\<lparr>kernel_ticks := v3\<rparr>) = status_ok X r k"
  "status_ok X r (k\<lparr>thread_ticks := v4\<rparr>) = status_ok X r k" "status_ok X r (k\<lparr>next_tid := v3\<rparr>) = status_ok X r k"
  "status_ok X r (k\<lparr>conds := v5\<rparr>) = status_ok X r k" "status_ok X r (k\<lparr>ticks := v3\<rparr>) = status_ok X r k"
  "status_ok X r (k\<lparr>locks := v6\<rparr>) = status_ok X r k" "status_ok X r (k\<lparr>frames := v7\<rparr>) = status_ok X r k"
  "status_ok X r (k\<lparr>cur := v8\<rparr>) = status_ok X r k" "status_ok X r (k\<lparr>idle_thread := v8\<rparr>) = status_ok X r k"
  "status_ok X r (k\<lparr>ready_list := v9\<rparr>) = status_ok X r k" "status_ok X r (set_sema s x k) = status_ok X r k"
  "status_ok X r (push_frame f k) = status_ok X r k" "status_ok X r (pop_frame k) = status_ok X r k"
  by (rule status_ok_cong; simp add: push_frame_def pop_frame_def)+

lemma status_ok_mono: "status_ok X r k \<Longrightarrow> X \<subseteq> Y \<Longrightarrow> status_ok Y r k"
  by (auto simp: status_ok_def)

section \<open>Primitive changes of the lists\<close>

lemma ready_insert_iff:
  "ready_insert t k = Some k' \<longleftrightarrow> elem_of k t = Some Unlinked \<and>
     k' = upd_thread t (elem_update (\<lambda>_. In_ready))
       (k\<lparr>ready_list := insort_by (thread_priority_large_func k) t (ready_list k)\<rparr>)"
  by (auto simp: ready_insert_def elem_of_def bind_eq_Some_conv)

lemma sema_insert_iff:
  "sema_insert s t k = Some k' \<longleftrightarrow> elem_of k t = Some Unlinked \<and> (\<exists>sem. semas k s = Some sem \<and>
     k' = upd_thread t (elem_update (\<lambda>_. In_sema s))
       (set_sema s (sem\<lparr>sema_waiters := insort_by (thread_priority_large_func k) t (sema_waiters sem)\<rparr>) k))"
  by (auto simp: sema_insert_def elem_of_def bind_eq_Some_conv)

lemma elem_remove_iff:
  "elem_remove t k = Some k' \<longleftrightarrow>
     elem_of k t = Some In_ready \<and>
       k' = (upd_thread t (elem_update (\<lambda>_. Unlinked)) k)\<lparr>ready_list := remove1 t (ready_list k)\<rparr> \<or>
     (\<exists>s sem. elem_of k t = Some (In_sema s) \<and> semas k s = Some sem \<and>
       k' = set_sema s (sem\<lparr>sema_waiters := remove1 t (sema_waiters sem)\<rparr>)
              (upd_thread t (elem_update (\<lambda>_. Unlinked)) k))"
proof (cases "threads k t")
  case (Some th)
  then show ?thesis
    by (cases "elem th") (auto simp: elem_remove_def elem_of_def bind_eq_Some_conv set_sema_def Let_def)
qed (simp add: elem_remove_def elem_of_def)

lemma distinct_insort_by [simp]: "distinct (insort_by lessf x xs) \<longleftrightarrow> x \<notin> set xs \<and> distinct xs"
  by (induction xs) auto

lemma core_prio_fun:
  "prio k' = prio k \<Longrightarrow> thread_priority_large_func k' = thread_priority_large_func k"
  by (simp add: thread_priority_large_func_def fun_eq_iff)

lemma core_wake_fun: "wake_time k' = wake_time k \<Longrightarrow> alarm_less_func k' = alarm_less_func k"
  by (simp add: alarm_less_func_def fun_eq_iff)

lemma threads_ok_upd [simp]:
  assumes "\<And>th. don_ok (f th) = don_ok th" and "\<And>th. magic (f th) = magic th"
  shows "threads_ok (upd_thread t f k) = threads_ok k"
proof (cases "threads k t")
  case None
  then have "threads (upd_thread t f k) = threads k" by (simp add: fun_upd_idem)
  then show ?thesis by (simp only: threads_ok_def)
next
  case (Some th)
  then show ?thesis using assms by (auto simp: threads_ok_def)
qed

lemma don_ok_other [simp]:
  "don_ok (th\<lparr>elem := v1\<rparr>) = don_ok th" "don_ok (th\<lparr>status := v2\<rparr>) = don_ok th" "don_ok (th\<lparr>tid := v3\<rparr>) = don_ok th"
  "don_ok (stack_update f th) = don_ok th" "don_ok (th\<lparr>wake_up_time := v3\<rparr>) = don_ok th"
  "don_ok (th\<lparr>nice := v3\<rparr>) = don_ok th"
  "don_ok (th\<lparr>recent_cpu := v3\<rparr>) = don_ok th"
  by (simp_all add: don_ok_def)

lemma core_ready_insert:
  assumes "core k" and "ready_insert t k = Some k'"
  shows "core k'"
proof -
  let ?k = "k\<lparr>ready_list := insort_by (thread_priority_large_func k) t (ready_list k)\<rparr>"
  have e: "elem_of k t = Some Unlinked" and k': "k' = upd_thread t (elem_update (\<lambda>_. In_ready)) ?k"
    using assms(2) by (simp_all only: ready_insert_iff)
  have t: "threads k t \<noteq> None" using e by (auto simp: elem_of_def)
  have p: "prio k' = prio k" "wake_time k' = wake_time k" unfolding k' by simp_all
  have w: "waiting k' = waiting k" unfolding k' by simp
  have el: "elem_of k' = (elem_of k)(t \<mapsto> In_ready)" unfolding k' using t by auto
  have r: "ready_list k' = insort_by (thread_priority_large_func k) t (ready_list k)" unfolding k' by simp
  have "elems_ok k'" using assms(1) e unfolding core_def by (auto simp: elems_ok_def el w r)
  moreover have "order_ok k'" using assms(1) unfolding core_def order_ok_def core_prio_fun [OF p(1)] w
    by (simp add: r k' prio_order.insort_by_ord)
  moreover have "alarm_ok k'" using assms(1) unfolding core_def alarm_ok_def core_wake_fun [OF p(2)] by (simp add: k')
  moreover have "threads_ok k'" using assms(1) unfolding core_def by (auto simp: threads_ok_def k')
  ultimately show ?thesis by (simp add: core_def)
qed


text \<open>For every change of the state: which part of \<open>core\<close> has to be shown again.\<close>

lemma coreI:
  assumes "core k" "elems_ok k'" "order_ok k'" "threads_ok k'"
    "alarm_list k' = alarm_list k" "all_list k' = all_list k" "wake_time k' = wake_time k"
  shows "core k'"
  using assms unfolding core_def alarm_ok_def core_wake_fun [OF assms(7)] by simp

lemma core_sema_insert:
  assumes "core k" and "sema_insert s t k = Some k'"
  shows "core k'"
proof -
  obtain sem where e: "elem_of k t = Some Unlinked" and s: "semas k s = Some sem"
    and k': "k' = upd_thread t (elem_update (\<lambda>_. In_sema s))
       (set_sema s (sem\<lparr>sema_waiters := insort_by (thread_priority_large_func k) t (sema_waiters sem)\<rparr>) k)"
    using assms(2) unfolding sema_insert_iff by blast
  have t: "threads k t \<noteq> None" using e by (auto simp: elem_of_def)
  have p: "prio k' = prio k" "wake_time k' = wake_time k" unfolding k' by simp_all
  have w: "waiting k' = (waiting k)(s := insort_by (thread_priority_large_func k) t (waiting k s))"
    unfolding k' by (simp add: waiting_def s)
  have el: "elem_of k' = (elem_of k)(t \<mapsto> In_sema s)" unfolding k' using t by auto
  have r: "ready_list k' = ready_list k" unfolding k' by simp
  have "elems_ok k'" using assms(1) e unfolding core_def by (auto simp: elems_ok_def el w r)
  moreover have "order_ok k'" using assms(1) unfolding core_def order_ok_def core_prio_fun [OF p(1)] w
    by (auto simp: k' prio_order.insort_by_ord)
  moreover have "threads_ok k'" using assms(1) unfolding core_def by (auto simp: threads_ok_def k')
  ultimately show ?thesis using coreI [OF assms(1)] p by (simp add: k')
qed

lemma core_elem_remove:
  assumes "core k" and "elem_remove t k = Some k'"
  shows "core k'"
proof -
  have ek: "elems_ok k" "order_ok k" "threads_ok k" using assms(1) by (simp_all add: core_def)
  have t: "threads k t \<noteq> None" using assms(2) by (auto simp: elem_remove_iff elem_of_def)
  have p: "prio k' = prio k" "wake_time k' = wake_time k"
    using assms(2) unfolding elem_remove_iff by (elim disjE conjE exE; simp)+
  have el: "elem_of k' = (elem_of k)(t \<mapsto> Unlinked)"
    using assms(2) t unfolding elem_remove_iff by (elim disjE conjE exE) auto
  have "elems_ok k' \<and> order_ok k'" using assms(2) unfolding elem_remove_iff
  proof (elim disjE conjE exE)
    assume e: "elem_of k t = Some In_ready"
      and k': "k' = (upd_thread t (elem_update (\<lambda>_. Unlinked)) k)\<lparr>ready_list := remove1 t (ready_list k)\<rparr>"
    have "waiting k' = waiting k" "ready_list k' = remove1 t (ready_list k)" "thread_mlfqs k' = thread_mlfqs k"
      by (simp_all add: k')
    then show ?thesis using ek(1,2) e unfolding order_ok_def core_prio_fun [OF p(1)]
      by (auto simp: elems_ok_def el ord_by_remove1)
  next
    fix s sem
    assume e: "elem_of k t = Some (In_sema s)" and s: "semas k s = Some sem"
      and k': "k' = set_sema s (sem\<lparr>sema_waiters := remove1 t (sema_waiters sem)\<rparr>)
                 (upd_thread t (elem_update (\<lambda>_. Unlinked)) k)"
    have "waiting k' = (waiting k)(s := remove1 t (waiting k s))" "ready_list k' = ready_list k"
      "thread_mlfqs k' = thread_mlfqs k"
      by (simp_all add: k' waiting_def s)
    then show ?thesis using ek(1,2) e unfolding order_ok_def core_prio_fun [OF p(1)]
      by (auto simp: elems_ok_def el ord_by_remove1)
  qed
  moreover have "threads_ok k'" using ek(3) assms(2) unfolding elem_remove_iff
    by (auto simp: threads_ok_def split: if_splits)
  moreover have "alarm_list k' = alarm_list k" "all_list k' = all_list k" using assms(2) by (auto simp: elem_remove_iff)
  ultimately show ?thesis using coreI [OF assms(1)] p by simp
qed

section \<open>States of threads\<close>

lemma status_ok_exempt_upd: "status_ok X r k \<Longrightarrow> t \<in> X \<Longrightarrow> status_ok X r (upd_thread t f k)"
  by (auto simp: status_ok_def status_at_def split: if_splits)

lemma status_ok_join:
  "status_ok (insert t X) r k \<Longrightarrow> (\<And>th. threads k t = Some th \<Longrightarrow> status_at r k t th) \<Longrightarrow> status_ok X r k"
  by (auto simp: status_ok_def)

lemma status_ok_upd:
  assumes "\<And>th. status (f th) = status th" and "\<And>th. elem (f th) = elem th"
  shows "status_ok X r (upd_thread t f k) = status_ok X r k"
proof (cases "threads k t")
  case None
  then have "threads (upd_thread t f k) = threads k" by (simp add: fun_upd_idem)
  then show ?thesis by (rule status_ok_cong) simp_all
next
  case (Some th)
  let ?k = "upd_thread t f k"
  have sa: "status_at r k u (f th') = status_at r k u th'" "status_at r ?k u th' = status_at r k u th'" for u th'
    by (simp_all add: status_at_def assms)
  have "(\<forall>th'. threads ?k u = Some th' \<longrightarrow> u \<in> X \<or> status_at r ?k u th') =
      (\<forall>th'. threads k u = Some th' \<longrightarrow> u \<in> X \<or> status_at r k u th')" for u
    by (cases "u = t") (simp_all add: Some sa)
  moreover have "threads ?k u = None \<longleftrightarrow> threads k u = None" for u by (simp add: Some)
  ultimately show ?thesis unfolding status_ok_def by simp
qed

lemma status_ok_unlink:
  assumes "status_ok X r k"
  shows "status_ok X r (upd_thread t (elem_update (\<lambda>_. Unlinked)) k)"
proof (cases "threads k t")
  case None
  then have "threads (upd_thread t (elem_update (\<lambda>_. Unlinked)) k) = threads k" by (simp add: fun_upd_idem)
  then show ?thesis using assms status_ok_cong [of "upd_thread t (elem_update (\<lambda>_. Unlinked)) k" k] by simp
next
  case (Some th)
  then show ?thesis using assms by (auto simp: status_ok_def status_at_def)
qed

lemma status_elem_remove:
  assumes "status_ok X r k" and "elem_remove t k = Some k'"
  shows "status_ok X r k'"
proof -
  let ?k = "upd_thread t (elem_update (\<lambda>_. Unlinked)) k"
  have "threads k' = threads ?k \<and> alarm_list k' = alarm_list ?k \<and> all_list k' = all_list ?k"
    using assms(2) unfolding elem_remove_iff by (elim disjE conjE exE) simp_all
  then show ?thesis using status_ok_unlink [OF assms(1), of t] status_ok_cong [of k' ?k] by blast
qed

lemma thread_current_iff:
  "thread_current k = Some c \<longleftrightarrow> c = cur k \<and> c \<noteq> NULL \<and>
     (\<exists>th. threads k c = Some th \<and> magic th = THREAD_MAGIC \<and> status th = THREAD_RUNNING)"
  by (auto simp: thread_current_def running_thread_def is_thread_def Let_def bind_eq_Some_conv split: option.splits)

text \<open>What the operations of the scheduler leave alone.\<close>

definition same_sync :: "kernel \<Rightarrow> kernel \<Rightarrow> bool" where
  "same_sync k k' \<longleftrightarrow> frames k' = frames k \<and> locks k' = locks k \<and> tid_lock k' = tid_lock k
     \<and> (\<forall>s. map_option sema_value (semas k' s) = map_option sema_value (semas k s))
     \<and> idle_thread k' = idle_thread k \<and> dom (threads k') = dom (threads k)
     \<and> in_external_intr k' = in_external_intr k \<and> thread_mlfqs k' = thread_mlfqs k
     \<and> set (alarm_list k') \<subseteq> set (alarm_list k)"

lemma same_sync_refl [simp]: "same_sync k k"
  by (simp add: same_sync_def)

lemma same_sync_trans: "same_sync k1 k2 \<Longrightarrow> same_sync k2 k3 \<Longrightarrow> same_sync k1 k3"
  by (auto simp: same_sync_def)

lemma same_sync_upd [simp]: "same_sync k (upd_thread t f k)"
  by (auto simp: same_sync_def split: if_splits)

lemma same_sync_ready_insert: "ready_insert t k = Some k' \<Longrightarrow> same_sync k k'"
  unfolding ready_insert_iff by (auto simp: same_sync_def elem_of_def split: if_splits)

lemma same_sync_sema_insert: "sema_insert s t k = Some k' \<Longrightarrow> same_sync k k'"
  unfolding sema_insert_iff by (auto simp: same_sync_def elem_of_def split: if_splits)

lemma same_sync_elem_remove: "elem_remove t k = Some k' \<Longrightarrow> same_sync k k'"
  unfolding elem_remove_iff by (elim disjE conjE exE) (auto simp: same_sync_def elem_of_def split: if_splits)

lemma restore_level_iff:
  "restore_level l k = Some k' \<longleftrightarrow> k' = k\<lparr>level := l\<rparr> \<and> (l = INTR_ON \<longrightarrow> \<not> in_external_intr k)"
  by (cases l) (auto simp: restore_level_def intr_set_level_def intr_enable_def intr_disable_def intr_context_def bind_eq_Some_conv)

lemma ready_insert_level:
  "ready_insert t (k\<lparr>level := l\<rparr>) = map_option (\<lambda>k1. k1\<lparr>level := l\<rparr>) (ready_insert t k)"
proof -
  have "thread_priority_large_func (k\<lparr>level := l\<rparr>) = thread_priority_large_func k" by (rule core_prio_fun) simp
  then show ?thesis by (cases "threads k t") (simp_all add: ready_insert_def upd_thread_def ASSERT_def)
qed

lemma thread_unblock_iff:
  "thread_unblock t k = Some k' \<longleftrightarrow> is_thread k t \<and> map_option status (threads k t) = Some THREAD_BLOCKED \<and>
     (\<exists>k1. ready_insert t k = Some k1 \<and> k' = set_status t THREAD_READY k1) \<and>
     (level k = INTR_ON \<longrightarrow> \<not> in_external_intr k)"
proof -
  have 2: "(set_status t s (k1\<lparr>level := INTR_OFF\<rparr>))\<lparr>level := level k\<rparr> = set_status t s k1" "in_external_intr k1 = in_external_intr k"
    if "ready_insert t k = Some k1" for k1 s
    using that by (auto simp: ready_insert_iff set_status_def upd_thread_def)
  show ?thesis
    by (auto simp: thread_unblock_def intr_disable_def intr_get_level_def Let_def bind_eq_Some_conv
        restore_level_iff ready_insert_level is_thread_def set_status_def 2 [unfolded set_status_def])
qed

lemma core_upd:
  assumes "\<And>th. priority (f th) = priority th" "\<And>th. elem (f th) = elem th"
    "\<And>th. wake_up_time (f th) = wake_up_time th" "\<And>th. don_ok (f th) = don_ok th" "\<And>th. magic (f th) = magic th"
  shows "core (upd_thread t f k) = core k"
proof -
  let ?k = "upd_thread t f k"
  have "prio ?k = prio k" "wake_time ?k = wake_time k" "elem_of ?k = elem_of k" "waiting ?k = waiting k"
    "threads_ok ?k = threads_ok k" using assms by simp_all
  then show ?thesis
    using core_prio_fun [of ?k k] core_wake_fun [of ?k k]
    by (simp add: core_def elems_ok_def order_ok_def alarm_ok_def)
qed

lemma core_set_status [simp]: "core (set_status t s k) = core k"
  unfolding set_status_def by (rule core_upd) simp_all

lemma set_status_simps [simp]:
  "threads (set_status t s k) = (threads k)(t := map_option (status_update (\<lambda>_. s)) (threads k t))"
  "ready_list (set_status t s k) = ready_list k" "all_list (set_status t s k) = all_list k"
  "idle_thread (set_status t s k) = idle_thread k" "cur (set_status t s k) = cur k"
  "frames (set_status t s k) = frames k" "level (set_status t s k) = level k"
  "in_external_intr (set_status t s k) = in_external_intr k" "thread_mlfqs (set_status t s k) = thread_mlfqs k"
  "semas (set_status t s k) = semas k" "locks (set_status t s k) = locks k"
  "alarm_list (set_status t s k) = alarm_list k" "initial_thread (set_status t s k) = initial_thread k"
  "conds (set_status t s k) = conds k" "tid_lock (set_status t s k) = tid_lock k" "ticks (set_status t s k) = ticks k"
  by (simp_all add: set_status_def)

lemma same_sync_set_status [simp]: "same_sync k (set_status t s k)"
  by (simp add: set_status_def)

text \<open>The idle thread runs when nobody else can, so it never waits in a queue and never ends.\<close>

definition idle_ok :: "kernel \<Rightarrow> bool" where
  "idle_ok k \<longleftrightarrow> (\<forall>th. threads k (idle_thread k) = Some th \<longrightarrow>
     (\<forall>s. elem th \<noteq> In_sema s) \<and> idle_thread k \<notin> set (alarm_list k) \<and> status th \<noteq> THREAD_DYING)"

text \<open>\<open>good\<close>: the state between two operations, as far as threads and lists go. \<open>parked\<close>: the state
  in which \<open>schedule\<close> is called, where no thread is running.\<close>

definition good :: "kernel \<Rightarrow> bool" where
  "good k \<longleftrightarrow> core k \<and> status_ok {} (Some (cur k)) k \<and> idle_ok k"

definition parked :: "kernel \<Rightarrow> bool" where
  "parked k \<longleftrightarrow> core k \<and> status_ok {} None k \<and> idle_ok k"

lemma good_cur:
  assumes "good k"
  obtains th where "threads k (cur k) = Some th" "status th = THREAD_RUNNING" "elem th = Unlinked"
    "cur k \<notin> set (alarm_list k)" "cur k \<in> set (all_list k)" "don_ok th" "magic th = THREAD_MAGIC" "cur k \<noteq> NULL"
proof -
  from assms obtain th where th: "threads k (cur k) = Some th" unfolding good_def status_ok_def by fastforce
  then have "status_at (Some (cur k)) k (cur k) th" "don_ok th" "magic th = THREAD_MAGIC" "cur k \<noteq> NULL"
    using assms unfolding good_def status_ok_def core_def threads_ok_def by blast+
  moreover from this have "elem th = Unlinked" unfolding status_at_def by (cases "elem th") auto
  ultimately show thesis using that th unfolding status_at_def by auto
qed

lemma good_thread_current: "good k \<Longrightarrow> thread_current k = Some (cur k)"
  by (erule good_cur) (simp add: thread_current_iff)

lemma thread_unblock_core:
  assumes "core k" and "status_ok {} r k" and "thread_unblock t k = Some k'"
  shows "core k'" and "same_sync k k'" and "cur k' = cur k" and "level k' = level k" and "alarm_list k' = alarm_list k"
    and "all_list k' = all_list k" and "semas k' = semas k" and "ticks k' = ticks k"
    and "\<exists>th. threads k t = Some th \<and> threads k' = (threads k)(t \<mapsto> th\<lparr>elem := In_ready, status := THREAD_READY\<rparr>)"
    and "set al \<subseteq> set (alarm_list k) - {t} \<Longrightarrow> status_ok {} r (k'\<lparr>alarm_list := al\<rparr>)"
proof -
  obtain k1 th where 1: "ready_insert t k = Some k1" "k' = set_status t THREAD_READY k1"
      "threads k t = Some th" "status th = THREAD_BLOCKED"
    using assms(3) unfolding thread_unblock_iff by auto
  show "core k'" unfolding 1(2) core_set_status by (rule core_ready_insert [OF assms(1) 1(1)])
  show "same_sync k k'" unfolding 1(2) by (rule same_sync_trans [OF same_sync_ready_insert [OF 1(1)]]) simp
  have ri: "k1 = upd_thread t (elem_update (\<lambda>_. In_ready))
      (k\<lparr>ready_list := insort_by (thread_priority_large_func k) t (ready_list k)\<rparr>)"
    using 1(1) unfolding ready_insert_iff by blast
  show "cur k' = cur k" "level k' = level k" "alarm_list k' = alarm_list k" "all_list k' = all_list k" "semas k' = semas k"
    "ticks k' = ticks k" unfolding 1(2) ri by simp_all
  have th': "threads k' = (threads k)(t \<mapsto> th\<lparr>elem := In_ready, status := THREAD_READY\<rparr>)"
    unfolding 1(2) ri using 1(3) by simp
  then show "\<exists>th. threads k t = Some th \<and> threads k' = (threads k)(t \<mapsto> th\<lparr>elem := In_ready, status := THREAD_READY\<rparr>)"
    using 1(3) by blast
  show "status_ok {} r (k'\<lparr>alarm_list := al\<rparr>)" if al: "set al \<subseteq> set (alarm_list k) - {t}"
  proof -
    have t: "status_at r k t th" using assms(2) 1(3) unfolding status_ok_def by blast
    have some: "status_at r (k'\<lparr>alarm_list := al\<rparr>) u uh" if uh: "threads k' u = Some uh" for u uh
    proof (cases "u = t")
      case True
      then show ?thesis using uh t 1(4) al \<open>all_list k' = all_list k\<close> unfolding th' status_at_def by auto
    next
      case False
      then have "status_at r k u uh" using uh assms(2) unfolding th' status_ok_def by auto
      then show ?thesis using al \<open>all_list k' = all_list k\<close> unfolding status_at_def by auto
    qed
    have none: "r \<noteq> Some u \<and> u \<notin> set al \<and> u \<notin> set (all_list k')" if "threads k' u = None" for u
    proof -
      from that have "threads k u = None" unfolding th' by (simp split: if_splits)
      then show ?thesis using assms(2) al \<open>all_list k' = all_list k\<close> unfolding status_ok_def by auto
    qed
    show ?thesis unfolding status_ok_def using some none by simp
  qed
qed


section \<open>Switching threads\<close>

lemma idle_ok_cong:
  assumes "threads k' = threads k" "idle_thread k' = idle_thread k" "alarm_list k' = alarm_list k"
  shows "idle_ok k' = idle_ok k"
  using assms by (simp add: idle_ok_def)

lemma idle_ok_other [simp]:
  "idle_ok (k\<lparr>level := v1\<rparr>) = idle_ok k" "idle_ok (k\<lparr>in_external_intr := v2\<rparr>) = idle_ok k"
  "idle_ok (k\<lparr>yield_on_return := v2\<rparr>) = idle_ok k" "idle_ok (k\<lparr>load_avg := v3\<rparr>) = idle_ok k"
  "idle_ok (k\<lparr>idle_ticks := v3\<rparr>) = idle_ok k" "idle_ok (k\<lparr>kernel_ticks := v3\<rparr>) = idle_ok k"
  "idle_ok (k\<lparr>thread_ticks := v4\<rparr>) = idle_ok k" "idle_ok (k\<lparr>next_tid := v3\<rparr>) = idle_ok k"
  "idle_ok (k\<lparr>conds := v5\<rparr>) = idle_ok k" "idle_ok (k\<lparr>ticks := v3\<rparr>) = idle_ok k"
  "idle_ok (k\<lparr>locks := v6\<rparr>) = idle_ok k" "idle_ok (k\<lparr>frames := v7\<rparr>) = idle_ok k"
  "idle_ok (k\<lparr>cur := v8\<rparr>) = idle_ok k" "idle_ok (k\<lparr>ready_list := v9\<rparr>) = idle_ok k"
  "idle_ok (k\<lparr>all_list := v9\<rparr>) = idle_ok k" "idle_ok (set_sema s x k) = idle_ok k"
  "idle_ok (push_frame f k) = idle_ok k" "idle_ok (pop_frame k) = idle_ok k"
  by (rule idle_ok_cong; simp add: push_frame_def pop_frame_def)+

lemma idle_ok_upd:
  "idle_ok k \<Longrightarrow> (\<And>th s. t = idle_thread k \<Longrightarrow> threads k t = Some th \<Longrightarrow> elem (f th) = In_sema s \<Longrightarrow> elem th = In_sema s) \<Longrightarrow>
   (\<And>th. t = idle_thread k \<Longrightarrow> threads k t = Some th \<Longrightarrow> status (f th) = THREAD_DYING \<Longrightarrow> status th = THREAD_DYING) \<Longrightarrow>
   idle_ok (upd_thread t f k)"
  by (auto simp: idle_ok_def split: if_splits)

lemma next_thread_parked:
  assumes "parked k" and "next_thread_to_run k = (n, k1)"
  shows "core k1" "status_ok {} None k1" "idle_ok k1" "same_sync k k1" "cur k1 = cur k"
    "level k1 = level k" "initial_thread k1 = initial_thread k"
    "\<And>th. threads k1 n = Some th \<Longrightarrow> elem th = Unlinked \<and> n \<notin> set (alarm_list k1) \<and> status th \<noteq> THREAD_DYING"
    "\<And>t. map_option status (threads k1 t) = map_option status (threads k t)"
proof -
  have c: "core k" "status_ok {} None k" "idle_ok k" using assms(1) by (simp_all add: parked_def)
  have "core k1 \<and> status_ok {} None k1 \<and> idle_ok k1 \<and> same_sync k k1 \<and> cur k1 = cur k \<and>
    level k1 = level k \<and> initial_thread k1 = initial_thread k \<and>
    (\<forall>th. threads k1 n = Some th \<longrightarrow> elem th = Unlinked \<and> n \<notin> set (alarm_list k1) \<and> status th \<noteq> THREAD_DYING) \<and>
    (\<forall>t. map_option status (threads k1 t) = map_option status (threads k t))"
  proof (cases "ready_list k")
    case Nil
    then have k: "k1 = k" "n = idle_thread k" using assms(2) by (auto simp: next_thread_to_run_def)
    have "elem th = Unlinked" if "threads k n = Some th" for th
    proof -
      have "elem th \<noteq> In_ready" using c(1) that Nil by (auto simp: core_def elems_ok_def elem_of_def)
      moreover have "\<forall>s. elem th \<noteq> In_sema s" using c(3) that k by (simp add: idle_ok_def)
      ultimately show ?thesis by (cases "elem th") auto
    qed
    then show ?thesis using c k by (auto simp: idle_ok_def)
  next
    case (Cons t ts)
    let ?f = "elem_update (\<lambda>_. Unlinked)"
    have k: "k1 = upd_thread t ?f (k\<lparr>ready_list := ts\<rparr>)" "n = t" using assms(2) Cons by (auto simp: next_thread_to_run_def)
    have e: "elem_of k t = Some In_ready" using c(1) Cons by (auto simp: core_def elems_ok_def)
    then have r: "elem_remove t k = Some k1" unfolding elem_remove_iff k using Cons by (simp add: upd_thread_def)
    obtain th where th: "threads k t = Some th" "elem th = In_ready" using e by (auto simp: elem_of_def)
    then have "status_at None k t th" using c(2) by (simp add: status_ok_def)
    then have n: "t \<notin> set (alarm_list k)" "status th \<noteq> THREAD_DYING" using th(2) by (auto simp: status_at_def)
    have "idle_ok k1" unfolding k(1) by (rule idle_ok_upd) (use c in simp_all)
    moreover have "map_option status (threads k1 u) = map_option status (threads k u)" for u
      by (simp add: k th(1))
    ultimately show ?thesis
      using core_elem_remove [OF c(1) r] status_elem_remove [OF c(2) r] same_sync_elem_remove [OF r] n th
      by (auto simp: k)
  qed
  then show "core k1" "status_ok {} None k1" "idle_ok k1" "same_sync k k1" "cur k1 = cur k"
    "level k1 = level k" "initial_thread k1 = initial_thread k"
    "\<And>th. threads k1 n = Some th \<Longrightarrow> elem th = Unlinked \<and> n \<notin> set (alarm_list k1) \<and> status th \<noteq> THREAD_DYING"
    "\<And>t. map_option status (threads k1 t) = map_option status (threads k t)"
    by blast+
qed


lemma status_ok_run:
  assumes "status_ok {} None k" and "threads k n = Some th" "elem th = Unlinked"
    "n \<notin> set (alarm_list k)" "status th \<noteq> THREAD_DYING"
  shows "status_ok {} (Some n) (upd_thread n (status_update (\<lambda>_. THREAD_RUNNING)) k)"
proof -
  let ?k = "upd_thread n (status_update (\<lambda>_. THREAD_RUNNING)) k"
  have "status_at (Some n) ?k t uh" if "threads ?k t = Some uh" for t uh
  proof (cases "t = n")
    case True
    have "status_at None k n th" using assms(1,2) by (simp add: status_ok_def)
    then show ?thesis using that True assms(2-5) by (auto simp: status_at_def)
  next
    case False
    then have "status_at None k t uh" using that assms(1) by (simp add: status_ok_def)
    then show ?thesis using False by (simp add: status_at_def)
  qed
  then show ?thesis using assms(1,2) by (auto simp: status_ok_def)
qed

lemma free_thread_core:
  assumes "core k" "status_ok {} (Some r) k" "idle_ok k" and "threads k c = Some th" "status th = THREAD_DYING" "r \<noteq> c"
  shows "core (free_thread c k)" "status_ok {} (Some r) (free_thread c k)" "idle_ok (free_thread c k)"
proof -
  let ?k = "free_thread c k"
  have sa: "status_at (Some r) k c th" using assms(2,4) by (simp add: status_ok_def)
  then have c: "elem_of k c \<noteq> Some In_ready" "\<And>s. elem_of k c \<noteq> Some (In_sema s)" "c \<notin> set (alarm_list k)" "c \<notin> set (all_list k)"
    using assms(4,5) by (auto simp: status_at_def elem_of_def)
  have q: "c \<notin> set (ready_list k)" "\<And>s. c \<notin> set (waiting k s)" using c assms(1) by (auto simp: core_def elems_ok_def)
  have el: "elem_of ?k = (elem_of k)(c := None)" by (auto simp: free_thread_def elem_of_def)
  have w: "waiting ?k = waiting k" "ready_list ?k = ready_list k" "alarm_list ?k = alarm_list k" "all_list ?k = all_list k"
    "thread_mlfqs ?k = thread_mlfqs k" by (simp_all add: free_thread_def waiting_def fun_eq_iff)
  have p: "prio ?k t = prio k t" "wake_time ?k t = wake_time k t" if "t \<noteq> c" for t
    using that by (simp_all add: free_thread_def prio_def wake_time_def)
  have "elems_ok ?k" using assms(1) c by (auto simp: core_def elems_ok_def el w)
  moreover have "order_ok ?k"
  proof -
    have "ord_by (thread_priority_large_func ?k) xs = ord_by (thread_priority_large_func k) xs" if "c \<notin> set xs" for xs
      by (intro ord_prio_cong p(1)) (use that in auto)
    then show ?thesis using assms(1) q by (simp add: core_def order_ok_def w)
  qed
  moreover have "threads_ok ?k" using assms(1) by (auto simp: core_def threads_ok_def free_thread_def split: if_splits)
  moreover have "alarm_ok ?k"
  proof -
    have "ord_by (alarm_less_func ?k) (alarm_list k) = ord_by (alarm_less_func k) (alarm_list k)"
      by (intro ord_alarm_cong p(2)) (use c(3) in auto)
    then show ?thesis using assms(1) by (simp add: core_def alarm_ok_def w)
  qed
  ultimately show "core ?k" by (simp add: core_def)
  show "status_ok {} (Some r) ?k"
    using assms(2,6) c(3,4) by (auto simp: status_ok_def status_at_def free_thread_def)
  show "idle_ok ?k" using assms(3) by (auto simp: idle_ok_def free_thread_def)
qed

text \<open>What \<open>schedule\<close> does to the state besides choosing a thread: it frees a thread that ends.\<close>

lemma schedule_good:
  assumes "parked k" and "schedule k = Some k'"
  shows "good k'" and "map_option status (threads k (cur k)) \<noteq> Some THREAD_DYING \<Longrightarrow> same_sync k k'"
    and "same_sync k k' \<or> map_option status (threads k (cur k)) = Some THREAD_DYING \<and> same_sync (free_thread (cur k) k) k'"
    and "level k' = INTR_OFF"
proof -
  obtain n k1 where nk: "next_thread_to_run k = (n, k1)" by fastforce
  note n = next_thread_parked [OF assms(1) nk]
  define k2 where "k2 = (upd_thread n (status_update (\<lambda>_. THREAD_RUNNING)) (k1\<lparr>cur := n\<rparr>))\<lparr>thread_ticks := 0\<rparr>"
  obtain nth where nth: "threads k1 n = Some nth" and l: "level k1 = INTR_OFF"
    and k': "k' = (if cur k \<noteq> n \<and> cur k \<noteq> NULL \<and> map_option status (threads k2 (cur k)) = Some THREAD_DYING \<and> cur k \<noteq> initial_thread k
      then free_thread (cur k) k2 else k2)"
    using assms(2)
    by (auto simp: schedule_def nk running_thread_def Let_def thread_schedule_tail_def bind_eq_Some_conv
        is_thread_def intr_get_level_def k2_def n(7) split: option.splits if_splits)
  have 2: "core k2" "idle_ok k2" "status_ok {} (Some n) k2" "cur k2 = n"
  proof -
    show "core k2" unfolding k2_def using core_upd [of "status_update (\<lambda>_. THREAD_RUNNING)" n "k1\<lparr>cur := n\<rparr>"] n(1) by simp
    have "idle_ok (upd_thread n (status_update (\<lambda>_. THREAD_RUNNING)) (k1\<lparr>cur := n\<rparr>))"
      by (rule idle_ok_upd) (use n(3) in simp_all)
    then show "idle_ok k2" by (simp add: k2_def)
    show "status_ok {} (Some n) k2" unfolding k2_def
      using status_ok_run [of "k1\<lparr>cur := n\<rparr>" n nth] n(2) n(8) [OF nth] nth by simp
    show "cur k2 = n" by (simp add: k2_def)
  qed
  have s2: "same_sync k1 k2" by (auto simp: k2_def same_sync_def split: if_splits)
  have l2: "level k2 = INTR_OFF" by (simp add: k2_def l)
  have "good k' \<and> level k' = INTR_OFF \<and> (same_sync k k' \<or> map_option status (threads k (cur k)) = Some THREAD_DYING \<and> same_sync (free_thread (cur k) k) k')"
  proof (cases "cur k \<noteq> n \<and> cur k \<noteq> NULL \<and> map_option status (threads k2 (cur k)) = Some THREAD_DYING \<and> cur k \<noteq> initial_thread k")
    case True
    then have k'': "k' = free_thread (cur k) k2" unfolding k' by (rule if_P)
    obtain th where th: "threads k2 (cur k) = Some th" "status th = THREAD_DYING" using True by auto
    have "map_option status (threads k1 (cur k)) = Some THREAD_DYING" using True by (auto simp: k2_def)
    then have d: "map_option status (threads k (cur k)) = Some THREAD_DYING" using n(9) by simp
    have "n \<noteq> cur k" using True by blast
    moreover have "cur k' = n" by (simp add: k'' free_thread_def 2)
    moreover have "same_sync k k2" using n(4) s2 same_sync_trans by blast
    ultimately show ?thesis
      using d l2 free_thread_core [OF 2(1,3,2) th] by (auto simp: k'' good_def same_sync_def free_thread_def)
  next
    case False
    then have "k' = k2" unfolding k' by (rule if_not_P)
    then show ?thesis using 2 n(4) s2 l2 same_sync_trans by (auto simp: good_def)
  qed
  then show "good k'" "map_option status (threads k (cur k)) \<noteq> Some THREAD_DYING \<Longrightarrow> same_sync k k'"
    "same_sync k k' \<or> map_option status (threads k (cur k)) = Some THREAD_DYING \<and> same_sync (free_thread (cur k) k) k'"
    "level k' = INTR_OFF"
    by blast+
qed


text \<open>The current thread stops running.\<close>

lemma status_ok_stop:
  assumes "status_ok {c} (Some c) k" and "c = cur k"
    and "\<And>th. threads k c = Some th \<Longrightarrow> status_at None k' c (th\<lparr>status := s\<rparr>)"
    and "s \<noteq> THREAD_RUNNING" and "k' = upd_thread c (status_update (\<lambda>_. s)) k"
  shows "status_ok {} None k'"
proof -
  have "status_at None k' t uh" if "threads k' t = Some uh" for t uh
  proof (cases "t = c")
    case True
    then show ?thesis using that assms(3) unfolding assms(5) by auto
  next
    case False
    then have "status_at (Some c) k t uh" using that assms(1) unfolding assms(5) by (auto simp: status_ok_def)
    then show ?thesis using False unfolding assms(5) by (auto simp: status_at_def)
  qed
  then show ?thesis using assms(1) unfolding assms(5) status_ok_def by (auto split: if_splits)
qed

lemma thread_yield_good:
  assumes "good k" and "thread_yield k = Some k'"
  shows "good k'" and "same_sync (push_frame (Yield_rest (level k)) k) k'" and "level k' = INTR_OFF"
proof -
  obtain th where th: "threads k (cur k) = Some th" "status th = THREAD_RUNNING" "elem th = Unlinked"
    "cur k \<notin> set (alarm_list k)" "cur k \<in> set (all_list k)" by (rule good_cur [OF assms(1)]) blast
  let ?c = "cur k"
  obtain k2 where k2: "if ?c \<noteq> idle_thread k then ready_insert ?c (k\<lparr>level := INTR_OFF\<rparr>) = Some k2 else k2 = k\<lparr>level := INTR_OFF\<rparr>"
    and sch: "schedule (push_frame (Yield_rest (level k)) (set_status ?c THREAD_READY k2)) = Some k'"
    using assms(2)
    by (auto simp: thread_yield_def good_thread_current [OF assms(1)] intr_disable_def intr_get_level_def Let_def
        bind_eq_Some_conv split: if_splits)
  have g: "core (k\<lparr>level := INTR_OFF\<rparr>)" "status_ok {} (Some ?c) (k\<lparr>level := INTR_OFF\<rparr>)" "idle_ok (k\<lparr>level := INTR_OFF\<rparr>)"
    using assms(1) by (simp_all add: good_def)
  have "core k2 \<and> same_sync (k\<lparr>level := INTR_OFF\<rparr>) k2"
    using k2 core_ready_insert [OF g(1)] same_sync_ready_insert g(1) same_sync_refl by (metis (full_types))
  moreover have "cur k2 = ?c \<and> alarm_list k2 = alarm_list k \<and> all_list k2 = all_list k"
    using k2 by (auto simp: ready_insert_iff split: if_splits)
  ultimately have s2: "core k2" "same_sync (k\<lparr>level := INTR_OFF\<rparr>) k2" "cur k2 = ?c" "alarm_list k2 = alarm_list k"
    "all_list k2 = all_list k" by blast+
  have th2: "threads k2 = (threads k)(?c \<mapsto> th\<lparr>elem := if ?c \<noteq> idle_thread k then In_ready else Unlinked\<rparr>)"
    using k2 th(1,3) by (auto simp: ready_insert_iff fun_upd_idem split: if_splits)
  let ?k3 = "push_frame (Yield_rest (level k)) (set_status ?c THREAD_READY k2)"
  have st: "status_ok {?c} (Some ?c) k2"
    using g(2) s2(4,5) th(1) unfolding status_ok_def status_at_def th2 by (auto split: if_splits)
  have "status_ok {} None (set_status ?c THREAD_READY k2)"
    by (rule status_ok_stop [OF st _ _ _ set_status_def]) (use th2 s2 th in \<open>auto simp: status_at_def set_status_def\<close>)
  moreover have "idle_ok k2" using g(3) k2 th by (auto simp: ready_insert_iff idle_ok_def split: if_splits)
  then have "idle_ok (set_status ?c THREAD_READY k2)" unfolding set_status_def by (rule idle_ok_upd) simp_all
  ultimately have p: "parked ?k3" using s2(1) by (simp add: parked_def)
  have nd: "map_option status (threads ?k3 (cur ?k3)) \<noteq> Some THREAD_DYING" using th2 s2(3) by simp
  have "same_sync (push_frame (Yield_rest (level k)) k) ?k3"
    using s2(2) s2(3) by (auto simp: same_sync_def split: if_splits)
  then show "same_sync (push_frame (Yield_rest (level k)) k) k'"
    using schedule_good(2) [OF p sch nd] same_sync_trans by blast
  show "good k'" "level k' = INTR_OFF" using schedule_good [OF p sch] by simp_all
qed

lemma thread_block_good:
  assumes "core k" "status_ok {cur k} (Some (cur k)) k" "idle_ok k" and "thread_block k = Some k'"
    and "cur k \<notin> set (alarm_list k) \<or> elem_of k (cur k) = Some Unlinked"
    and "elem_of k (cur k) \<noteq> Some In_ready" and "cur k \<in> set (all_list k)"
  shows "good k'" and "same_sync k k'" and "level k' = INTR_OFF"
proof -
  let ?k = "set_status (cur k) THREAD_BLOCKED k"
  have sch: "schedule ?k = Some k'" using assms(4) by (auto simp: thread_block_def bind_eq_Some_conv thread_current_iff)
  have "status_ok {} None ?k"
    by (rule status_ok_stop [OF assms(2) _ _ _ set_status_def])
      (use assms(5-7) in \<open>auto simp: status_at_def set_status_def elem_of_def\<close>)
  moreover have "idle_ok ?k" using assms(3) unfolding set_status_def by (rule idle_ok_upd) simp_all
  ultimately have p: "parked ?k" using assms(1) by (simp add: parked_def)
  have "same_sync ?k k'" by (rule schedule_good(2) [OF p sch]) auto
  then show "same_sync k k'" using same_sync_trans same_sync_set_status by blast
  show "good k'" "level k' = INTR_OFF" using schedule_good [OF p sch] by simp_all
qed

lemma thread_exit_good:
  assumes "good k" and "thread_exit k = Some k'" and "cur k \<noteq> idle_thread k"
  shows "good k'" and "same_sync k k' \<or> same_sync (free_thread (cur k) k) k'" and "level k' = INTR_OFF"
proof -
  obtain th where th: "threads k (cur k) = Some th" "status th = THREAD_RUNNING" "elem th = Unlinked"
    "cur k \<notin> set (alarm_list k)" "cur k \<in> set (all_list k)" by (rule good_cur [OF assms(1)]) blast
  have g: "core k" "status_ok {} (Some (cur k)) k" "idle_ok k" using assms(1) by (simp_all add: good_def)
  let ?k1 = "k\<lparr>level := INTR_OFF, all_list := remove1 (cur k) (all_list k)\<rparr>"
  let ?k = "set_status (cur k) THREAD_DYING ?k1"
  have sch: "schedule ?k = Some k'" using assms(2)
    by (auto simp: thread_exit_def bind_eq_Some_conv thread_current_iff intr_disable_def)
  have d: "distinct (all_list k)" using g(1) by (simp add: core_def alarm_ok_def)
  have "status_ok {cur k} (Some (cur k)) ?k1"
    using g(2) th d unfolding status_ok_def status_at_def by auto
  then have "status_ok {} None ?k"
    by (rule status_ok_stop [OF _ _ _ _ set_status_def])
      (use th d in \<open>auto simp: status_at_def set_status_def\<close>)
  moreover have "idle_ok ?k" unfolding set_status_def by (rule idle_ok_upd) (use g(3) assms(3) in simp_all)
  moreover have "core ?k1"
  proof -
    have "core (k\<lparr>level := INTR_OFF\<rparr>)" using g(1) by simp
    moreover have "elem_of ?k1 = elem_of k" "waiting ?k1 = waiting k" "prio ?k1 = prio k" "wake_time ?k1 = wake_time k"
      by simp_all
    ultimately show ?thesis
      using core_prio_fun [of ?k1 k] core_wake_fun [of ?k1 k] g(1)
      by (simp add: core_def elems_ok_def order_ok_def threads_ok_def alarm_ok_def)
  qed
  ultimately have p: "parked ?k" by (simp add: parked_def)
  have 1: "same_sync k ?k" "same_sync (free_thread (cur k) k) (free_thread (cur ?k) ?k)"
    using th(1) by (auto simp: same_sync_def free_thread_def split: if_splits)
  show "same_sync k k' \<or> same_sync (free_thread (cur k) k) k'"
    using schedule_good(3) [OF p sch] 1 same_sync_trans by blast
  show "good k'" "level k' = INTR_OFF" using schedule_good [OF p sch] by simp_all
qed

section \<open>Semaphores\<close>

text \<open>\<open>bump s f\<close> changes the value of a semaphore and nothing else.\<close>

definition bump :: "sema_ref \<Rightarrow> (32 word \<Rightarrow> 32 word) \<Rightarrow> kernel \<Rightarrow> kernel" where
  "bump s f k = k\<lparr>semas := (semas k)(s := map_option (\<lambda>sem. sem\<lparr>sema_value := f (sema_value sem)\<rparr>) (semas k s))\<rparr>"

lemma bump_simps [simp]:
  "threads (bump s f k) = threads k" "ready_list (bump s f k) = ready_list k" "all_list (bump s f k) = all_list k"
  "idle_thread (bump s f k) = idle_thread k" "cur (bump s f k) = cur k" "frames (bump s f k) = frames k"
  "level (bump s f k) = level k" "in_external_intr (bump s f k) = in_external_intr k"
  "thread_mlfqs (bump s f k) = thread_mlfqs k" "locks (bump s f k) = locks k" "tid_lock (bump s f k) = tid_lock k"
  "alarm_list (bump s f k) = alarm_list k" "conds (bump s f k) = conds k"
  "semas (bump s f k) = (semas k)(s := map_option (\<lambda>sem. sem\<lparr>sema_value := f (sema_value sem)\<rparr>) (semas k s))"
  by (simp_all add: bump_def)

lemma waiting_bump [simp]: "waiting (bump s f k) = waiting k"
  by (auto simp: waiting_def fun_eq_iff split: option.splits)

lemma projections_bump [simp]: "elem_of (bump s f k) = elem_of k" "prio (bump s f k) = prio k" "wake_time (bump s f k) = wake_time k"
  by (simp_all add: elem_of_def prio_def wake_time_def fun_eq_iff)

lemma core_bump [simp]: "core (bump s f k) = core k"
  using core_prio_fun [of "bump s f k" k] core_wake_fun [of "bump s f k" k]
  by (simp add: core_def elems_ok_def order_ok_def threads_ok_def alarm_ok_def)

lemma status_bump [simp]: "status_ok X r (bump s f k) = status_ok X r k"
  by (rule status_ok_cong) simp_all

lemma idle_bump [simp]: "idle_ok (bump s f k) = idle_ok k"
  by (rule idle_ok_cong) simp_all

lemma set_sema_bump: "semas k s = Some sem \<Longrightarrow> set_sema s (sem\<lparr>sema_value := f (sema_value sem)\<rparr>) k = bump s f k"
  by (cases sem) (simp add: set_sema_def bump_def)

lemma bump_value [simp]:
  "map_option sema_value (map_option (\<lambda>sem. sem\<lparr>sema_value := f (sema_value sem)\<rparr>) x) = map_option f (map_option sema_value x)"
  by (cases x) simp_all

lemma same_sync_bump: "same_sync k k' \<Longrightarrow> same_sync (bump s f k) (bump s f k')"
  by (simp add: same_sync_def)

lemma same_sync_level [simp]: "same_sync k (k'\<lparr>level := l\<rparr>) = same_sync k k'" "same_sync (k\<lparr>level := l\<rparr>) k' = same_sync k k'"
  by (simp_all add: same_sync_def)

lemma same_sync_push: "same_sync k k' \<Longrightarrow> cur k' = cur k \<Longrightarrow> same_sync (push_frame f k) (push_frame f k')"
  by (simp add: same_sync_def)

lemma good_other [simp]:
  "good (k\<lparr>level := v1\<rparr>) = good k" "good (k\<lparr>in_external_intr := v2\<rparr>) = good k"
  "good (k\<lparr>yield_on_return := v2\<rparr>) = good k" "good (k\<lparr>load_avg := v3\<rparr>) = good k"
  "good (k\<lparr>idle_ticks := v3\<rparr>) = good k" "good (k\<lparr>kernel_ticks := v3\<rparr>) = good k"
  "good (k\<lparr>thread_ticks := v4\<rparr>) = good k" "good (k\<lparr>next_tid := v3\<rparr>) = good k"
  "good (k\<lparr>conds := v5\<rparr>) = good k" "good (k\<lparr>ticks := v3\<rparr>) = good k" "good (k\<lparr>locks := v6\<rparr>) = good k"
  "good (k\<lparr>frames := v7\<rparr>) = good k" "good (push_frame f k) = good k" "good (pop_frame k) = good k"
  "good (bump s g k) = good k"
  by (simp_all add: good_def pop_frame_def)

text \<open>Waiting on a semaphore.\<close>

lemma wait_good:
  assumes "good k" and "cur k \<noteq> idle_thread k" and "sema_insert s (cur k) k = Some k1"
    and "thread_block (push_frame f k1) = Some k'"
  shows "good k'" and "same_sync (push_frame f k) k'" and "level k' = INTR_OFF"
proof -
  obtain th where th: "threads k (cur k) = Some th" "status th = THREAD_RUNNING" "elem th = Unlinked"
    "cur k \<notin> set (alarm_list k)" "cur k \<in> set (all_list k)" by (rule good_cur [OF assms(1)]) blast
  have g: "core k" "status_ok {} (Some (cur k)) k" "idle_ok k" using assms(1) by (simp_all add: good_def)
  obtain sem where k1: "k1 = upd_thread (cur k) (elem_update (\<lambda>_. In_sema s))
       (set_sema s (sem\<lparr>sema_waiters := insort_by (thread_priority_large_func k) (cur k) (sema_waiters sem)\<rparr>) k)"
    using assms(3) unfolding sema_insert_iff by blast
  have c1: "cur k1 = cur k" by (simp add: k1)
  have 1: "core (push_frame f k1)" using core_sema_insert [OF g(1) assms(3)] by simp
  have "status_ok {cur k} (Some (cur k)) k" using g(2) by (rule status_ok_mono) simp
  then have 2: "status_ok {cur (push_frame f k1)} (Some (cur (push_frame f k1))) (push_frame f k1)"
    by (simp add: c1) (simp add: k1 status_ok_exempt_upd)
  have "idle_ok (upd_thread (cur k) (elem_update (\<lambda>_. In_sema s))
      (set_sema s (sem\<lparr>sema_waiters := insort_by (thread_priority_large_func k) (cur k) (sema_waiters sem)\<rparr>) k))"
    by (rule idle_ok_upd) (use g(3) assms(2) in simp_all)
  then have 3: "idle_ok (push_frame f k1)" by (simp add: k1)
  have 4: "cur (push_frame f k1) \<notin> set (alarm_list (push_frame f k1)) \<or> elem_of (push_frame f k1) (cur (push_frame f k1)) = Some Unlinked"
    "elem_of (push_frame f k1) (cur (push_frame f k1)) \<noteq> Some In_ready" "cur (push_frame f k1) \<in> set (all_list (push_frame f k1))"
    using th by (auto simp: k1 elem_of_def)
  note b = thread_block_good [OF 1 2 3 assms(4) 4]
  show "good k'" "level k' = INTR_OFF" using b by simp_all
  show "same_sync (push_frame f k) k'"
    using same_sync_trans [OF same_sync_push [OF same_sync_sema_insert [OF assms(3)] c1] b(2)] .
qed

lemma sema_down_loop_good:
  assumes "good k" and "cur k \<noteq> idle_thread k" and "sema_down_loop s l k = Some k'"
  shows "good k'" and "same_sync (push_frame (Sema_down_rest s l) k) k' \<or> same_sync (bump s (\<lambda>v. v - 1) k) k'"
proof -
  obtain sem where s: "semas k s = Some sem" using assms(3) by (auto simp: sema_down_loop_def bind_eq_Some_conv)
  have "good k' \<and> (same_sync (push_frame (Sema_down_rest s l) k) k' \<or> same_sync (bump s (\<lambda>v. v - 1) k) k')"
  proof (cases "sema_value sem = 0")
    case True
    then obtain k1 where "sema_insert s (cur k) k = Some k1" "thread_block (push_frame (Sema_down_rest s l) k1) = Some k'"
      using assms(3) s by (auto simp: sema_down_loop_def bind_eq_Some_conv good_thread_current [OF assms(1)])
    then show ?thesis using wait_good [OF assms(1,2)] by blast
  next
    case False
    then have "k' = (bump s (\<lambda>v. v - 1) k)\<lparr>level := l\<rparr>"
      using assms(3) s by (auto simp: sema_down_loop_def restore_level_iff bump_def set_sema_def)
    then show ?thesis using assms(1) by simp
  qed
  then show "good k'" "same_sync (push_frame (Sema_down_rest s l) k) k' \<or> same_sync (bump s (\<lambda>v. v - 1) k) k'" by blast+
qed

lemma sema_try_down_good:
  assumes "good k" and "sema_try_down s k = Some (b, k')"
  shows "good k'" and "if b then same_sync (bump s (\<lambda>v. v - 1) k) k' \<and> (\<exists>sem. semas k s = Some sem \<and> sema_value sem > 0) else same_sync k k'"
    and "cur k' = cur k"
proof -
  obtain sem where s: "semas k s = Some sem" "b \<longleftrightarrow> sema_value sem > 0"
    using assms(2) by (auto simp: sema_try_down_def intr_disable_def bind_eq_Some_conv Let_def)
  then have "k' = (if b then bump s (\<lambda>v. v - 1) k else k)"
    using assms(2)
    by (auto simp: sema_try_down_def intr_disable_def intr_get_level_def bind_eq_Some_conv restore_level_iff Let_def
        bump_def set_sema_def split: if_splits)
  then show "good k'" "if b then same_sync (bump s (\<lambda>v. v - 1) k) k' \<and> (\<exists>sem. semas k s = Some sem \<and> sema_value sem > 0) else same_sync k k'"
    "cur k' = cur k"
    using assms(1) s by auto
qed


lemma unlink_all_eq:
  "unlink_all ts k = k\<lparr>threads := (\<lambda>t. if t \<in> set ts then map_option (elem_update (\<lambda>_. Unlinked)) (threads k t) else threads k t)\<rparr>"
proof (induction ts arbitrary: k)
  case Nil
  then show ?case by (simp add: unlink_all_def)
next
  case (Cons t ts)
  have "unlink_all (t # ts) k = unlink_all ts (upd_thread t (elem_update (\<lambda>_. Unlinked)) k)" by (simp add: unlink_all_def)
  moreover have "(\<lambda>u. if u \<in> set ts then map_option (elem_update (\<lambda>_. Unlinked)) (threads (upd_thread t (elem_update (\<lambda>_. Unlinked)) k) u)
      else threads (upd_thread t (elem_update (\<lambda>_. Unlinked)) k) u) =
    (\<lambda>u. if u \<in> set (t # ts) then map_option (elem_update (\<lambda>_. Unlinked)) (threads k u) else threads k u)"
    by (auto simp: fun_eq_iff option.map_comp comp_def)
  ultimately show ?case unfolding Cons.IH by (simp add: upd_thread_def)
qed

lemma sema_init_eq:
  "sema_init s v k = Some k' \<longleftrightarrow> s \<noteq> Sema NULL \<and>
     k' = k\<lparr>threads := (\<lambda>t. if t \<in> set (waiting k s) then map_option (elem_update (\<lambda>_. Unlinked)) (threads k t) else threads k t),
       semas := (semas k)(s \<mapsto> \<lparr>sema_value = v, sema_waiters = []\<rparr>)\<rparr>"
  by (auto simp: sema_init_def unlink_all_eq waiting_def Let_def split: option.splits)

lemma sema_init_good:
  assumes "good k" and "sema_init s v k = Some k'"
  shows "good k'" and "same_sync (k\<lparr>semas := (semas k)(s \<mapsto> \<lparr>sema_value = v, sema_waiters = []\<rparr>)\<rparr>) k'" and "cur k' = cur k"
    "level k' = level k" "conds k' = conds k" "\<And>t. map_option status (threads k' t) = map_option status (threads k t)"
proof -
  have k': "k' = k\<lparr>threads := (\<lambda>t. if t \<in> set (waiting k s) then map_option (elem_update (\<lambda>_. Unlinked)) (threads k t) else threads k t),
       semas := (semas k)(s \<mapsto> \<lparr>sema_value = v, sema_waiters = []\<rparr>)\<rparr>" using assms(2) by (simp add: sema_init_eq)
  have g: "core k" "status_ok {} (Some (cur k)) k" "idle_ok k" using assms(1) by (simp_all add: good_def)
  have p: "prio k' = prio k" "wake_time k' = wake_time k" by (auto simp: k' prio_def wake_time_def fun_eq_iff split: option.splits)
  have el: "elem_of k' t = (if t \<in> set (waiting k s) then Some Unlinked else elem_of k t)" for t
  proof -
    have "elem_of k t \<noteq> None" if "t \<in> set (waiting k s)" using that g(1) by (simp add: core_def elems_ok_def)
    then show ?thesis by (auto simp: elem_of_def k' map_option_case split: option.splits)
  qed
  have w: "waiting k' = (waiting k)(s := [])" by (simp add: k' waiting_def fun_eq_iff)
  have r: "ready_list k' = ready_list k" "thread_mlfqs k' = thread_mlfqs k" "alarm_list k' = alarm_list k" "all_list k' = all_list k" by (simp_all add: k')
  have "elems_ok k'" using g(1) unfolding core_def elems_ok_def by (auto simp: el w r)
  moreover have "order_ok k'" using g(1) unfolding core_def order_ok_def core_prio_fun [OF p(1)] w r by auto
  moreover have "threads_ok k'" using g(1) unfolding core_def by (auto simp: threads_ok_def k' split: if_splits)
  ultimately have "core k'" using coreI [OF g(1)] p r by blast
  moreover have "status_ok {} (Some (cur k)) k'"
  proof -
    have "status_at (Some (cur k)) k' t uh" if uh: "threads k' t = Some uh" for t uh
    proof -
      obtain th where "threads k t = Some th" "status uh = status th" "elem uh = elem th \<or> elem uh = Unlinked"
        using uh by (auto simp: k' split: if_splits)
      moreover from this have "status_at (Some (cur k)) k t th" using g(2) by (simp add: status_ok_def)
      ultimately show ?thesis by (elim disjE) (simp_all add: status_at_def r)
    qed
    moreover have "Some (cur k) \<noteq> Some t \<and> t \<notin> set (alarm_list k') \<and> t \<notin> set (all_list k')" if "threads k' t = None" for t
    proof -
      have "threads k t = None" using that by (auto simp: k' split: if_splits)
      then show ?thesis using g(2) by (simp add: status_ok_def r)
    qed
    ultimately show ?thesis by (simp add: status_ok_def)
  qed
  moreover have "idle_ok k'" using g(3) by (auto simp: idle_ok_def k')
  ultimately show "good k'" by (simp add: good_def k')
  show "same_sync (k\<lparr>semas := (semas k)(s \<mapsto> \<lparr>sema_value = v, sema_waiters = []\<rparr>)\<rparr>) k'"
    by (auto simp: k' same_sync_def split: if_splits)
  show "cur k' = cur k" "level k' = level k" "conds k' = conds k" by (simp_all add: k')
  show "map_option status (threads k' t) = map_option status (threads k t)" for t
    by (auto simp: k' option.map_comp comp_def)
qed

lemma thread_unblock_idle:
  assumes "idle_ok k" and "thread_unblock t k = Some k'"
  shows "idle_ok k'"
proof -
  obtain k1 where k1: "ready_insert t k = Some k1" "k' = set_status t THREAD_READY k1"
    using assms(2) unfolding thread_unblock_iff by blast
  have "idle_ok (upd_thread t (elem_update (\<lambda>_. In_ready))
      (k\<lparr>ready_list := insort_by (thread_priority_large_func k) t (ready_list k)\<rparr>))"
    by (rule idle_ok_upd) (use assms(1) in simp_all)
  then have "idle_ok k1" using k1(1) by (simp add: ready_insert_iff)
  then show ?thesis unfolding k1(2) set_status_def by (rule idle_ok_upd) simp_all
qed

lemma sema_wake_good:
  assumes "good k" and "sema_wake s k = Some (b, k')"
  shows "good k'" and "same_sync k k'" and "cur k' = cur k" and "level k' = level k" 
proof -
  have g: "core k" "status_ok {} (Some (cur k)) k" "idle_ok k" using assms(1) by (simp_all add: good_def)
  obtain sem where s: "semas k s = Some sem" using assms(2) by (auto simp: sema_wake_def bind_eq_Some_conv)
  have "good k' \<and> same_sync k k' \<and> cur k' = cur k \<and> level k' = level k"
  proof (cases "sema_waiters sem")
    case Nil
    then show ?thesis using assms s by (simp add: sema_wake_def)
  next
    case (Cons t ts)
    let ?k1 = "upd_thread t (elem_update (\<lambda>_. Unlinked)) (set_sema s (sem\<lparr>sema_waiters := ts\<rparr>) k)"
    have u: "thread_unblock t ?k1 = Some k'" using assms(2) s Cons by (auto simp: sema_wake_def bind_eq_Some_conv Let_def)
    have "t \<in> set (waiting k s)" using s Cons by (simp add: waiting_def)
    then have e: "elem_of k t = Some (In_sema s)" using g(1) by (auto simp: core_def elems_ok_def)
    have er: "elem_remove t k = Some ?k1" unfolding elem_remove_iff using e s Cons by (simp add: set_sema_def upd_thread_def)
    note c1 = core_elem_remove [OF g(1) er] and s1 = status_elem_remove [OF g(2) er]
    obtain th where th: "threads k t = Some th" "elem th = In_sema s" using e by (auto simp: elem_of_def)
    then have "status_at (Some (cur k)) k t th" using g(2) by (simp add: status_ok_def)
    then have al: "t \<notin> set (alarm_list k)" using th(2) by (auto simp: status_at_def)
    note ub = thread_unblock_core [OF c1 s1 u]
    have "k'\<lparr>alarm_list := alarm_list k\<rparr> = k'" using ub(5) by simp
    then have "status_ok {} (Some (cur k)) k'" using ub(10) [of "alarm_list k"] al by simp
    moreover have "idle_ok ?k1" by (rule idle_ok_upd) (use g(3) in simp_all)
    then have "idle_ok k'" using u by (rule thread_unblock_idle)
    ultimately show ?thesis using ub same_sync_trans [OF same_sync_elem_remove [OF er] ub(2)] by (simp add: good_def)
  qed
  then show "good k'" and "same_sync k k'" and "cur k' = cur k" and "level k' = level k" by blast+
qed

lemma sema_up_good:
  assumes "good k" and "sema_up s k = Some k'"
  shows "good k'" and "same_sync (bump s (\<lambda>v. v + 1) k) k' \<or> same_sync (push_frame (Yield_rest (level k)) (bump s (\<lambda>v. v + 1) k)) k'"
proof -
  obtain y k2 sem where w: "sema_wake s (k\<lparr>level := INTR_OFF\<rparr>) = Some (y, k2)" and sem: "semas k2 s = Some sem"
    and k0: "(if y \<and> \<not> in_external_intr k2 then thread_yield ((set_sema s (sem\<lparr>sema_value := sema_value sem + 1\<rparr>) k2)\<lparr>level := level k\<rparr>)
        else Some ((set_sema s (sem\<lparr>sema_value := sema_value sem + 1\<rparr>) k2)\<lparr>level := level k\<rparr>)) = Some k'"
    using assms(2)
    by (auto simp: sema_up_def intr_disable_def intr_get_level_def intr_context_def Let_def bind_eq_Some_conv restore_level_iff)
  have k': "(if y \<and> \<not> in_external_intr k2 then thread_yield ((bump s (\<lambda>v. v + 1) k2)\<lparr>level := level k\<rparr>)
        else Some ((bump s (\<lambda>v. v + 1) k2)\<lparr>level := level k\<rparr>)) = Some k'"
    using k0 unfolding set_sema_bump [of k2 s sem "\<lambda>v. v + 1", OF sem] .
  have "good (k\<lparr>level := INTR_OFF\<rparr>)" using assms(1) by simp
  note w = sema_wake_good [OF this w]
  let ?k3 = "(bump s (\<lambda>v. v + 1) k2)\<lparr>level := level k\<rparr>"
  have 3: "good ?k3" "same_sync (bump s (\<lambda>v. v + 1) k) ?k3" "cur ?k3 = cur k"
    using w same_sync_bump [of k k2] by simp_all
  have "good k' \<and> (same_sync (bump s (\<lambda>v. v + 1) k) k' \<or> same_sync (push_frame (Yield_rest (level k)) (bump s (\<lambda>v. v + 1) k)) k')"
  proof (cases "y \<and> \<not> in_external_intr k2")
    case True
    then have "thread_yield ?k3 = Some k'" using k' by simp
    note y = thread_yield_good [OF 3(1) this]
    have "same_sync (push_frame (Yield_rest (level k)) (bump s (\<lambda>v. v + 1) k)) (push_frame (Yield_rest (level k)) ?k3)"
      using same_sync_push [OF 3(2)] 3(3) by simp
    then show ?thesis using y same_sync_trans by simp
  next
    case False
    then show ?thesis using k' 3 by auto
  qed
  then show "good k'" "same_sync (bump s (\<lambda>v. v + 1) k) k' \<or> same_sync (push_frame (Yield_rest (level k)) (bump s (\<lambda>v. v + 1) k)) k'"
    by blast+
qed

section \<open>Locks and donation\<close>

lemma core_upd_unlinked:
  assumes "core k" and "elem_of k t = Some Unlinked"
    and "\<And>th. elem (f th) = elem th" "\<And>th. wake_up_time (f th) = wake_up_time th" "\<And>th. magic (f th) = magic th"
    and "\<And>th. threads k t = Some th \<Longrightarrow> don_ok th \<Longrightarrow> don_ok (f th)"
  shows "core (upd_thread t f k)"
proof -
  let ?k = "upd_thread t f k"
  have q: "t \<notin> set (ready_list k)" "\<And>s. t \<notin> set (waiting k s)" using assms(1,2) by (auto simp: core_def elems_ok_def)
  have p: "prio ?k u = prio k u" if "u \<noteq> t" for u using that by (simp add: prio_def)
  have o: "ord_by (thread_priority_large_func ?k) xs = ord_by (thread_priority_large_func k) xs" if "t \<notin> set xs" for xs
    by (intro ord_prio_cong p) (use that in auto)
  have "elems_ok ?k" using assms(1) assms(3) by (simp add: core_def elems_ok_def)
  moreover have "order_ok ?k" using assms(1) o q by (simp add: core_def order_ok_def)
  moreover have "threads_ok ?k" using assms(1) assms(5,6) by (auto simp: core_def threads_ok_def split: if_splits)
  ultimately show ?thesis using coreI [OF assms(1)] assms(4) by simp
qed

lemma status_ready_insert:
  assumes "status_ok {} r k" and "ready_insert t k = Some k'" and "threads k t = Some th"
    and "status th = THREAD_READY \<or> status th = THREAD_BLOCKED" and "t \<notin> set (alarm_list k)"
  shows "status_ok {} r k'"
proof -
  have k': "threads k' = (threads k)(t \<mapsto> th\<lparr>elem := In_ready\<rparr>)" "alarm_list k' = alarm_list k" "all_list k' = all_list k"
    using assms(2,3) by (auto simp: ready_insert_iff)
  have "status_at r k' u uh" if "threads k' u = Some uh" for u uh
  proof (cases "u = t")
    case True
    have "status_at r k t th" using assms(1,3) by (simp add: status_ok_def)
    then show ?thesis using that True assms(4,5) unfolding k' by (auto simp: status_at_def k')
  next
    case False
    then show ?thesis using that assms(1) unfolding k' by (auto simp: status_at_def k' status_ok_def)
  qed
  then show ?thesis using assms(1) unfolding status_ok_def k' by (auto split: if_splits)
qed

lemma elem_remove_upd:
  assumes "\<And>th. elem (f th) = elem th" and "\<And>th. f (th\<lparr>elem := Unlinked\<rparr>) = (f th)\<lparr>elem := Unlinked\<rparr>"
  shows "elem_remove t (upd_thread t f k) = map_option (upd_thread t f) (elem_remove t k)"
proof (cases "threads k t")
  case None
  then show ?thesis by (simp add: elem_remove_def)
next
  case (Some th)
  then show ?thesis
    by (cases "elem th") (simp_all add: elem_remove_def assms upd_thread_def split: bind_splits)
qed

lemma donate_good:
  assumes "good k" and "donate l h p k = Some k'" and "l \<noteq> NULL" "PRI_MIN \<le> p" "p \<le> PRI_MAX"
  shows "good k'" and "same_sync k k'" and "cur k' = cur k" and "level k' = level k"
proof -
  have g: "core k" "status_ok {} (Some (cur k)) k" "idle_ok k" using assms(1) by (simp_all add: good_def)
  obtain th where th: "threads k h = Some th" "stored_index th < 30" using assms(2) by (auto simp: donate_def bind_eq_Some_conv)
  have "elem_remove h (upd_thread h (push_donation l p) k) = map_option (upd_thread h (push_donation l p)) (elem_remove h k)"
    by (rule elem_remove_upd) (simp_all add: push_donation_def Let_def)
  then obtain k0 where k0: "elem_remove h k = Some k0" and ri: "ready_insert h (upd_thread h (push_donation l p) k0) = Some k'"
    using assms(2) th by (auto simp: donate_def bind_eq_Some_conv)
  let ?k1 = "upd_thread h (push_donation l p) k0"
  have t0: "threads k0 h = Some (th\<lparr>elem := Unlinked\<rparr>)" using k0 th by (auto simp: elem_remove_iff)
  have r0: "alarm_list k0 = alarm_list k" "cur k0 = cur k" "level k0 = level k" using k0 by (auto simp: elem_remove_iff)
  have c1: "core ?k1"
    by (rule core_upd_unlinked [OF core_elem_remove [OF g(1) k0]])
      (use t0 th assms(3-5) in \<open>auto simp: elem_of_def intro: push_donation_ok\<close>)
  have s1: "status_ok {} (Some (cur k)) ?k1"
    using status_elem_remove [OF g(2) k0] status_ok_upd [of "push_donation l p" "{}" "Some (cur k)" h k0] by simp
  have "status_at (Some (cur k)) k h th" using g(2) th(1) by (simp add: status_ok_def)
  then have sh: "status th = THREAD_READY \<or> status th = THREAD_BLOCKED" "h \<notin> set (alarm_list k)"
    using k0 th(1) by (auto simp: status_at_def elem_remove_iff elem_of_def)
  have "status_ok {} (Some (cur k)) k'"
    by (rule status_ready_insert [OF s1 ri, of "push_donation l p (th\<lparr>elem := Unlinked\<rparr>)"]) (use t0 sh r0 in auto)
  moreover have "core k'" by (rule core_ready_insert [OF c1 ri])
  moreover have "idle_ok k'"
  proof -
    have "idle_ok (upd_thread h (elem_update (\<lambda>_. Unlinked)) k)" by (rule idle_ok_upd) (use g(3) in simp_all)
    then have "idle_ok k0" using k0 unfolding elem_remove_iff by (elim disjE conjE exE) simp_all
    then have "idle_ok ?k1" by (rule idle_ok_upd) simp_all
    then have "idle_ok (upd_thread h (elem_update (\<lambda>_. In_ready)) (?k1\<lparr>ready_list := insort_by (thread_priority_large_func ?k1) h (ready_list ?k1)\<rparr>))"
      by (intro idle_ok_upd) simp_all
    then show ?thesis using ri by (simp only: ready_insert_iff)
  qed
  moreover show "cur k' = cur k" "level k' = level k" using ri r0 by (auto simp: ready_insert_iff)
  ultimately show "good k'" by (simp add: good_def)
  show "same_sync k k'"
    using same_sync_elem_remove [OF k0] same_sync_upd same_sync_ready_insert [OF ri] same_sync_trans by blast
qed

lemma lock_acquire_loop_good:
  assumes "good k" and "cur k \<noteq> idle_thread k" and "l \<noteq> NULL" and "lock_acquire_loop l ol k = Some k'"
  shows "good k'" and "same_sync (push_frame (Lock_acquire_rest l ol) k) k' \<or>
    (\<exists>sem. semas k (Lock_sema l) = Some sem \<and> sema_value sem \<noteq> 0 \<and>
      same_sync ((bump (Lock_sema l) (\<lambda>v. v - 1) k)\<lparr>locks := (locks k)(l \<mapsto> cur k)\<rparr>) k')"
proof -
  obtain cth where cth: "threads k (cur k) = Some cth" "don_ok cth" by (rule good_cur [OF assms(1)]) blast
  obtain sem h where s: "semas k (Lock_sema l) = Some sem" "locks k l = Some h"
    using assms(4) by (auto simp: lock_acquire_loop_def bind_eq_Some_conv)
  have "good k' \<and> (same_sync (push_frame (Lock_acquire_rest l ol) k) k' \<or>
    (\<exists>sem. semas k (Lock_sema l) = Some sem \<and> sema_value sem \<noteq> 0 \<and>
      same_sync ((bump (Lock_sema l) (\<lambda>v. v - 1) k)\<lparr>locks := (locks k)(l \<mapsto> cur k)\<rparr>) k'))"
  proof (cases "sema_value sem = 0")
    case True
    then obtain hth k1 k2 where "threads k h = Some hth" and 1: "(if priority hth < prio k (cur k) then donate l h (prio k (cur k)) k else Some k) = Some k1"
        "sema_insert (Lock_sema l) (cur k) k1 = Some k2" "thread_block (push_frame (Lock_acquire_rest l ol) k2) = Some k'"
      using assms(4) s by (simp add: lock_acquire_loop_def bind_eq_Some_conv good_thread_current [OF assms(1)]) blast
    have p: "PRI_MIN \<le> prio k (cur k)" "prio k (cur k) \<le> PRI_MAX" using cth by (simp_all add: prio_def don_ok_def)
    have g1: "good k1" "same_sync k k1" "cur k1 = cur k" "idle_thread k1 = idle_thread k"
      using 1(1) donate_good [OF assms(1) _ assms(3) p] assms(1)
      by (auto split: if_splits simp: same_sync_def)
    have c: "cur k1 \<noteq> idle_thread k1" and i: "sema_insert (Lock_sema l) (cur k1) k1 = Some k2" using g1 assms(2) 1(2) by simp_all
    show ?thesis using wait_good [OF g1(1) c i 1(3)] same_sync_push [OF g1(2,3)] same_sync_trans by blast
  next
    case False
    then have "k' = (set_sema (Lock_sema l) (sem\<lparr>sema_value := sema_value sem - 1\<rparr>) k)\<lparr>locks := (locks k)(l \<mapsto> cur k), level := ol\<rparr>"
      using assms(4) s by (auto simp: lock_acquire_loop_def restore_level_iff good_thread_current [OF assms(1)])
    then have "k' = (bump (Lock_sema l) (\<lambda>v. v - 1) k)\<lparr>locks := (locks k)(l \<mapsto> cur k), level := ol\<rparr>"
      unfolding set_sema_bump [of k "Lock_sema l" sem "\<lambda>v. v - 1", OF s(1)] .
    then show ?thesis using assms(1) False s(1) by simp
  qed
  then show "good k'" "same_sync (push_frame (Lock_acquire_rest l ol) k) k' \<or>
    (\<exists>sem. semas k (Lock_sema l) = Some sem \<and> sema_value sem \<noteq> 0 \<and>
      same_sync ((bump (Lock_sema l) (\<lambda>v. v - 1) k)\<lparr>locks := (locks k)(l \<mapsto> cur k)\<rparr>) k')" by blast+
qed

lemma good_upd_cur:
  assumes "good k" and "\<And>th. elem (f th) = elem th" "\<And>th. wake_up_time (f th) = wake_up_time th" "\<And>th. magic (f th) = magic th"
    and "\<And>th. status (f th) = status th" and "\<And>th. threads k (cur k) = Some th \<Longrightarrow> don_ok th \<Longrightarrow> don_ok (f th)"
  shows "good (upd_thread (cur k) f k)"
proof -
  obtain th where "threads k (cur k) = Some th" "elem th = Unlinked" by (rule good_cur [OF assms(1)]) blast
  then have e: "elem_of k (cur k) = Some Unlinked" by (simp add: elem_of_def)
  have g: "core k" "status_ok {} (Some (cur k)) k" "idle_ok k" using assms(1) by (simp_all add: good_def)
  have "core (upd_thread (cur k) f k)" by (rule core_upd_unlinked [OF g(1) e assms(2-4) assms(6)])
  moreover have "idle_ok (upd_thread (cur k) f k)" by (rule idle_ok_upd [OF g(3)]) (use assms in simp_all)
  ultimately show ?thesis using g(2) status_ok_upd [of f "{}" "Some (cur k)" "cur k" k] assms by (simp add: good_def)
qed

lemma lock_release_good:
  assumes "good k" and "l \<noteq> NULL" and "lock_release l k = Some k'"
  defines "k1 \<equiv> push_frame (Lock_release_rest (level k)) (bump (Lock_sema l) (\<lambda>v. v + 1) (k\<lparr>locks := (locks k)(l \<mapsto> NULL)\<rparr>))"
  shows "good k'" and "same_sync k1 k' \<or> same_sync (push_frame (Yield_rest INTR_OFF) k1) k'" and "locks k l = Some (cur k)"
proof -
  obtain th where th: "threads k (cur k) = Some th" "don_ok th" by (rule good_cur [OF assms(1)]) blast
  have c: "thread_current k = Some (cur k)" "thread_current (k\<lparr>level := INTR_OFF\<rparr>) = Some (cur k)"
    using good_thread_current [OF assms(1)] by (simp_all add: thread_current_iff)
  let ?k2 = "\<lambda>th'. k\<lparr>level := INTR_OFF, threads := (threads k)(cur k \<mapsto> th'), locks := (locks k)(l \<mapsto> NULL)\<rparr>"
  obtain th' where h: "locks k l = Some (cur k)" and r: "release_donations l th = Some th'"
    and u: "sema_up (Lock_sema l) (push_frame (Lock_release_rest (level k)) (?k2 th')) = Some k'"
    using assms(3) th c
    by (auto simp: lock_release_def lock_held_by_current_thread_def bind_eq_Some_conv intr_disable_def intr_get_level_def)
  show "locks k l = Some (cur k)" by (rule h)
  note R = release_donations_ok [OF th(2) assms(2) r]
  let ?f = "\<lambda>x. x\<lparr>stored_priority := stored_priority th', stored_lock_master := stored_lock_master th',
       stored_index := stored_index th', priority := priority th', priority_lock_master := priority_lock_master th'\<rparr>"
  obtain t1 where t1: "release_donations l th = Some t1"
    "t1 = th\<lparr>stored_priority := stored_priority t1, stored_lock_master := stored_lock_master t1,
       stored_index := stored_index t1, priority := priority t1, priority_lock_master := priority_lock_master t1\<rparr>"
    by (rule release_donations_stack [OF th(2) assms(2)]) blast
  have f: "?f th = th'" using t1 r by simp
  have "good (upd_thread (cur k) ?f k)"
    by (rule good_upd_cur [OF assms(1)]) (use th R(1) f in \<open>simp_all add: fun_upd_idem\<close>)
  then have g2: "good (push_frame (Lock_release_rest (level k)) (?k2 th'))"
  proof -
    assume g: "good (upd_thread (cur k) ?f k)"
    have "?k2 th' = (upd_thread (cur k) ?f k)\<lparr>level := INTR_OFF, locks := (locks k)(l \<mapsto> NULL)\<rparr>"
      using th(1) f by (simp add: upd_thread_def)
    then show ?thesis using g by simp
  qed
  have sy: "same_sync k1 (bump (Lock_sema l) (\<lambda>v. v + 1) (push_frame (Lock_release_rest (level k)) (?k2 th')))"
    "cur (?k2 th') = cur k" unfolding k1_def using th(1) by (auto simp: same_sync_def split: if_splits)
  note S = sema_up_good [OF g2 u]
  show "good k'" by (rule S(1))
  show "same_sync k1 k' \<or> same_sync (push_frame (Yield_rest INTR_OFF) k1) k'"
    using S(2) same_sync_trans [OF sy(1)] same_sync_trans [OF same_sync_push [OF sy(1), of "Yield_rest INTR_OFF"]]
    by (auto simp: k1_def)
qed

end
