(* ===== verification/Kernel_Safety.thy ===== *)
theory Kernel_Safety
  imports Kernel_Inv
begin

text \<open>
  The invariant of the transition system of \<open>Kernel_Steps\<close> and that every step keeps it. To the
  invariants of \<open>Kernel_Inv\<close> it adds

  \<^item> \<open>stacks_ok\<close>: which frames can lie on top of which, that a thread under construction has not
    run yet, and that the idle thread is in its own loop;
  \<^item> \<open>lock_ok\<close>: every lock is free and its semaphore is up, or it has exactly one owner and its
    semaphore is down. A thread in the middle of \<open>lock_try_acquire\<close> counts as an owner.
\<close>

section \<open>Stacks\<close>

text \<open>Frames that any code can be interrupted by, and frames of a thread that has just started
  or is the idle thread; a frame can only lie on frames of higher rank.\<close>

fun light :: "frame \<Rightarrow> bool" where
  "light (Yield_rest _) = True"
| "light Intr_return = True"
| "light _ = False"

fun starting :: "frame \<Rightarrow> bool" where
  "starting (Kernel_thread _ _) = True"
| "starting (Idle_start _) = True"
| "starting Idle_loop = True"
| "starting Idle_wake = True"
| "starting _ = False"

fun rank :: "frame \<Rightarrow> nat" where
  "rank Body = 4"
| "rank (Thread_start_rest _) = 3"
| "rank (Alloc_tid _) = 2"
| "rank (Alloc_tid_done _ _) = 2"
| "rank (Cond_wait_sema _) = 2"
| "rank (Cond_wait_lock _) = 2"
| "rank (Cond_broadcast_rest _ _) = 2"
| "rank (Yield_rest _) = 0"
| "rank Intr_return = 0"
| "rank _ = 1"

definition above :: "frame \<Rightarrow> frame \<Rightarrow> bool" where
  "above f g \<longleftrightarrow> light f \<or> rank f < rank g \<and> \<not> starting f"

fun creates :: "frame \<Rightarrow> addr option" where
  "creates (Alloc_tid (For_create t _ _)) = Some t"
| "creates (Alloc_tid_done (For_create t _ _) _) = Some t"
| "creates _ = None"

definition creating :: "kernel \<Rightarrow> addr \<Rightarrow> addr \<Rightarrow> bool" where
  "creating k u t \<longleftrightarrow> (\<exists>f \<in> set (frames k u). creates f = Some t)"

definition idling :: "frame \<Rightarrow> bool" where
  "idling f \<longleftrightarrow> light f \<or> f = Idle_loop \<or> f = Idle_wake"

definition stacks_ok :: "kernel \<Rightarrow> bool" where
  "stacks_ok k \<longleftrightarrow> (\<forall>t. sorted_wrt above (frames k t))
     \<and> (\<forall>t. threads k t = None \<longrightarrow> frames k t = [])
     \<and> (\<forall>u t. creating k u t \<longrightarrow> threads k t \<noteq> None \<and> t \<noteq> idle_thread k \<and> (\<forall>f \<in> set (frames k t). light f))
     \<and> (\<forall>u v t. creating k u t \<and> creating k v t \<longrightarrow> u = v)
     \<and> (\<forall>f \<in> set (frames k (idle_thread k)). idling f)
     \<and> (idle_thread k \<noteq> NULL \<longrightarrow> threads k (idle_thread k) \<noteq> None)"

lemma creates_rank: "creates f = Some t \<Longrightarrow> rank f = 2 \<and> \<not> starting f \<and> \<not> light f"
  by (cases f) (auto split: tid_user.splits)

lemma light_rank: "light f \<longleftrightarrow> rank f = 0"
  by (cases f) simp_all

lemma rank_le: "rank f \<le> 4"
  by (cases f) simp_all

lemma starting_rank: "starting f \<Longrightarrow> rank f = 1"
  by (cases f) simp_all

lemma stacks_ok_cong:
  assumes "frames k' = frames k" "dom (threads k') = dom (threads k)" "idle_thread k' = idle_thread k"
  shows "stacks_ok k' = stacks_ok k"
proof -
  have "threads k' t = None \<longleftrightarrow> threads k t = None" for t using assms(2) by (metis domIff)
  then show ?thesis using assms by (simp add: stacks_ok_def creating_def)
qed

lemma stacks_ok_sync: "same_sync k k' \<Longrightarrow> stacks_ok k' = stacks_ok k"
  by (rule stacks_ok_cong) (simp_all add: same_sync_def)

lemma stacksD:
  assumes "stacks_ok k"
  shows "sorted_wrt above (frames k t)" "threads k t = None \<Longrightarrow> frames k t = []"
    "creating k u t \<Longrightarrow> threads k t \<noteq> None" "creating k u t \<Longrightarrow> f \<in> set (frames k t) \<Longrightarrow> light f"
    "creating k u t \<Longrightarrow> creating k v t \<Longrightarrow> u = v" "f \<in> set (frames k (idle_thread k)) \<Longrightarrow> idling f"
    "idle_thread k \<noteq> NULL \<Longrightarrow> threads k (idle_thread k) \<noteq> None"
    "creating k u t \<Longrightarrow> t \<noteq> idle_thread k"
  using assms unfolding stacks_ok_def by blast+

lemma creating_push: "creating (push_frame f k) u t \<longleftrightarrow> (u = cur k \<and> creates f = Some t) \<or> creating k u t"
  by (auto simp: creating_def)

text \<open>Only the stack of \<open>c\<close> changes.\<close>

lemma stacks_change:
  assumes ok: "stacks_ok k" and dom: "dom (threads k') = dom (threads k)" and idle: "idle_thread k' = idle_thread k"
    and fr: "\<And>t. t \<noteq> c \<Longrightarrow> frames k' t = frames k t" and c: "threads k c \<noteq> None"
    and st: "sorted_wrt above (frames k' c)" and cr: "\<And>f t. f \<in> set (frames k' c) \<Longrightarrow> creates f = Some t \<Longrightarrow> creating k c t"
    and nl: "\<And>f u. creating k u c \<Longrightarrow> f \<in> set (frames k' c) \<Longrightarrow> light f"
    and id: "\<And>f. c = idle_thread k \<Longrightarrow> f \<in> set (frames k' c) \<Longrightarrow> idling f"
  shows "stacks_ok k'"
proof -
  have d: "threads k' t = None \<longleftrightarrow> threads k t = None" for t using dom by (metis domIff)
  have cr': "creating k' u t \<Longrightarrow> creating k u t" for u t
    using cr fr [of u] by (cases "u = c") (auto simp: creating_def)
  show ?thesis unfolding stacks_ok_def
  proof (intro conjI allI impI ballI)
    fix t show "sorted_wrt above (frames k' t)" using st fr stacksD(1) [OF ok] by (cases "t = c") simp_all
  next
    fix t assume "threads k' t = None"
    then show "frames k' t = []" using c d fr stacksD(2) [OF ok] by (cases "t = c") simp_all
  next
    fix u t assume "creating k' u t"
    then show "threads k' t \<noteq> None" using cr' d stacksD(3) [OF ok] by blast
  next
    fix u t assume "creating k' u t"
    then show "t \<noteq> idle_thread k'" using cr' idle stacksD(8) [OF ok] by metis
  next
    fix u t f assume "creating k' u t" "f \<in> set (frames k' t)"
    then show "light f" using cr' [of u t] nl [of u f] fr [of t] stacksD(4) [OF ok, of u t f] by (cases "t = c") auto
  next
    fix u v t assume "creating k' u t \<and> creating k' v t"
    then show "u = v" using cr' stacksD(5) [OF ok] by blast
  next
    fix f assume "f \<in> set (frames k' (idle_thread k'))"
    then show "idling f" using id fr idle stacksD(6) [OF ok] by (cases "c = idle_thread k") auto
  next
    assume "idle_thread k' \<noteq> NULL"
    then show "threads k' (idle_thread k') \<noteq> None" using d idle stacksD(7) [OF ok] by simp
  qed
qed

lemma not_idling: "\<not> light f \<Longrightarrow> \<not> starting f \<Longrightarrow> \<not> idling f"
  by (auto simp: idling_def)

lemma push_alive: "stacks_ok (push_frame f k) \<Longrightarrow> threads k (cur k) \<noteq> None"
  using stacksD(2) [of "push_frame f k" "cur k"] by auto

lemma push_not_idle: "stacks_ok (push_frame f k) \<Longrightarrow> \<not> idling f \<Longrightarrow> cur k \<noteq> idle_thread k"
  using stacksD(6) [of "push_frame f k" f] by auto

lemma push_sorted: "stacks_ok (push_frame f k) \<Longrightarrow> (\<forall>g \<in> set (frames k (cur k)). above f g) \<and> sorted_wrt above (frames k (cur k))"
  using stacksD(1) [of "push_frame f k" "cur k"] by simp

lemma push_not_created: "stacks_ok (push_frame f k) \<Longrightarrow> \<not> light f \<Longrightarrow> \<not> creating (push_frame f k) u (cur k)"
  using stacksD(4) [of "push_frame f k" u "cur k" f] by auto

lemma stacks_pop:
  assumes ok: "stacks_ok (push_frame f k)"
  shows "stacks_ok k"
proof (rule stacks_change [OF ok, where c = "cur k"])
  show "threads (push_frame f k) (cur k) \<noteq> None" using push_alive [OF ok] by simp
  show "sorted_wrt above (frames k (cur k))" using push_sorted [OF ok] by simp
  show "light g" if "creating (push_frame f k) u (cur k)" "g \<in> set (frames k (cur k))" for g u
    using stacksD(4) [OF ok that(1)] that(2) by simp
  show "idling g" if "cur k = idle_thread (push_frame f k)" "g \<in> set (frames k (cur k))" for g
    using stacksD(6) [OF ok, of g] that by simp
qed (auto simp: creating_def)

text \<open>Interrupts and yields can happen anywhere.\<close>

lemma stacks_push_light:
  assumes ok: "stacks_ok k" and "light f" "threads k (cur k) \<noteq> None"
  shows "stacks_ok (push_frame f k)"
proof (rule stacks_change [OF ok, where c = "cur k"])
  have c: "creates f = None" using creates_rank assms(2) by fastforce
  show "sorted_wrt above (frames (push_frame f k) (cur k))" using stacksD(1) [OF ok] assms(2) by (simp add: above_def)
  show "creating k (cur k) t" if "g \<in> set (frames (push_frame f k) (cur k))" "creates g = Some t" for g t
    using that c by (auto simp: creating_def)
  show "light g" if "creating k u (cur k)" "g \<in> set (frames (push_frame f k) (cur k))" for g u
    using that assms(2) stacksD(4) [OF ok that(1)] by auto
  show "idling g" if "cur k = idle_thread k" "g \<in> set (frames (push_frame f k) (cur k))" for g
    using that assms(2) stacksD(6) [OF ok, of g] by (auto simp: idling_def)
qed (use assms(3) in auto)

text \<open>\<open>f\<close> was on top of the stack and is replaced by \<open>f'\<close>, or \<open>f'\<close> is put on top of it.\<close>

lemma stacks_replace:
  assumes ok: "stacks_ok (push_frame f k)" and "\<not> light f" "\<not> starting f" "\<not> starting f'" "rank f' \<le> rank f"
    and "creates f' = None \<or> creates f' = creates f"
  shows "stacks_ok (push_frame f' k)"
proof (rule stacks_change [OF ok, where c = "cur k"])
  have ab: "above f g \<Longrightarrow> above f' g" for g using assms(2,4,5) by (auto simp: above_def)
  show "sorted_wrt above (frames (push_frame f' k) (cur k))" using push_sorted [OF ok] ab by auto
  show "creating (push_frame f k) (cur k) t" if "g \<in> set (frames (push_frame f' k) (cur k))" "creates g = Some t" for g t
    using that assms(6) by (auto simp: creating_def)
  show "light g" if "creating (push_frame f k) u (cur k)" for g u
    using that push_not_created [OF ok assms(2)] by blast
  show "idling g" if "cur k = idle_thread (push_frame f k)" for g
    using push_not_idle [OF ok not_idling [OF assms(2,3)]] that by simp
qed (use push_alive [OF ok] in auto)

lemma stacks_above:
  assumes ok: "stacks_ok (push_frame f k)" and "\<not> light f" "\<not> starting f" "\<not> starting f'" "rank f' < rank f" "creates f' = None"
  shows "stacks_ok (push_frame f' (push_frame f k))"
proof (rule stacks_change [OF ok, where c = "cur k"])
  have ab: "above f g \<Longrightarrow> above f' g" for g using assms(2,4,5) by (auto simp: above_def)
  have "above f' f" using assms(4,5) by (simp add: above_def)
  then show "sorted_wrt above (frames (push_frame f' (push_frame f k)) (cur k))" using push_sorted [OF ok] ab by auto
  show "creating (push_frame f k) (cur k) t" if "g \<in> set (frames (push_frame f' (push_frame f k)) (cur k))" "creates g = Some t" for g t
    using that assms(6) by (auto simp: creating_def)
  show "light g" if "creating (push_frame f k) u (cur k)" for g u
    using that push_not_created [OF ok assms(2)] by blast
  show "idling g" if "cur k = idle_thread (push_frame f k)" for g
    using push_not_idle [OF ok not_idling [OF assms(2,3)]] that by simp
qed (use push_alive [OF ok] in auto)


section \<open>Locks\<close>

definition owners :: "kernel \<Rightarrow> addr \<Rightarrow> addr set" where
  "owners k l = {t. t \<noteq> NULL \<and> locks k l = Some t} \<union> {t. Lock_try_rest l \<in> set (frames k t)}"

definition lock_value :: "kernel \<Rightarrow> addr \<Rightarrow> 32 word option" where
  "lock_value k l = map_option sema_value (semas k (Lock_sema l))"

definition lock_at :: "kernel \<Rightarrow> addr \<Rightarrow> bool" where
  "lock_at k l \<longleftrightarrow>
     (if locks k l = None then owners k l = {}
      else lock_value k l = Some 1 \<and> owners k l = {} \<or> lock_value k l = Some 0 \<and> (\<exists>t. owners k l = {t}))"

text \<open>Nobody takes the semaphore of a lock down but through the lock.\<close>

definition lock_down :: "frame \<Rightarrow> bool" where
  "lock_down f \<longleftrightarrow> (\<exists>l ol. f = Sema_down_rest (Lock_sema l) ol)"

definition lock_ok :: "kernel \<Rightarrow> bool" where
  "lock_ok k \<longleftrightarrow> locks k NULL = None \<and> (\<forall>l. lock_at k l) \<and> (\<forall>t. \<forall>f \<in> set (frames k t). \<not> lock_down f)"

definition plain :: "frame \<Rightarrow> bool" where
  "plain f \<longleftrightarrow> (\<forall>l. f \<noteq> Lock_try_rest l) \<and> \<not> lock_down f"

lemma lock_at_cong:
  "locks k' l = locks k l \<Longrightarrow> lock_value k' l = lock_value k l \<Longrightarrow> owners k' l = owners k l \<Longrightarrow> lock_at k' l = lock_at k l"
  by (simp add: lock_at_def)

lemma lock_ok_cong:
  assumes "locks k' = locks k" "\<And>l. lock_value k' l = lock_value k l" "\<And>l. owners k' l = owners k l"
    and "\<And>t. {f \<in> set (frames k' t). lock_down f} = {f \<in> set (frames k t). lock_down f}"
  shows "lock_ok k' = lock_ok k"
proof -
  have "(\<forall>f \<in> set (frames k' t). \<not> lock_down f) = (\<forall>f \<in> set (frames k t). \<not> lock_down f)" for t using assms(4) [of t] by blast
  then show ?thesis using assms(1-3) by (simp add: lock_ok_def lock_at_def)
qed

lemma lock_ok_sync: "same_sync k k' \<Longrightarrow> lock_ok k' = lock_ok k"
  by (rule lock_ok_cong) (simp_all add: same_sync_def lock_value_def owners_def)

lemma lock_ok_push: "plain f \<Longrightarrow> lock_ok (push_frame f k) = lock_ok k"
  by (rule lock_ok_cong) (auto simp: lock_value_def owners_def plain_def)

lemma lock_ok_bump: "(\<And>l. s \<noteq> Lock_sema l) \<Longrightarrow> lock_ok (bump s f k) = lock_ok k"
  by (rule lock_ok_cong) (auto simp: lock_value_def owners_def)

lemma lock_ok_init: "(\<And>l. s \<noteq> Lock_sema l) \<Longrightarrow> lock_ok (k\<lparr>semas := (semas k)(s \<mapsto> x)\<rparr>) = lock_ok k"
  by (rule lock_ok_cong) (auto simp: lock_value_def owners_def)

lemma lock_ok_other [simp]:
  "lock_ok (k\<lparr>conds := v1\<rparr>) = lock_ok k" "lock_ok (k\<lparr>level := v2\<rparr>) = lock_ok k" "lock_ok (k\<lparr>idle_thread := v3\<rparr>) = lock_ok k"
  "lock_ok (k\<lparr>next_tid := v4\<rparr>) = lock_ok k"
  by (rule lock_ok_cong; simp add: lock_value_def owners_def)+

lemma lock_okD: "lock_ok k \<Longrightarrow> lock_at k l"
  by (simp add: lock_ok_def)

lemma lock_not_null: "lock_ok k \<Longrightarrow> locks k l = Some h \<Longrightarrow> l \<noteq> NULL"
  by (cases "l = NULL") (auto simp: lock_ok_def)

text \<open>The four ways a lock changes hands.\<close>

lemma lock_ok_change:
  assumes "lock_ok k" and "l \<noteq> NULL" and "lock_at k' l"
    and "\<And>m. m \<noteq> l \<Longrightarrow> locks k' m = locks k m \<and> lock_value k' m = lock_value k m \<and> owners k' m = owners k m"
    and "\<And>t f. f \<in> set (frames k' t) \<Longrightarrow> f \<in> set (frames k t) \<or> f = Lock_try_rest l"
  shows "lock_ok k'"
proof -
  have "lock_at k' m" for m
    using assms(3,4) lock_okD [OF assms(1), of m] lock_at_cong [of k' m k] by (cases "m = l") auto
  moreover have "\<not> lock_down f" if "f \<in> set (frames k' t)" for t f
    using assms(1) assms(5) [OF that] unfolding lock_ok_def by (elim disjE) (blast, simp add: lock_down_def)
  ultimately show ?thesis using assms(1,2,4) by (simp add: lock_ok_def)
qed

lemma lock_free_value: "lock_ok k \<Longrightarrow> locks k l = Some h \<Longrightarrow> lock_value k l = Some v \<Longrightarrow> v \<noteq> 0 \<Longrightarrow> v = 1 \<and> owners k l = {}"
  using lock_okD [of k l] by (auto simp: lock_at_def)

lemma lock_taken:
  assumes "lock_ok k" "locks k l = Some h" "lock_value k l = Some v" "v \<noteq> 0" "c \<noteq> NULL"
  shows "lock_ok ((bump (Lock_sema l) (\<lambda>v. v - 1) k)\<lparr>locks := (locks k)(l \<mapsto> c)\<rparr>)"
proof (rule lock_ok_change [OF assms(1) lock_not_null [OF assms(1,2)]])
  note f = lock_free_value [OF assms(1-4)]
  then show "lock_at ((bump (Lock_sema l) (\<lambda>v. v - 1) k)\<lparr>locks := (locks k)(l \<mapsto> c)\<rparr>) l"
    using assms(3,5) by (auto simp: lock_at_def lock_value_def owners_def)
qed (auto simp: lock_value_def owners_def split: if_splits)

lemma lock_freed:
  assumes "lock_ok k" "locks k l = Some c" "c \<noteq> NULL" "Lock_try_rest l \<notin> set (frames k c)"
  shows "lock_ok (bump (Lock_sema l) (\<lambda>v. v + 1) (k\<lparr>locks := (locks k)(l \<mapsto> NULL)\<rparr>))"
proof (rule lock_ok_change [OF assms(1) lock_not_null [OF assms(1,2)]])
  have "c \<in> owners k l" using assms(2,3) by (simp add: owners_def)
  then have "lock_value k l = Some 0 \<and> owners k l = {c}" using lock_okD [OF assms(1), of l] assms(2) by (auto simp: lock_at_def)
  then show "lock_at (bump (Lock_sema l) (\<lambda>v. v + 1) (k\<lparr>locks := (locks k)(l \<mapsto> NULL)\<rparr>)) l"
    using assms(4) by (auto simp: lock_at_def lock_value_def owners_def)
qed (auto simp: lock_value_def owners_def split: if_splits)

lemma lock_tried:
  assumes "lock_ok k" "locks k l = Some h" "lock_value k l = Some v" "v \<noteq> 0"
  shows "lock_ok (push_frame (Lock_try_rest l) (bump (Lock_sema l) (\<lambda>v. v - 1) k))"
proof (rule lock_ok_change [OF assms(1) lock_not_null [OF assms(1,2)]])
  note f = lock_free_value [OF assms]
  have "owners (push_frame (Lock_try_rest l) (bump (Lock_sema l) (\<lambda>v. v - 1) k)) l = insert (cur k) (owners k l)"
    by (auto simp: owners_def)
  then show "lock_at (push_frame (Lock_try_rest l) (bump (Lock_sema l) (\<lambda>v. v - 1) k)) l"
    using assms(2,3) f by (auto simp: lock_at_def lock_value_def)
qed (auto simp: lock_value_def owners_def split: if_splits)

lemma lock_try_completed:
  assumes "lock_ok (push_frame (Lock_try_rest l) k)" "cur k \<noteq> NULL"
  shows "lock_ok (k\<lparr>locks := (locks k)(l \<mapsto> cur k)\<rparr>)"
proof -
  let ?k = "push_frame (Lock_try_rest l) k"
  have c: "cur k \<in> owners ?k l" by (simp add: owners_def)
  then have l: "locks k l \<noteq> None" "lock_value k l = Some 0" "owners ?k l = {cur k}"
    using lock_okD [OF assms(1), of l] by (auto simp: lock_at_def lock_value_def split: if_splits)
  show ?thesis
  proof (rule lock_ok_change [OF assms(1), of l])
    show "l \<noteq> NULL" using l(1) lock_not_null [OF assms(1), of l] by auto
    have "owners (k\<lparr>locks := (locks k)(l \<mapsto> cur k)\<rparr>) l = {cur k}" using l(3) assms(2) by (auto simp: owners_def split: if_splits)
    then show "lock_at (k\<lparr>locks := (locks k)(l \<mapsto> cur k)\<rparr>) l" using l(2) by (simp add: lock_at_def lock_value_def)
  qed (auto simp: lock_value_def owners_def split: if_splits)
qed

lemma lock_initialized:
  assumes "lock_ok k" "locks k l = None" "l \<noteq> NULL"
  shows "lock_ok (k\<lparr>locks := (locks k)(l \<mapsto> NULL), semas := (semas k)(Lock_sema l \<mapsto> \<lparr>sema_value = 1, sema_waiters = []\<rparr>)\<rparr>)"
proof (rule lock_ok_change [OF assms(1,3)])
  have "owners k l = {}" using lock_okD [OF assms(1), of l] assms(2) by (simp add: lock_at_def)
  then show "lock_at (k\<lparr>locks := (locks k)(l \<mapsto> NULL), semas := (semas k)(Lock_sema l \<mapsto> \<lparr>sema_value = 1, sema_waiters = []\<rparr>)\<rparr>) l"
    by (auto simp: lock_at_def lock_value_def owners_def)
qed (auto simp: lock_value_def owners_def split: if_splits)

section \<open>The invariant\<close>

text \<open>A sleeping thread is in the middle of \<open>timer_sleep\<close>.\<close>

definition sleep_ok :: "kernel \<Rightarrow> bool" where
  "sleep_ok k \<longleftrightarrow> (\<forall>t \<in> set (alarm_list k). \<exists>f \<in> set (frames k t). \<not> light f)"

lemma sleep_ok_sync: "same_sync k k' \<Longrightarrow> sleep_ok k \<Longrightarrow> sleep_ok k'"
  unfolding sleep_ok_def same_sync_def by auto

lemma sleep_ok_push [simp]: "sleep_ok k \<Longrightarrow> sleep_ok (push_frame f k)"
  by (auto simp: sleep_ok_def)

lemma sleep_ok_pop: "sleep_ok (push_frame f k) \<Longrightarrow> good k \<Longrightarrow> sleep_ok k"
proof (erule good_cur)
  assume s: "sleep_ok (push_frame f k)" and c: "cur k \<notin> set (alarm_list k)"
  have "\<exists>f \<in> set (frames k t). \<not> light f" if "t \<in> set (alarm_list k)" for t
    using bspec [OF s [unfolded sleep_ok_def], of t] that c by (cases "t = cur k") simp_all
  then show "sleep_ok k" by (simp add: sleep_ok_def)
qed

lemma sleep_ok_other [simp]:
  "sleep_ok (bump s f k) = sleep_ok k" "sleep_ok (k\<lparr>locks := v1\<rparr>) = sleep_ok k" "sleep_ok (k\<lparr>semas := v2\<rparr>) = sleep_ok k"
  "sleep_ok (k\<lparr>conds := v3\<rparr>) = sleep_ok k" "sleep_ok (k\<lparr>level := v4\<rparr>) = sleep_ok k" "sleep_ok (k\<lparr>next_tid := v5\<rparr>) = sleep_ok k"
  "sleep_ok (k\<lparr>idle_thread := v6\<rparr>) = sleep_ok k" "sleep_ok (k\<lparr>threads := v7\<rparr>) = sleep_ok k"
  "sleep_ok (k\<lparr>all_list := v8\<rparr>) = sleep_ok k"
  by (simp_all add: sleep_ok_def)

definition kinv :: "kernel \<Rightarrow> bool" where
  "kinv k \<longleftrightarrow> good k \<and> stacks_ok k \<and> lock_ok k \<and> \<not> in_external_intr k \<and> sleep_ok k"

lemma kinv_sync:
  assumes "good k'" "stacks_ok k" "lock_ok k" "\<not> in_external_intr k" "same_sync k k'" "sleep_ok k"
  shows "kinv k'"
  using assms lock_ok_sync [OF assms(5)] stacks_ok_sync [OF assms(5)] sleep_ok_sync [OF assms(5)]
  by (simp add: kinv_def same_sync_def)

lemma kinv_yield:
  assumes "good k'" "stacks_ok k" "lock_ok k" "\<not> in_external_intr k" "threads k (cur k) \<noteq> None"
    and "same_sync k k' \<or> same_sync (push_frame (Yield_rest l) k) k'" and "sleep_ok k"
  shows "kinv k'"
  using assms(6)
proof
  assume "same_sync k k'"
  then show ?thesis using kinv_sync assms by blast
next
  assume s: "same_sync (push_frame (Yield_rest l) k) k'"
  have "stacks_ok (push_frame (Yield_rest l) k)" by (rule stacks_push_light) (use assms in simp_all)
  moreover have "lock_ok (push_frame (Yield_rest l) k)" using assms(3) by (simp add: lock_ok_push plain_def lock_down_def)
  ultimately show ?thesis using kinv_sync [OF assms(1) _ _ _ s] assms(4,7) by simp
qed

lemma thread_yield_inv: "kinv k \<Longrightarrow> thread_yield k = Some k' \<Longrightarrow> kinv k'"
  using thread_yield_good [of k k'] kinv_yield [of k' k "level k"] by (auto simp: kinv_def elim: good_cur)

text \<open>\<open>may_wait k\<close>: the running thread is in code that may wait, so any frame of an inner call can be
  put on its stack.\<close>

definition may_wait :: "kernel \<Rightarrow> bool" where
  "may_wait k \<longleftrightarrow> kinv k \<and> cur k \<noteq> idle_thread k \<and> (\<forall>l. Lock_try_rest l \<notin> set (frames k (cur k)))
     \<and> (\<forall>f. rank f = 1 \<and> \<not> starting f \<longrightarrow> stacks_ok (push_frame f k))"

lemma kinv_push:
  "plain f \<Longrightarrow> kinv (push_frame f k) \<longleftrightarrow> good k \<and> lock_ok k \<and> \<not> in_external_intr k \<and> stacks_ok (push_frame f k) \<and> sleep_ok k"
  using sleep_ok_pop [of f k] by (auto simp: kinv_def lock_ok_push)

lemma creates_None: "rank f \<noteq> 2 \<Longrightarrow> creates f = None"
  using creates_rank [of f] by (cases "creates f") auto

text \<open>After the frame \<open>f\<close> has been popped, and while it is there.\<close>

lemma may_wait_popped:
  assumes "kinv (push_frame f k)" "\<not> light f" "\<not> starting f" "plain f"
  shows "may_wait k"
proof -
  have s: "stacks_ok (push_frame f k)" using assms(1) by (simp add: kinv_def)
  have r: "1 \<le> rank f" using assms(2) by (simp add: light_rank)
  have "Lock_try_rest l \<notin> set (frames k (cur k))" for l
  proof
    assume "Lock_try_rest l \<in> set (frames k (cur k))"
    then have "above f (Lock_try_rest l)" using push_sorted [OF s] by blast
    then show False using assms(2) r by (simp add: above_def)
  qed
  moreover have "stacks_ok (push_frame f' k)" if "rank f' = 1" "\<not> starting f'" for f'
    using stacks_replace [OF s assms(2,3) that(2)] that(1) r creates_None [of f'] by simp
  ultimately show ?thesis unfolding may_wait_def
    using assms kinv_push [OF assms(4), of k] push_not_idle [OF s not_idling [OF assms(2,3)]] stacks_pop [OF s] by (simp add: kinv_def)
qed

lemma may_wait_pushed:
  assumes "kinv (push_frame f k)" "2 \<le> rank f"
  shows "may_wait (push_frame f k)"
proof -
  have s: "stacks_ok (push_frame f k)" using assms(1) by (simp add: kinv_def)
  have f: "\<not> light f" "\<not> starting f" "plain f" using assms(2) starting_rank by (auto simp: light_rank plain_def lock_down_def)
  have "stacks_ok (push_frame f' (push_frame f k))" if "rank f' = 1" "\<not> starting f'" for f'
    by (rule stacks_above [OF s f(1,2) that(2)]) (use that assms(2) creates_None [of f'] in simp_all)
  then show ?thesis
    using may_wait_popped [OF assms(1) f] assms(1) f(3) by (auto simp: may_wait_def plain_def)
qed


lemma may_wait_cong:
  assumes "may_wait k" "kinv k'" "frames k' = frames k" "cur k' = cur k" "dom (threads k') = dom (threads k)" "idle_thread k' = idle_thread k"
  shows "may_wait k'"
proof -
  have "stacks_ok (push_frame f k') = stacks_ok (push_frame f k)" for f
    by (rule stacks_ok_cong) (use assms in simp_all)
  then show ?thesis using assms unfolding may_wait_def by simp
qed

lemma kinv_other [simp]:
  "kinv (k\<lparr>level := v1\<rparr>) = kinv k" "kinv (k\<lparr>conds := v2\<rparr>) = kinv k" "kinv (k\<lparr>next_tid := v3\<rparr>) = kinv k"
  by (simp_all add: kinv_def stacks_ok_cong [of "k\<lparr>level := v1\<rparr>" k] stacks_ok_cong [of "k\<lparr>conds := v2\<rparr>" k]
    stacks_ok_cong [of "k\<lparr>next_tid := v3\<rparr>" k])

lemma may_wait_other:
  "may_wait k \<Longrightarrow> may_wait (k\<lparr>level := v1\<rparr>)" "may_wait k \<Longrightarrow> may_wait (k\<lparr>conds := v2\<rparr>)" "may_wait k \<Longrightarrow> may_wait (k\<lparr>next_tid := v3\<rparr>)"
proof -
  assume w: "may_wait k"
  then have "kinv k" by (simp add: may_wait_def)
  then show "may_wait (k\<lparr>level := v1\<rparr>)" "may_wait (k\<lparr>conds := v2\<rparr>)" "may_wait (k\<lparr>next_tid := v3\<rparr>)"
    by (auto intro!: may_wait_cong [OF w])
qed

section \<open>The operations keep the invariant\<close>

lemma may_waitD:
  assumes "may_wait k"
  shows "kinv k" "good k" "stacks_ok k" "lock_ok k" "\<not> in_external_intr k" "cur k \<noteq> idle_thread k" "threads k (cur k) \<noteq> None" "cur k \<noteq> NULL" "sleep_ok k"
  using assms by (auto simp: may_wait_def kinv_def elim: good_cur)

lemma sema_down_loop_inv:
  assumes "may_wait k" and "\<And>l. s \<noteq> Lock_sema l" and "sema_down_loop s ol k = Some k'"
  shows "kinv k'"
proof -
  note w = may_waitD [OF assms(1)]
  note g = sema_down_loop_good [OF w(2,6) assms(3)]
  have p: "plain (Sema_down_rest s ol)" using assms(2) by (auto simp: plain_def lock_down_def)
  have s: "stacks_ok (push_frame (Sema_down_rest s ol) k)" using assms(1) by (simp add: may_wait_def)
  from g(2) show ?thesis
  proof
    assume "same_sync (push_frame (Sema_down_rest s ol) k) k'"
    then show ?thesis using kinv_sync [OF g(1) s] lock_ok_push [OF p, of k] w(4,5,9) by simp
  next
    assume "same_sync (bump s (\<lambda>v. v - 1) k) k'"
    moreover have "stacks_ok (bump s (\<lambda>v. v - 1) k)" using w(3) stacks_ok_cong [of "bump s (\<lambda>v. v - 1) k" k] by simp
    moreover have "lock_ok (bump s (\<lambda>v. v - 1) k)" using w(4) lock_ok_bump [OF assms(2)] by simp
    ultimately show ?thesis using kinv_sync [OF g(1)] w(5,9) by simp
  qed
qed

lemma sema_down_inv:
  assumes "may_wait k" and "\<And>l. s \<noteq> Lock_sema l" and "sema_down s k = Some k'"
  shows "kinv k'"
proof -
  have "sema_down_loop s (level k) (k\<lparr>level := INTR_OFF\<rparr>) = Some k'"
    using assms(3) by (simp add: sema_down_def intr_disable_def intr_get_level_def)
  then show ?thesis using sema_down_loop_inv [OF may_wait_other(1) [OF assms(1)] assms(2)] by blast
qed

lemma sema_up_inv:
  assumes "kinv k" and "\<And>l. s \<noteq> Lock_sema l" and "sema_up s k = Some k'"
  shows "kinv k'"
proof -
  have k: "good k" "stacks_ok k" "lock_ok k" "\<not> in_external_intr k" "threads k (cur k) \<noteq> None" "sleep_ok k"
    using assms(1) by (auto simp: kinv_def elim: good_cur)
  note g = sema_up_good [OF k(1) assms(3)]
  let ?k = "bump s (\<lambda>v. v + 1) k"
  show ?thesis
    by (rule kinv_yield [OF g(1) _ _ _ _ g(2)])
      (use k stacks_ok_cong [of ?k k] lock_ok_bump [OF assms(2)] in simp_all)
qed

lemma sema_init_inv:
  assumes "kinv k" and "\<And>l. s \<noteq> Lock_sema l" and "sema_init s v k = Some k'"
  shows "kinv k'"
proof -
  have k: "good k" "stacks_ok k" "lock_ok k" "\<not> in_external_intr k" "sleep_ok k" using assms(1) by (simp_all add: kinv_def)
  note g = sema_init_good [OF k(1) assms(3)]
  show ?thesis
    by (rule kinv_sync [OF g(1) _ _ _ g(2)])
      (use k lock_ok_init [OF assms(2)] stacks_ok_cong [of "k\<lparr>semas := (semas k)(s \<mapsto> \<lparr>sema_value = v, sema_waiters = []\<rparr>)\<rparr>" k] in simp_all)
qed

lemma lock_acquire_loop_inv:
  assumes "may_wait k" and "lock_acquire_loop l ol k = Some k'"
  shows "kinv k'"
proof -
  note w = may_waitD [OF assms(1)]
  obtain sem h where s: "semas k (Lock_sema l) = Some sem" "locks k l = Some h"
    using assms(2) by (auto simp: lock_acquire_loop_def bind_eq_Some_conv)
  note g = lock_acquire_loop_good [OF w(2,6) lock_not_null [OF w(4) s(2)] assms(2)]
  from g(2) show ?thesis
  proof
    assume y: "same_sync (push_frame (Lock_acquire_rest l ol) k) k'"
    have "stacks_ok (push_frame (Lock_acquire_rest l ol) k)" using assms(1) by (simp add: may_wait_def)
    moreover have "lock_ok (push_frame (Lock_acquire_rest l ol) k)" using w(4) by (simp add: lock_ok_push plain_def lock_down_def)
    ultimately show ?thesis using kinv_sync [OF g(1) _ _ _ y] w(5,9) by simp
  next
    let ?k = "(bump (Lock_sema l) (\<lambda>v. v - 1) k)\<lparr>locks := (locks k)(l \<mapsto> cur k)\<rparr>"
    assume "\<exists>sem. semas k (Lock_sema l) = Some sem \<and> sema_value sem \<noteq> 0 \<and> same_sync ?k k'"
    then have "lock_value k l = Some (sema_value sem)" "sema_value sem \<noteq> 0" "same_sync ?k k'" using s(1) by (auto simp: lock_value_def)
    moreover from this have "lock_ok ?k" using lock_taken [OF w(4) s(2)] w(8) by blast
    moreover have "stacks_ok ?k" using w(3) stacks_ok_cong [of ?k k] by simp
    ultimately show ?thesis using kinv_sync [OF g(1)] w(5,9) by simp
  qed
qed

lemma lock_acquire_inv:
  assumes "may_wait k" and "lock_acquire l k = Some k'"
  shows "kinv k'"
proof -
  have "lock_acquire_loop l (level k) (k\<lparr>level := INTR_OFF\<rparr>) = Some k'"
    using assms(2) by (auto simp: lock_acquire_def intr_disable_def intr_get_level_def bind_eq_Some_conv)
  then show ?thesis using lock_acquire_loop_inv [OF may_wait_other(1) [OF assms(1)]] by blast
qed

lemma lock_release_inv:
  assumes "may_wait k" and "lock_release l k = Some k'"
  shows "kinv k'"
proof -
  note w = may_waitD [OF assms(1)]
  obtain h where h: "locks k l = Some h"
    using assms(2) by (auto simp: lock_release_def lock_held_by_current_thread_def bind_eq_Some_conv)
  note g = lock_release_good [OF w(2) lock_not_null [OF w(4) h] assms(2)]
  let ?k0 = "bump (Lock_sema l) (\<lambda>v. v + 1) (k\<lparr>locks := (locks k)(l \<mapsto> NULL)\<rparr>)"
  let ?k1 = "push_frame (Lock_release_rest (level k)) ?k0"
  have "Lock_try_rest l \<notin> set (frames k (cur k))" using assms(1) by (simp add: may_wait_def)
  then have "lock_ok ?k0" using lock_freed [OF w(4) g(3) w(8)] by simp
  then have "lock_ok ?k1" by (simp add: lock_ok_push plain_def lock_down_def)
  moreover have "stacks_ok (push_frame (Lock_release_rest (level k)) k)" using assms(1) by (simp add: may_wait_def)
  then have "stacks_ok ?k1" using stacks_ok_cong [of ?k1 "push_frame (Lock_release_rest (level k)) k"] by simp
  ultimately show ?thesis using kinv_yield [OF g(1) _ _ _ _ g(2)] w(5,7,9) by simp
qed

lemma lock_try_acquire_inv:
  assumes "kinv (push_frame Body k)" and "lock_try_acquire l (push_frame Body k) = Some (b, k')"
  shows "kinv k'"
proof -
  let ?k = "push_frame Body k"
  have w: "may_wait ?k" by (rule may_wait_pushed [OF assms(1)]) simp
  note D = may_waitD [OF w]
  obtain h k1 where h: "locks k l = Some h" and td: "sema_try_down (Lock_sema l) ?k = Some (b, k1)"
    and k': "k' = (if b then push_frame (Lock_try_rest l) k1 else k1)"
    using assms(2) by (auto simp: lock_try_acquire_def lock_held_by_current_thread_def bind_eq_Some_conv)
  note g = sema_try_down_good [OF D(2) td]
  show ?thesis
  proof (cases b)
    case True
    let ?k1 = "push_frame (Lock_try_rest l) (bump (Lock_sema l) (\<lambda>v. v - 1) ?k)"
    obtain sem where "semas k (Lock_sema l) = Some sem" "sema_value sem > 0" and s1: "same_sync (bump (Lock_sema l) (\<lambda>v. v - 1) ?k) k1"
      using g(2) True by auto
    then have "lock_value ?k l = Some (sema_value sem)" "sema_value sem \<noteq> 0" by (auto simp: lock_value_def)
    then have "lock_ok ?k1" using lock_tried [OF D(4)] h by simp
    moreover have "stacks_ok (push_frame (Lock_try_rest l) ?k)" using w by (simp add: may_wait_def)
    then have "stacks_ok ?k1" using stacks_ok_cong [of ?k1 "push_frame (Lock_try_rest l) ?k"] by simp
    moreover have "same_sync ?k1 k'" unfolding k' using same_sync_push [OF s1] g(3) True by simp
    moreover have "good k'" unfolding k' using g(1) True by simp
    ultimately show ?thesis using kinv_sync [of k' ?k1] D(5,9) by simp
  next
    case False
    then show ?thesis using kinv_sync [of k' ?k] g D k' by simp
  qed
qed

lemma lock_try_rest_inv:
  assumes "kinv (push_frame (Lock_try_rest l) k)" and "lock_try_rest l k = Some k'"
  shows "kinv k'"
proof -
  have g: "good k" and n: "cur k \<noteq> NULL" using assms(1) by (auto simp: kinv_def elim: good_cur)
  have k': "k' = k\<lparr>locks := (locks k)(l \<mapsto> cur k)\<rparr>"
    using assms(2) by (simp add: lock_try_rest_def good_thread_current [OF g])
  have "lock_ok k'" unfolding k' using lock_try_completed [OF _ n] assms(1) by (simp add: kinv_def)
  moreover have "stacks_ok k'" using stacks_pop [of "Lock_try_rest l" k] assms(1) stacks_ok_cong [of k' k] by (simp add: kinv_def k')
  ultimately show ?thesis using assms(1) g sleep_ok_pop [of "Lock_try_rest l" k] by (simp add: kinv_def k')
qed

lemma lock_init_inv:
  assumes "kinv k" and "locks k l = None" and "lock_init l k = Some k'"
  shows "kinv k'"
proof -
  have k: "good k" "stacks_ok k" "lock_ok k" "\<not> in_external_intr k" "sleep_ok k" using assms(1) by (simp_all add: kinv_def)
  have l: "l \<noteq> NULL" and i: "sema_init (Lock_sema l) 1 (k\<lparr>locks := (locks k)(l \<mapsto> NULL)\<rparr>) = Some k'"
    using assms(3) by (simp_all add: lock_init_def)
  have "good (k\<lparr>locks := (locks k)(l \<mapsto> NULL)\<rparr>)" using k(1) by simp
  note g = sema_init_good [OF this i]
  let ?k = "k\<lparr>locks := (locks k)(l \<mapsto> NULL), semas := (semas k)(Lock_sema l \<mapsto> \<lparr>sema_value = 1, sema_waiters = []\<rparr>)\<rparr>"
  have s: "same_sync ?k k'" using g(2) by simp
  show ?thesis
    by (rule kinv_sync [OF g(1) _ _ _ s])
      (use k lock_initialized [OF k(3) assms(2) l] stacks_ok_cong [of ?k k] in simp_all)
qed


subsection \<open>Condition variables\<close>

lemma push_pop: "frames k (cur k) = f # fs \<Longrightarrow> push_frame f (pop_frame k) = k"
  by (simp add: push_frame_def pop_frame_def fun_upd_idem)

lemma kinv_push_on:
  assumes "kinv k" "frames k (cur k) = g # fs" "\<not> light g" "\<not> starting g" "rank f < rank g" "\<not> starting f" "creates f = None" "plain f"
  shows "kinv (push_frame f k)"
proof -
  have "stacks_ok (push_frame f (push_frame g (pop_frame k)))"
    by (rule stacks_above) (use assms push_pop [OF assms(2)] in \<open>simp_all add: kinv_def\<close>)
  then show ?thesis using assms(1) push_pop [OF assms(2)] lock_ok_push [OF assms(8)] by (simp add: kinv_def)
qed

lemma kinv_replace:
  assumes "kinv (push_frame g k)" "\<not> light g" "\<not> starting g" "rank f \<le> rank g" "\<not> starting f"
    "creates f = None \<or> creates f = creates g" "plain f" "plain g"
  shows "kinv (push_frame f k)"
  using assms stacks_replace [of g k f] by (simp add: kinv_push)

lemmas frame_simps = plain_def lock_down_def

lemma cond_wait_inv:
  assumes "kinv k" "frames k (cur k) = Body # fs" and "cond_wait cv l k = Some k'"
  shows "kinv k'"
proof -
  have g: "good k" using assms(1) by (simp add: kinv_def)
  obtain k1 ws where i: "sema_init (Waiter (cur k)) 0 k = Some k1"
    and r: "lock_release l (push_frame (Cond_wait_sema l) (k1\<lparr>conds := (conds k1)(cv \<mapsto> cur k # ws)\<rparr>)) = Some k'"
    using assms(3) by (auto simp: cond_wait_def bind_eq_Some_conv good_thread_current [OF g])
  let ?k = "k1\<lparr>conds := (conds k1)(cv \<mapsto> cur k # ws)\<rparr>"
  have k1: "kinv ?k" using sema_init_inv [OF assms(1) _ i] by simp
  have "frames ?k (cur ?k) = Body # fs" using sema_init_good(2,3) [OF g i] assms(2) by (simp add: same_sync_def)
  then have "kinv (push_frame (Cond_wait_sema l) ?k)"
    by (rule kinv_push_on [OF k1]) (simp_all add: frame_simps)
  then show ?thesis using lock_release_inv [OF may_wait_pushed r] by simp
qed

lemma cond_wait_sema_inv:
  assumes "kinv (push_frame (Cond_wait_sema l) k)" and "cond_wait_sema l k = Some k'"
  shows "kinv k'"
proof -
  have "kinv (push_frame (Cond_wait_lock l) k)"
    by (rule kinv_replace [OF assms(1)]) (simp_all add: frame_simps)
  then have "may_wait (push_frame (Cond_wait_lock l) k)" by (rule may_wait_pushed) simp
  then show ?thesis by (rule sema_down_inv) (use assms(2) in \<open>auto simp: cond_wait_sema_def\<close>)
qed

lemma cond_signal_inv:
  assumes "kinv k" and "cond_signal cv l k = Some k'"
  shows "kinv k'"
proof -
  obtain ws where "conds k cv = Some ws" using assms(2) by (auto simp: cond_signal_def bind_eq_Some_conv)
  then consider "k' = k" | ws' where "sema_up (Waiter (hd ws')) (k\<lparr>conds := (conds k)(cv \<mapsto> tl ws')\<rparr>) = Some k'"
    using assms(2) by (auto simp: cond_signal_def bind_eq_Some_conv split: if_splits)
  then show ?thesis
  proof cases
    case 1 then show ?thesis using assms(1) by simp
  next
    case 2
    show ?thesis by (rule sema_up_inv [OF _ _ 2]) (use assms(1) in simp_all)
  qed
qed

lemma cond_broadcast_inv:
  assumes "kinv k" "kinv (push_frame (Cond_broadcast_rest cv l) k)" and "cond_broadcast cv l k = Some k'"
  shows "kinv k'"
proof -
  obtain ws where "conds k cv = Some ws" using assms(3) by (auto simp: cond_broadcast_def bind_eq_Some_conv)
  then show ?thesis using assms cond_signal_inv [OF assms(2)] by (auto simp: cond_broadcast_def split: if_splits)
qed

subsection \<open>Threads\<close>

lemma body_alone: "stacks_ok (push_frame Body k) \<Longrightarrow> frames k (cur k) = []"
proof (rule ccontr)
  assume "stacks_ok (push_frame Body k)" "frames k (cur k) \<noteq> []"
  then have "above Body (hd (frames k (cur k)))" using push_sorted by fastforce
  then show False using rank_le [of "hd (frames k (cur k))"] by (simp add: above_def)
qed

lemma starting_alone: "stacks_ok (push_frame f k) \<Longrightarrow> starting f \<Longrightarrow> frames k (cur k) = []"
proof (rule ccontr)
  assume "stacks_ok (push_frame f k)" "frames k (cur k) \<noteq> []" "starting f"
  then have "above f (hd (frames k (cur k)))" using push_sorted by fastforce
  then show False using starting_rank [OF \<open>starting f\<close>] \<open>starting f\<close> by (simp add: above_def light_rank)
qed

lemma stacks_free:
  assumes ok: "stacks_ok k" and "frames k c = [] \<or> frames k c = [Body]" and "c \<noteq> idle_thread k" and "\<And>u. \<not> creating k u c"
  shows "stacks_ok (free_thread c k)"
proof -
  let ?k = "free_thread c k"
  have cr: "creating ?k u t \<longleftrightarrow> u \<noteq> c \<and> creating k u t" for u t by (simp add: creating_def free_thread_def)
  have fr: "frames ?k t = (if t = c then [] else frames k t)" "threads ?k t = (if t = c then None else threads k t)"
    "idle_thread ?k = idle_thread k" for t by (simp_all add: free_thread_def)
  have "\<not> creating k u (idle_thread k)" for u using stacksD(8) [OF ok] by blast
  then show ?thesis unfolding stacks_ok_def cr fr
    using stacksD [OF ok] assms(3,4) by (auto split: if_splits)
qed

lemma lock_ok_free:
  assumes "lock_ok k" "frames k c = [] \<or> frames k c = [Body]"
  shows "lock_ok (free_thread c k)"
proof -
  have "lock_ok (free_thread c k) = lock_ok k"
    by (rule lock_ok_cong) (use assms(2) in \<open>auto simp: free_thread_def lock_value_def owners_def lock_down_def split: if_splits\<close>)
  then show ?thesis using assms(1) by simp
qed

lemma thread_exit_inv:
  assumes "kinv (push_frame Body k)" and "k0 = k \<or> k0 = push_frame Body k" and "thread_exit k0 = Some k'"
  shows "kinv k'"
proof -
  let ?K = "push_frame Body k"
  have s: "stacks_ok ?K" and l: "lock_ok k" "lock_ok k0" and e: "\<not> in_external_intr k0" and g: "good k0" and sl: "sleep_ok k0"
    using assms(1,2) sleep_ok_pop [of Body k] by (auto simp: kinv_def lock_ok_push frame_simps)
  have c: "cur k0 = cur k" "idle_thread k0 = idle_thread k" using assms(2) by auto
  have ni: "cur k0 \<noteq> idle_thread k0" using push_not_idle [OF s] c by (simp add: idling_def)
  have s0: "stacks_ok k0" using assms(2) s stacks_pop by blast
  have f0: "frames k0 (cur k0) = [] \<or> frames k0 (cur k0) = [Body]" using assms(2) body_alone [OF s] by auto
  have nc: "\<not> creating k0 u (cur k0)" for u using push_not_created [OF s, of u] assms(2) by (auto simp: creating_push)
  note G = thread_exit_good [OF g assms(3) ni]
  from G(2) show ?thesis
  proof
    assume "same_sync k0 k'"
    then show ?thesis using kinv_sync [OF G(1) s0 l(2) e] sl by blast
  next
    assume y: "same_sync (free_thread (cur k0) k0) k'"
    have "cur k0 \<notin> set (alarm_list k0)" by (rule good_cur [OF g])
    then have "sleep_ok (free_thread (cur k0) k0)" using sl by (auto simp: sleep_ok_def free_thread_def)
    show ?thesis
      by (rule kinv_sync [OF G(1) _ _ _ y])
        (use \<open>sleep_ok (free_thread (cur k0) k0)\<close> stacks_free [OF s0 f0 ni nc] lock_ok_free [OF l(2) f0] e in \<open>simp_all add: free_thread_def\<close>)
  qed
qed

lemma thread_block_inv:
  assumes "kinv k" and "thread_block k = Some k'"
  shows "kinv k'"
proof -
  have k: "good k" "stacks_ok k" "lock_ok k" "\<not> in_external_intr k" "sleep_ok k" using assms(1) by (simp_all add: kinv_def)
  obtain th where th: "threads k (cur k) = Some th" "elem th = Unlinked" "cur k \<notin> set (alarm_list k)" "cur k \<in> set (all_list k)"
    by (rule good_cur [OF k(1)]) blast
  have c: "core k" "status_ok {} (Some (cur k)) k" "idle_ok k" using k(1) by (simp_all add: good_def)
  note b = thread_block_good [OF c(1) status_ok_mono [OF c(2)] c(3) assms(2)]
  have "good k' \<and> same_sync k k'" using b th by (simp add: elem_of_def)
  then show ?thesis using kinv_sync k by blast
qed

lemma thread_unblock_good:
  assumes "good k" and "thread_unblock t k = Some k'" and "t \<notin> set (alarm_list k)"
  shows "good k'" "same_sync k k'" "cur k' = cur k" "level k' = level k"
proof -
  have g: "core k" "status_ok {} (Some (cur k)) k" "idle_ok k" using assms(1) by (simp_all add: good_def)
  note ub = thread_unblock_core [OF g(1,2) assms(2)]
  have "k'\<lparr>alarm_list := alarm_list k\<rparr> = k'" using ub(5) by simp
  then have "status_ok {} (Some (cur k)) k'" using ub(10) [of "alarm_list k"] assms(3) by simp
  then show "good k'" "same_sync k k'" "cur k' = cur k" "level k' = level k"
    using ub thread_unblock_idle [OF g(3) assms(2)] by (simp_all add: good_def)
qed

lemma thread_unblock_inv: "kinv k \<Longrightarrow> thread_unblock t k = Some k' \<Longrightarrow> t \<notin> set (alarm_list k) \<Longrightarrow> kinv k'"
  using thread_unblock_good [of k t k'] kinv_sync [of k' k] by (simp add: kinv_def)

lemma kinv_upd_cur:
  assumes "kinv k" and "\<And>th. elem (f th) = elem th" "\<And>th. wake_up_time (f th) = wake_up_time th" "\<And>th. magic (f th) = magic th"
    and "\<And>th. status (f th) = status th" and "\<And>th. threads k (cur k) = Some th \<Longrightarrow> don_ok th \<Longrightarrow> don_ok (f th)"
  shows "kinv (upd_thread (cur k) f k)"
proof -
  have k: "good k" "stacks_ok k" "lock_ok k" "\<not> in_external_intr k" "sleep_ok k" using assms(1) by (simp_all add: kinv_def)
  show ?thesis by (rule kinv_sync [OF good_upd_cur [OF k(1) assms(2-6)] k(2-4)]) (use k(5) in simp_all)
qed

lemma thread_set_priority_inv:
  assumes "kinv k" and "PRI_MIN \<le> p" "p \<le> PRI_MAX" and "thread_set_priority p k = Some k'"
  shows "kinv k'"
proof (cases "thread_mlfqs k")
  case True
  then show ?thesis using assms by (simp add: thread_set_priority_def)
next
  case False
  have g: "good k" using assms(1) by (simp add: kinv_def)
  then obtain th where th: "threads k (cur k) = Some th" by (rule good_cur) blast
  have tc: "thread_current (k\<lparr>level := INTR_OFF\<rparr>) = Some (cur k)"
    using good_thread_current [OF g] by (simp add: thread_current_iff)
  let ?f = "stored_priority_update (\<lambda>ps. ps[0 := p])" and ?g = "priority_update (\<lambda>_. p)"
  show ?thesis
  proof (cases "stored_index th = 0")
    case i: False
    then have "k' = (upd_thread (cur k) ?f (k\<lparr>level := INTR_OFF\<rparr>))\<lparr>level := level k\<rparr>"
      using assms(4) False th tc
      by (auto simp: thread_set_priority_def intr_disable_def intr_get_level_def bind_eq_Some_conv restore_level_iff)
    then have "k' = upd_thread (cur k) ?f k" by (simp add: upd_thread_def)
    moreover have "kinv (upd_thread (cur k) ?f k)"
      by (rule kinv_upd_cur [OF assms(1)]) (use assms(2,3) i th in \<open>auto simp: don_ok_def nth_list_update\<close>)
    ultimately show ?thesis by simp
  next
    case i: True
    then have "thread_yield ((upd_thread (cur k) ?g (k\<lparr>level := INTR_OFF\<rparr>))\<lparr>level := level k\<rparr>) = Some k'"
      using assms(4) False th tc
      by (auto simp: thread_set_priority_def intr_disable_def intr_get_level_def bind_eq_Some_conv restore_level_iff)
    moreover have "(upd_thread (cur k) ?g (k\<lparr>level := INTR_OFF\<rparr>))\<lparr>level := level k\<rparr> = upd_thread (cur k) ?g k" by (simp add: upd_thread_def)
    moreover have "kinv (upd_thread (cur k) ?g k)"
      by (rule kinv_upd_cur [OF assms(1)]) (use assms(2,3) in \<open>auto simp: don_ok_def\<close>)
    ultimately show ?thesis using thread_yield_inv by simp
  qed
qed


subsection \<open>New threads\<close>

lemma blank_ok: "PRI_MIN \<le> p \<Longrightarrow> p \<le> PRI_MAX \<Longrightarrow> don_ok (blank_thread t nm p)"
  by (simp add: don_ok_def blank_thread_def)

lemma init_thread_iff:
  "init_thread all_less t nm pri k = Some k' \<longleftrightarrow> t \<noteq> NULL \<and> PRI_MIN \<le> pri \<and> pri \<le> PRI_MAX \<and>
     (level k = INTR_ON \<longrightarrow> \<not> in_external_intr k) \<and>
     k' = k\<lparr>threads := (threads k)(t \<mapsto> blank_thread t nm pri), all_list := insort_by all_less t (all_list k)\<rparr>"
  by (auto simp: init_thread_def intr_disable_def intr_get_level_def restore_level_iff)

lemma init_thread_good:
  assumes "good k" and "threads k t = None" and "init_thread all_less t nm pri k = Some k'"
  shows "good k'" 
proof -
  have t: "t \<noteq> NULL" "PRI_MIN \<le> pri" "pri \<le> PRI_MAX" and
    k': "k' = k\<lparr>threads := (threads k)(t \<mapsto> blank_thread t nm pri), all_list := insort_by all_less t (all_list k)\<rparr>"
    using assms(3) by (simp_all add: init_thread_iff)
  have g: "core k" "status_ok {} (Some (cur k)) k" "idle_ok k" using assms(1) by (simp_all add: good_def)
  have al: "t \<notin> set (alarm_list k)" "t \<notin> set (all_list k)" "cur k \<noteq> t" using g(2) assms(2) by (auto simp: status_ok_def)
  have el: "elem_of k' = (elem_of k)(t \<mapsto> Unlinked)" by (auto simp: elem_of_def k' blank_thread_def fun_eq_iff)
  have w: "waiting k' = waiting k" by (simp add: waiting_def k' fun_eq_iff)
  have q: "t \<notin> set (ready_list k)" "\<And>s. t \<notin> set (waiting k s)" using g(1) assms(2) by (auto simp: core_def elems_ok_def elem_of_def)
  have p: "prio k' u = prio k u" "wake_time k' u = wake_time k u" if "u \<noteq> t" for u
    using that by (simp_all add: k' prio_def wake_time_def)
  have o: "ord_by (thread_priority_large_func k') xs = ord_by (thread_priority_large_func k) xs" if "t \<notin> set xs" for xs
    by (intro ord_prio_cong p(1)) (use that in auto)
  have oa: "ord_by (alarm_less_func k') (alarm_list k) = ord_by (alarm_less_func k) (alarm_list k)"
    by (intro ord_alarm_cong p(2)) (use al in auto)
  have "elems_ok k'" using g(1) q unfolding core_def elems_ok_def el w by (auto simp: k' elem_of_def assms(2))
  moreover have "order_ok k'" using g(1) o q by (simp add: core_def order_ok_def w) (simp add: k')
  moreover have "threads_ok k'" using g(1) t blank_ok [OF t(2,3)]
    by (auto simp: core_def threads_ok_def k' split: if_splits) (simp add: blank_thread_def)
  moreover have "alarm_ok k'" using g(1) oa al by (simp add: core_def alarm_ok_def) (simp add: k')
  ultimately have "core k'" by (simp add: core_def)
  moreover have "status_ok {} (Some (cur k)) k'"
    using g(2) al unfolding status_ok_def status_at_def by (auto simp: k' blank_thread_def)
  moreover have "idle_ok k'" using g(3) al(1) by (auto simp: idle_ok_def k' blank_thread_def)
  ultimately show ?thesis by (simp add: good_def k')
qed

text \<open>The creator's stack gets a frame that mentions the new thread, whose own stack is empty.\<close>

lemma stacks_create:
  assumes ok: "stacks_ok k" and top: "frames k (cur k) = g # fs" "\<not> light g" "\<not> starting g" "2 < rank g"
    and t: "threads k t = None" "t \<noteq> NULL" and c: "rank f = 2" "creates f = Some t"
    and k': "frames k' = (frames k)(cur k := f # frames k (cur k))" "dom (threads k') = insert t (dom (threads k))" "idle_thread k' = idle_thread k"
  shows "stacks_ok k'"
proof -
  have ft: "frames k t = []" using stacksD(2) [OF ok t(1)] .
  have tc: "t \<noteq> cur k" using ft top(1) by auto
  have ti: "t \<noteq> idle_thread k" using stacksD(7) [OF ok] t by auto
  have nf: "\<not> starting f" "\<not> light f" using creates_rank [OF c(2)] by simp_all
  have gs: "sorted_wrt above (g # fs)" using stacksD(1) [OF ok, of "cur k"] top(1) by simp
  have nocr: "creates h = None" if "h \<in> set (g # fs)" for h
  proof -
    have "h = g \<or> above g h" using gs that by auto
    then have "rank h \<noteq> 2" using top(2,4) by (auto simp: above_def)
    then show ?thesis by (rule creates_None)
  qed
  have nt: "\<not> creating k u t" for u using stacksD(3) [OF ok] t(1) by blast
  have ni: "cur k \<noteq> idle_thread k" using stacksD(6) [OF ok, of g] top(1) not_idling [OF top(2,3)] by auto
  have nl: "\<not> creating k u (cur k)" for u using stacksD(4) [OF ok, of u "cur k" g] top(1,2) by auto
  have cr: "creating k' u s \<longleftrightarrow> u = cur k \<and> s = t \<or> creating k u s" for u s
    using c(2) by (auto simp: creating_def k')
  have d: "threads k' u = None \<longleftrightarrow> u \<noteq> t \<and> threads k u = None" for u
  proof -
    have "u \<in> dom (threads k') \<longleftrightarrow> u = t \<or> u \<in> dom (threads k)" by (simp add: k'(2))
    then show ?thesis by (simp only: domIff) blast
  qed
  have ab: "sorted_wrt above (f # g # fs)" using gs nf c(1) top(2,4) by (auto simp: above_def)
  show ?thesis unfolding stacks_ok_def
  proof (intro conjI allI impI ballI)
    fix u show "sorted_wrt above (frames k' u)" using ab stacksD(1) [OF ok, of u] top(1) by (simp add: k')
  next
    fix u assume "threads k' u = None"
    then have "threads k u = None" using d [of u] by simp
    then have "frames k u = []" by (rule stacksD(2) [OF ok])
    then show "frames k' u = []" using top(1) k'(1) by auto
  next
    fix u s assume "creating k' u s"
    then show "threads k' s \<noteq> None" using cr [of u s] d [of s] stacksD(3) [OF ok, of u s] by auto
  next
    fix u s assume "creating k' u s"
    then show "s \<noteq> idle_thread k'" using cr [of u s] ti stacksD(8) [OF ok, of u s] k'(3) by auto
  next
    fix u s h assume h: "creating k' u s" "h \<in> set (frames k' s)"
    then show "light h" using cr [of u s] nl [of u] ft tc stacksD(4) [OF ok, of u s h] by (auto simp: k' split: if_splits)
  next
    fix u v s assume "creating k' u s \<and> creating k' v s"
    then show "u = v" using cr [of u s] cr [of v s] nt [of u] nt [of v] stacksD(5) [OF ok, of u s v] by auto
  next
    fix h assume "h \<in> set (frames k' (idle_thread k'))"
    then show "idling h" using ni k'(1,3) stacksD(6) [OF ok, of h] by simp
  next
    assume "idle_thread k' \<noteq> NULL"
    then show "threads k' (idle_thread k') \<noteq> None" using d k'(3) stacksD(7) [OF ok] by simp
  qed
qed

lemma thread_create_inv:
  assumes "kinv k" and top: "frames k (cur k) = g # fs" "\<not> light g" "\<not> starting g" "2 < rank g"
    and "threads k page = None" and "thread_create all_less page nm pri func aux k = Some k'"
  shows "kinv k'"
proof (cases "page = NULL")
  case True
  then show ?thesis using assms by (simp add: thread_create_def)
next
  case False
  have k: "good k" "stacks_ok k" "lock_ok k" "\<not> in_external_intr k" "sleep_ok k" using assms(1) by (simp_all add: kinv_def)
  let ?f = "Alloc_tid (For_create page func aux)"
  obtain k1 where i: "init_thread all_less page nm pri k = Some k1"
    and a: "lock_acquire (tid_lock k1) (push_frame ?f k1) = Some k'"
    using assms(7) False by (auto simp: thread_create_def allocate_tid_def bind_eq_Some_conv)
  have g1: "good k1" by (rule init_thread_good [OF k(1) assms(6) i])
  have k1: "k1 = k\<lparr>threads := (threads k)(page \<mapsto> blank_thread page nm pri), all_list := insort_by all_less page (all_list k)\<rparr>"
    using i by (simp add: init_thread_iff)
  have "stacks_ok (push_frame ?f k1)"
    by (rule stacks_create [OF k(2) top assms(6) False, of ?f]) (simp_all add: k1)
  moreover have "lock_ok (push_frame ?f k1)"
  proof -
    have "lock_ok k1 = lock_ok k" by (rule lock_ok_cong) (simp_all add: k1 lock_value_def owners_def)
    then show ?thesis using k(3) by (simp add: lock_ok_push frame_simps)
  qed
  ultimately have "kinv (push_frame ?f k1)" using g1 k(4,5) by (simp add: kinv_def k1)
  then show ?thesis using lock_acquire_inv [OF may_wait_pushed a] by simp
qed

lemma thread_start_inv:
  assumes "kinv k" and "frames k (cur k) = Body # fs" and "threads k page = None"
    and "thread_start all_less page s k = Some k'"
  shows "kinv k'"
proof -
  obtain k1 where i: "sema_init (Sema s) 0 k = Some k1"
    and c: "thread_create all_less page ''idle'' PRI_MIN F_idle s (push_frame (Thread_start_rest s) k1) = Some k'"
    using assms(4) by (auto simp: thread_start_def bind_eq_Some_conv)
  have g: "good k" using assms(1) by (simp add: kinv_def)
  have k1: "kinv k1" using sema_init_inv [OF assms(1) _ i] by simp
  have s1: "frames k1 = frames k" "cur k1 = cur k" "threads k1 page = None"
    using sema_init_good(2,3) [OF g i] assms(3) by (auto simp: same_sync_def)
  have "kinv (push_frame (Thread_start_rest s) k1)"
    by (rule kinv_push_on [OF k1, of Body fs]) (use s1 assms(2) in \<open>simp_all add: frame_simps\<close>)
  then show ?thesis
    by (rule thread_create_inv [where g = "Thread_start_rest s", OF _ _ _ _ _ _ c]) (use s1 in simp_all)
qed

lemma alloc_tid_inv:
  assumes "kinv (push_frame (Alloc_tid u) k)" and "alloc_tid u k = Some k'"
  shows "kinv k'"
proof -
  let ?f = "Alloc_tid_done u (next_tid k)"
  have "kinv (push_frame ?f k)"
    by (rule kinv_replace [OF assms(1)]) (cases u; simp add: frame_simps)+
  moreover have "push_frame ?f (k\<lparr>next_tid := wrap_s32 (next_tid k + 1)\<rparr>) = (push_frame ?f k)\<lparr>next_tid := wrap_s32 (next_tid k + 1)\<rparr>"
    by (simp add: push_frame_def)
  ultimately have "kinv (push_frame ?f (k\<lparr>next_tid := wrap_s32 (next_tid k + 1)\<rparr>))" by simp
  then show ?thesis using lock_release_inv [OF may_wait_pushed] assms(2) by (simp add: alloc_tid_def)
qed


lemma good_upd:
  assumes "good k" and "\<And>th. priority (f th) = priority th" "\<And>th. elem (f th) = elem th"
    "\<And>th. wake_up_time (f th) = wake_up_time th" "\<And>th. don_ok (f th) = don_ok th" "\<And>th. magic (f th) = magic th"
    "\<And>th. status (f th) = status th"
  shows "good (upd_thread t f k)"
proof -
  have "idle_ok (upd_thread t f k)" by (rule idle_ok_upd) (use assms in \<open>simp_all add: good_def\<close>)
  then show ?thesis
    using assms(1) core_upd [of f t k, OF assms(2-6)] status_ok_upd [of f "{}" "Some (cur k)" t k, OF assms(7,3)]
    by (simp add: good_def)
qed

text \<open>The new thread starts with the frame of \<open>kernel_thread\<close> at the bottom of its stack.\<close>

lemma stacks_start:
  assumes ok: "stacks_ok (push_frame g k)" and g: "creates g = Some t"
    and k': "frames k' = (frames k)(t := frames k t @ [Kernel_thread f a])" "dom (threads k') = dom (threads k)" "idle_thread k' = idle_thread k"
  shows "stacks_ok k'"
proof -
  let ?K = "push_frame g k"
  have c: "creating ?K (cur k) t" using g by (simp add: creating_def)
  have r: "rank g = 2" "\<not> light g" "\<not> starting g" using creates_rank [OF g] by simp_all
  have tc: "t \<noteq> cur k" using stacksD(4) [OF ok c, of g] r(2) by auto
  have lt: "\<forall>h \<in> set (frames k t). light h" using stacksD(4) [OF ok c] tc by simp
  have nc: "\<not> creating k u t" for u
  proof
    assume u: "creating k u t"
    then have "u = cur k" using stacksD(5) [OF ok _ c, of u] by (simp add: creating_push)
    then obtain h where h: "h \<in> set (frames k (cur k))" "creates h = Some t" using u by (auto simp: creating_def)
    then have "above g h" using push_sorted [OF ok] by blast
    then show False using r creates_rank [OF h(2)] by (simp add: above_def)
  qed
  show ?thesis
  proof (rule stacks_change [OF stacks_pop [OF ok] k'(2,3), where c = t])
    show "threads k t \<noteq> None" using stacksD(3) [OF ok c] by simp
    show "sorted_wrt above (frames k' t)"
      using stacksD(1) [OF ok, of t] tc lt by (auto simp: k' sorted_wrt_append above_def)
    show "creating k t s" if "h \<in> set (frames k' t)" "creates h = Some s" for h s
      using that lt creates_rank [OF that(2)] by (auto simp: k')
    show "light h" if "creating k u t" for h u using that nc by blast
    show "idling h" if "t = idle_thread k" for h using that stacksD(8) [OF ok c] by simp
  qed (simp add: k')
qed

lemma thread_create_rest_inv:
  assumes "kinv (push_frame (Alloc_tid_done (For_create t func aux) n) k)"
    and "thread_create_rest t func aux (upd_thread t (tid_update (\<lambda>_. n)) k) = Some k'"
  shows "kinv k'"
proof -
  let ?g = "Alloc_tid_done (For_create t func aux) n"
  have s: "stacks_ok (push_frame ?g k)" and K: "good k" "lock_ok k" "\<not> in_external_intr k" "sleep_ok k"
    using assms(1) by (simp_all add: kinv_push frame_simps)
  define k3 where "k3 = upd_thread t (stack_update (\<lambda>p. p - 28)) (upd_thread t (stack_update (\<lambda>p. p - 4))
    (upd_thread t (stack_update (\<lambda>p. p - 12)) (upd_thread t (tid_update (\<lambda>_. n)) k)))"
  define k4 where "k4 = k3\<lparr>frames := (frames k3)(t := frames k3 t @ [Kernel_thread func aux])\<rparr>"
  obtain k5 where u: "thread_unblock t k4 = Some k5"
    and k': "(if prio k5 (cur k5) < prio k5 t then thread_yield k5 else Some k5) = Some k'"
    using assms(2)
    by (auto simp: thread_create_rest_def alloc_frame_def bind_eq_Some_conv thread_current_iff k3_def k4_def split: if_splits)
  have g3: "good k3" unfolding k3_def by (intro good_upd K(1)) simp_all
  have y3: "same_sync k k3" unfolding k3_def by (intro same_sync_trans [OF _ same_sync_upd]) simp
  have g4: "good k4" using g3 by (simp add: k4_def)
  have s4: "stacks_ok k4" by (rule stacks_start [OF s, of t]) (use y3 in \<open>simp_all add: k4_def same_sync_def\<close>)
  have l4: "lock_ok k4"
  proof -
    have "lock_ok k4 = lock_ok k3" by (rule lock_ok_cong) (auto simp: k4_def lock_value_def owners_def lock_down_def split: if_splits)
    then show ?thesis using lock_ok_sync [OF y3] K(2) by simp
  qed
  have e4: "\<not> in_external_intr k4" using y3 K(3) by (simp add: k4_def same_sync_def)
  have a4: "alarm_list k4 = alarm_list k" by (simp add: k4_def k3_def)
  have al: "t \<notin> set (alarm_list k4)"
  proof
    assume "t \<in> set (alarm_list k4)"
    then obtain f where f: "f \<in> set (frames k t)" "\<not> light f" using K(4) a4 by (auto simp: sleep_ok_def)
    have "creating (push_frame ?g k) (cur k) t" by (simp add: creating_def)
    then show False using stacksD(4) [OF s, of "cur k" t f] f by (cases "t = cur k") simp_all
  qed
  have "sleep_ok k4"
  proof -
    have "set (frames k u) \<subseteq> set (frames k4 u)" for u using y3 by (auto simp: k4_def same_sync_def)
    then show ?thesis using K(4) unfolding sleep_ok_def a4 by blast
  qed
  then have "kinv k5" using thread_unblock_inv [OF _ u al] g4 s4 l4 e4 by (simp add: kinv_def)
  then show ?thesis using k' thread_yield_inv by (auto split: if_splits)
qed

lemma alloc_tid_done_inv:
  assumes "kinv (push_frame (Alloc_tid_done u n) k)" and "alloc_tid_done u n k = Some k'"
  shows "kinv k'"
proof (cases u)
  case For_init
  have "kinv k" using assms(1) stacks_pop [of "Alloc_tid_done u n" k] by (simp add: kinv_push frame_simps) (simp add: kinv_def)
  moreover have "k' = upd_thread (initial_thread k) (tid_update (\<lambda>_. n)) k" using assms(2) For_init by (simp add: alloc_tid_done_def)
  ultimately show ?thesis
    using kinv_sync [of k' k] good_upd [of k "tid_update (\<lambda>_. n)" "initial_thread k"] by (simp add: kinv_def)
next
  case (For_create t func aux)
  then show ?thesis using assms thread_create_rest_inv by (simp add: alloc_tid_done_def)
qed

lemma kernel_thread_inv:
  assumes "kinv (push_frame (Kernel_thread f a) k)" and "kernel_thread f a k = Some k'"
  shows "kinv k'"
proof -
  let ?K = "push_frame (Kernel_thread f a) k"
  let ?f = "if f = F_idle then Idle_start a else Body"
  have s: "stacks_ok ?K" and K: "good k" "lock_ok k" "\<not> in_external_intr k" "sleep_ok k"
    using assms(1) by (simp_all add: kinv_push frame_simps)
  have k': "k' = push_frame ?f (k\<lparr>level := INTR_ON\<rparr>)"
    using assms(2) by (auto simp: kernel_thread_def intr_enable_def bind_eq_Some_conv)
  have e: "frames k (cur k) = []" by (rule starting_alone [OF s]) simp
  have "stacks_ok k'"
  proof (rule stacks_change [OF s, where c = "cur k"])
    show "threads ?K (cur k) \<noteq> None" using push_alive [OF s] by simp
    show "sorted_wrt above (frames k' (cur k))" by (simp add: k' e)
    show "creating ?K (cur k) t" if "h \<in> set (frames k' (cur k))" "creates h = Some t" for h t
      using that by (auto simp: k' e split: if_splits)
    show "light h" if "creating ?K u (cur k)" for h u using that push_not_created [OF s] by simp
    show "idling h" if "cur k = idle_thread ?K" for h using that push_not_idle [OF s] by (simp add: idling_def)
  qed (simp_all add: k')
  moreover have "lock_ok k'" using K(2) by (simp add: k' lock_ok_push frame_simps)
  ultimately show ?thesis using K by (simp add: kinv_def k')
qed

lemma kinv_idle_push:
  assumes "kinv (push_frame g k)" "starting g" "g = Idle_start s \<or> g = Idle_loop \<or> g = Idle_wake" "f = Idle_loop \<or> f = Idle_wake"
    and "k' = k \<or> k' = k\<lparr>idle_thread := cur k\<rparr>"
  shows "kinv (push_frame f k')"
proof -
  let ?K = "push_frame g k"
  have "plain g" using assms(3) by (auto simp: frame_simps)
  then have s: "stacks_ok ?K" and K: "good k" "lock_ok k" "\<not> in_external_intr k" "sleep_ok k"
    using assms(1) by (simp_all add: kinv_push)
  have e: "frames k (cur k) = []" by (rule starting_alone [OF s assms(2)])
  have nl: "\<not> light g" using assms(3) by auto
  have "stacks_ok (push_frame f k)"
  proof (rule stacks_change [OF s, where c = "cur k"])
    show "threads ?K (cur k) \<noteq> None" using push_alive [OF s] by simp
    show "sorted_wrt above (frames (push_frame f k) (cur k))" by (simp add: e)
    show "creating ?K (cur k) t" if "h \<in> set (frames (push_frame f k) (cur k))" "creates h = Some t" for h t
      using that assms(4) by (auto simp: e)
    show "light h" if "creating ?K u (cur k)" for h u using that push_not_created [OF s nl] by simp
    show "idling h" if "h \<in> set (frames (push_frame f k) (cur k))" for h using that assms(4) by (auto simp: e idling_def)
  qed simp_all
  moreover have "stacks_ok (push_frame f (k\<lparr>idle_thread := cur k\<rparr>))"
  proof -
    let ?k = "push_frame f (k\<lparr>idle_thread := cur k\<rparr>)"
    have fr: "frames ?k = frames (push_frame f k)" "threads ?k = threads (push_frame f k)" "idle_thread ?k = cur k" by simp_all
    have cr: "creating ?k = creating (push_frame f k)" by (simp add: creating_def fun_eq_iff)
    have "\<not> creating (push_frame f k) u (cur k)" for u
      using push_not_created [OF s nl, of u] assms(4) by (auto simp: creating_push)
    then show ?thesis
      using stacksD [OF \<open>stacks_ok (push_frame f k)\<close>] push_alive [OF s] assms(4) e unfolding stacks_ok_def fr cr
      by (auto simp: idling_def)
  qed
  moreover have "good (k\<lparr>idle_thread := cur k\<rparr>)"
  proof -
    obtain th where "threads k (cur k) = Some th" "status th = THREAD_RUNNING" "elem th = Unlinked" "cur k \<notin> set (alarm_list k)"
      by (rule good_cur [OF K(1)]) blast
    then show ?thesis using K(1) by (simp add: good_def idle_ok_def)
  qed
  moreover have "plain f" using assms(4) by (auto simp: frame_simps)
  ultimately show ?thesis using K assms(5) by (auto simp: kinv_push)
qed


lemma idle_inv:
  assumes "kinv (push_frame (Idle_start s) k)" and "idle s k = Some k'"
  shows "kinv k'"
proof -
  have g: "good k" using assms(1) by (simp add: kinv_def)
  have "kinv (push_frame Idle_loop (k\<lparr>idle_thread := cur k\<rparr>))"
    by (rule kinv_idle_push [OF assms(1)]) simp_all
  then show ?thesis
    by (rule sema_up_inv [where s = "Sema s"]) (use assms(2) in \<open>simp_all add: idle_def good_thread_current [OF g]\<close>)
qed

lemma idle_loop_inv:
  assumes "kinv (push_frame Idle_loop k)" and "idle_loop k = Some k'"
  shows "kinv k'"
proof -
  have "kinv (push_frame Idle_wake k)" by (rule kinv_idle_push [OF assms(1)]) simp_all
  moreover have "push_frame Idle_wake (k\<lparr>level := INTR_OFF\<rparr>) = (push_frame Idle_wake k)\<lparr>level := INTR_OFF\<rparr>"
    by (simp add: push_frame_def)
  ultimately show ?thesis using thread_block_inv [of "push_frame Idle_wake (k\<lparr>level := INTR_OFF\<rparr>)"] assms(2)
    by (simp add: idle_loop_def intr_disable_def)
qed

lemma idle_wake_inv:
  assumes "kinv (push_frame Idle_wake k)" and "idle_wake k = Some k'"
  shows "kinv k'"
proof -
  have "kinv (push_frame Idle_loop k)" by (rule kinv_idle_push [OF assms(1)]) simp_all
  moreover have "k' = (push_frame Idle_loop k)\<lparr>level := INTR_ON\<rparr>" using assms(2) by (auto simp: idle_wake_def push_frame_def)
  ultimately show ?thesis by simp
qed

subsection \<open>The timer\<close>

lemma core_alarm:
  assumes "core k" "distinct al" "ord_by (alarm_less_func k) al"
  shows "core (k\<lparr>alarm_list := al\<rparr>)"
proof -
  let ?k = "k\<lparr>alarm_list := al\<rparr>"
  have "prio ?k = prio k" "wake_time ?k = wake_time k" by simp_all
  then show ?thesis using assms core_prio_fun [of ?k k] core_wake_fun [of ?k k]
    by (simp add: core_def elems_ok_def order_ok_def threads_ok_def alarm_ok_def)
qed

lemma timer_sleep_inv:
  assumes "kinv k" and "frames k (cur k) = Body # fs" and "timer_sleep n k = Some k'"
  shows "kinv k'"
proof (cases "n \<le> 0")
  case True
  then show ?thesis using assms by (simp add: timer_sleep_def)
next
  case False
  have k: "good k" "stacks_ok k" "lock_ok k" "\<not> in_external_intr k" "sleep_ok k" using assms(1) by (simp_all add: kinv_def)
  have g: "core k" "status_ok {} (Some (cur k)) k" "idle_ok k" using k(1) by (simp_all add: good_def)
  obtain th where th: "threads k (cur k) = Some th" "status th = THREAD_RUNNING" "elem th = Unlinked"
    "cur k \<notin> set (alarm_list k)" "cur k \<in> set (all_list k)" by (rule good_cur [OF k(1)]) blast
  let ?u = "wake_up_time_update (\<lambda>_. wrap_s64 (n + ticks k))"
  let ?k2 = "upd_thread (cur k) ?u (k\<lparr>level := INTR_OFF\<rparr>)"
  let ?k3 = "?k2\<lparr>alarm_list := insort_by (alarm_less_func ?k2) (cur k) (alarm_list k)\<rparr>"
  let ?k4 = "push_frame (Sleep_rest (level k)) ?k3"
  have tc: "thread_current (k\<lparr>level := INTR_OFF\<rparr>) = Some (cur k)"
    using good_thread_current [OF k(1)] by (simp add: thread_current_iff)
  have b: "thread_block ?k4 = Some k'"
    using assms(3) False tc th(4) by (auto simp: timer_sleep_def intr_disable_def intr_get_level_def timer_ticks_def Let_def)
  have w: "wake_time ?k2 u = wake_time k u" if "u \<noteq> cur k" for u using that by (simp add: wake_time_def)
  have d: "distinct (alarm_list k)" and o: "ord_by (alarm_less_func ?k2) (alarm_list k)"
  proof -
    show "distinct (alarm_list k)" using g(1) by (simp add: core_def alarm_ok_def)
    have "ord_by (alarm_less_func ?k2) (alarm_list k) = ord_by (alarm_less_func k) (alarm_list k)"
      by (intro ord_alarm_cong w) (use th(4) in auto)
    then show "ord_by (alarm_less_func ?k2) (alarm_list k)" using g(1) by (simp add: core_def alarm_ok_def)
  qed
  have "core ?k2"
  proof -
    have "elem_of ?k2 = elem_of k" "prio ?k2 = prio k" "waiting ?k2 = waiting k" by simp_all
    moreover have "threads_ok (k\<lparr>level := INTR_OFF\<rparr>) = threads_ok k" by (simp add: threads_ok_def)
    then have "threads_ok ?k2 = threads_ok k" by simp
    ultimately show ?thesis using g(1) o d core_prio_fun [of ?k2 k] by (simp add: core_def elems_ok_def order_ok_def alarm_ok_def)
  qed
  then have c3: "core ?k3"
    by (rule core_alarm) (use d o th(4) in \<open>simp_all add: alarm_order.insort_by_ord\<close>)
  have s2: "status_ok {} (Some (cur k)) ?k2" using g(2) status_ok_upd [of ?u "{}" "Some (cur k)" "cur k" "k\<lparr>level := INTR_OFF\<rparr>"] by simp
  have s3: "status_ok {cur k} (Some (cur k)) ?k3"
    using s2 th(1) unfolding status_ok_def status_at_def by (auto split: if_splits)
  have w': "may_wait (push_frame Body (pop_frame k))"
    by (rule may_wait_pushed) (use assms(1) push_pop [OF assms(2)] in simp_all)
  then have mw: "may_wait k" using push_pop [OF assms(2)] by simp
  have i3: "idle_ok ?k3" using g(3) may_waitD(6) [OF mw] by (auto simp: idle_ok_def)
  have 4: "core ?k4" "status_ok {cur ?k4} (Some (cur ?k4)) ?k4" "idle_ok ?k4"
    using c3 s3 i3 by simp_all
  note B = thread_block_good [OF 4 b]
  have B': "good k'" "same_sync ?k4 k'" using B th by (simp_all add: elem_of_def)
  have "stacks_ok (push_frame (Sleep_rest (level k)) k)" using mw by (simp add: may_wait_def)
  moreover have "dom (threads ?k4) = dom (threads (push_frame (Sleep_rest (level k)) k))" using th(1) by auto
  ultimately have "stacks_ok ?k4" using stacks_ok_cong [of ?k4 "push_frame (Sleep_rest (level k)) k"] by simp
  moreover have "lock_ok ?k4"
  proof -
    have "lock_ok ?k4 = lock_ok k" by (rule lock_ok_cong) (auto simp: lock_value_def owners_def lock_down_def)
    then show ?thesis using k(3) by simp
  qed
  moreover have "sleep_ok ?k4" using k(5) by (auto simp: sleep_ok_def)
  ultimately show ?thesis using kinv_sync [OF B'(1) _ _ _ B'(2)] k(4) by simp
qed

lemma wake_loop_good:
  assumes "good k" and "alarm_list k = ts" and "wake_loop ts k = Some k'"
  shows "good k' \<and> same_sync k k' \<and> cur k' = cur k \<and> level k' = level k"
  using assms
proof (induction ts arbitrary: k)
  case Nil
  then show ?case by simp
next
  case (Cons t ts)
  have g: "core k" "status_ok {} (Some (cur k)) k" "idle_ok k" using Cons(2) by (simp_all add: good_def)
  obtain th where th: "threads k t = Some th" using Cons(4) by (auto simp: bind_eq_Some_conv)
  show ?case
  proof (cases "wake_up_time th > ticks k")
    case True
    then show ?thesis using Cons th by simp
  next
    case False
    then obtain k1 where u: "thread_unblock t k = Some k1" and r: "wake_loop ts (k1\<lparr>alarm_list := ts\<rparr>) = Some k'"
      using Cons(4) th by (auto simp: bind_eq_Some_conv)
    note ub = thread_unblock_core [OF g(1,2) u]
    let ?k = "k1\<lparr>alarm_list := ts\<rparr>"
    have al: "distinct (t # ts)" "ord_by (alarm_less_func k) (t # ts)" using g(1) Cons(3) by (simp_all add: core_def alarm_ok_def)
    have "alarm_less_func k1 = alarm_less_func k"
    proof (rule core_wake_fun)
      show "wake_time k1 = wake_time k" using ub(9) by (auto simp: wake_time_def fun_eq_iff)
    qed
    then have "core ?k" using core_alarm [OF ub(1), of ts] al by simp
    moreover have "status_ok {} (Some (cur k)) ?k" by (rule ub(10)) (use Cons(3) al in auto)
    moreover have "idle_ok ?k" using thread_unblock_idle [OF g(3) u] ub(5) Cons(3) by (auto simp: idle_ok_def)
    ultimately have g1: "good ?k" using ub(3) by (simp add: good_def)
    have y: "same_sync k ?k" using ub(2) Cons(3) by (auto simp: same_sync_def)
    show ?thesis using Cons(1) [OF g1 _ r] same_sync_trans [OF y] ub(3,4) by auto
  qed
qed

text \<open>The feedback scheduler recomputes priorities of threads that are in the run queue, and sorts
  the queue afterwards. \<open>unsorted k\<close>: everything holds but the order of the queue.\<close>

definition unsorted :: "kernel \<Rightarrow> kernel \<Rightarrow> bool" where
  "unsorted k0 k \<longleftrightarrow> elems_ok k \<and> threads_ok k \<and> alarm_ok k \<and> status_ok {} (Some (cur k)) k \<and> idle_ok k
     \<and> thread_mlfqs k \<and> same_sync k0 k \<and> cur k = cur k0 \<and> level k = level k0 \<and> ready_list k = ready_list k0"

lemma unsortedD:
  assumes "unsorted k0 k"
  shows "elems_ok k" "threads_ok k" "alarm_ok k" "status_ok {} (Some (cur k)) k" "idle_ok k" "thread_mlfqs k"
    "same_sync k0 k" "cur k = cur k0" "level k = level k0"
  using assms unfolding unsorted_def by blast+

lemma unsorted_upd:
  assumes "unsorted k0 k" and "\<And>th. elem (f th) = elem th" "\<And>th. wake_up_time (f th) = wake_up_time th"
    "\<And>th. magic (f th) = magic th" "\<And>th. status (f th) = status th" "\<And>th. don_ok th \<Longrightarrow> don_ok (f th)"
  shows "unsorted k0 (upd_thread t f k)"
proof -
  let ?k = "upd_thread t f k"
  have "elems_ok k" using assms(1) by (simp add: unsorted_def)
  then have "elems_ok ?k" using assms(2) by (simp add: elems_ok_def)
  moreover have "threads_ok ?k" using assms(1,4,6) by (auto simp: unsorted_def threads_ok_def split: if_splits)
  moreover have "alarm_ok ?k" using assms(1,3) core_wake_fun [of ?k k] by (simp add: unsorted_def alarm_ok_def)
  moreover have "status_ok {} (Some (cur ?k)) ?k" 
    using unsortedD(4) [OF assms(1)] status_ok_upd [of f "{}" "Some (cur k)" t k, OF assms(5,2)] by simp
  moreover have "idle_ok ?k" by (rule idle_ok_upd) (use assms in \<open>simp_all add: unsorted_def\<close>)
  moreover have "same_sync k0 ?k" using assms(1) same_sync_trans [OF _ same_sync_upd] by (simp add: unsorted_def)
  ultimately show ?thesis using assms(1) by (simp add: unsorted_def)
qed

lemma foreach_inv:
  assumes "\<And>t k k'. P k \<Longrightarrow> func t k = Some k' \<Longrightarrow> P k'" and "foreach func ts k = Some k'" and "P k"
  shows "P k'"
  using assms(2,3)
  by (induction ts arbitrary: k) (auto simp: bind_eq_Some_conv intro: assms(1))

lemma nice_priority_range: "PRI_MIN \<le> nice_priority rc n \<and> nice_priority rc n \<le> PRI_MAX"
  by (simp add: nice_priority_def Let_def PRI_MIN_def PRI_MAX_def)

lemma unsorted_priority: "unsorted k0 k \<Longrightarrow> thread_update_priority_with_nice t k = Some k' \<Longrightarrow> unsorted k0 k'"
proof -
  assume u: "unsorted k0 k" and "thread_update_priority_with_nice t k = Some k'"
  then consider "k' = k" | rc n where "k' = upd_thread t (priority_update (\<lambda>_. nice_priority rc n)) k"
    by (auto simp: thread_update_priority_with_nice_def bind_eq_Some_conv split: if_splits)
  then show ?thesis
  proof cases
    case 1 then show ?thesis using u by simp
  next
    case 2
    show ?thesis unfolding 2 by (rule unsorted_upd [OF u]) (use nice_priority_range in \<open>auto simp: don_ok_def\<close>)
  qed
qed

lemma unsorted_recent: "unsorted k0 k \<Longrightarrow> thread_update_recent_cpu t k = Some k' \<Longrightarrow> unsorted k0 k'"
proof -
  assume u: "unsorted k0 k" and "thread_update_recent_cpu t k = Some k'"
  then consider "k' = k" | b m where "k' = upd_thread t (recent_cpu_update (\<lambda>rc. FP_ADD_INT (FP_MUL_FP b rc) m)) k"
    by (auto simp: thread_update_recent_cpu_def bind_eq_Some_conv split: if_splits)
  then show ?thesis
  proof cases
    case 1 then show ?thesis using u by simp
  next
    case 2
    show ?thesis unfolding 2 by (rule unsorted_upd [OF u]) (auto simp: don_ok_def)
  qed
qed


lemma good_unsorted: "good k \<Longrightarrow> thread_mlfqs k \<Longrightarrow> unsorted k k"
  by (simp add: good_def core_def unsorted_def)

lemma fold_insort_set: "set (fold (insort_by f) xs ys) = set xs \<union> set ys"
  by (induction xs arbitrary: ys) auto

lemma fold_insort_distinct: "distinct (xs @ ys) \<Longrightarrow> distinct (fold (insort_by f) xs ys)"
  by (induction xs arbitrary: ys) auto

lemma fold_insort_ord:
  "ord_by (thread_priority_large_func k) ys \<Longrightarrow> ord_by (thread_priority_large_func k) (fold (insort_by (thread_priority_large_func k)) xs ys)"
  by (induction xs arbitrary: ys) (auto simp: prio_order.insort_by_ord)

lemma sort_ready_good:
  assumes "unsorted k0 k"
  shows "good (sort_ready k)" "same_sync k0 (sort_ready k)" "cur (sort_ready k) = cur k0" "level (sort_ready k) = level k0"
proof -
  let ?k = "sort_ready k"
  have p: "prio ?k = prio k" "wake_time ?k = wake_time k" "elem_of ?k = elem_of k" "waiting ?k = waiting k"
    by (simp_all add: sort_ready_def)
  note u = unsortedD [OF assms]
  have r: "ready_list ?k = fold (insort_by (thread_priority_large_func k)) (ready_list k) []" by (simp add: sort_ready_def)
  have "elems_ok ?k" using u(1) unfolding elems_ok_def p r by (simp add: fold_insort_set fold_insort_distinct)
  moreover have "order_ok ?k"
    unfolding order_ok_def core_prio_fun [OF p(1)] r using u(6) by (simp add: fold_insort_ord sort_ready_def)
  moreover have "threads_ok ?k" using u(2) by (simp add: threads_ok_def sort_ready_def)
  moreover have "alarm_ok ?k" using u(3) unfolding alarm_ok_def core_wake_fun [OF p(2)] by (simp add: sort_ready_def)
  ultimately show "good ?k" using u(4,5) by (simp add: good_def core_def) (simp add: sort_ready_def)
  show "same_sync k0 ?k" "cur ?k = cur k0" "level ?k = level k0" using u by (simp_all add: sort_ready_def same_sync_def)
qed

lemma recent_cpu_all_good:
  assumes "good k" and "thread_update_recent_cpu_all k = Some k'"
  shows "good k' \<and> same_sync k k' \<and> cur k' = cur k \<and> level k' = level k"
proof -
  obtain k1 k2 where m: "thread_mlfqs k" and 1: "foreach thread_update_recent_cpu (all_list k) k = Some k1"
    and 2: "foreach thread_update_priority_with_nice (all_list k1) k1 = Some k2" and k': "k' = sort_ready k2"
    using assms(2)
    by (auto simp: thread_update_recent_cpu_all_def thread_foreach_def thread_update_priority_with_nice_all_def bind_eq_Some_conv)
  have "unsorted k k1"
    by (rule foreach_inv [of "unsorted k", OF _ 1 good_unsorted [OF assms(1) m]]) (rule unsorted_recent)
  then have "unsorted k k2" by (rule foreach_inv [of "unsorted k", OF _ 2, rotated]) (rule unsorted_priority)
  then show ?thesis unfolding k' using sort_ready_good by blast
qed

lemma good_cur_priority:
  assumes "good k" and "thread_update_priority_with_nice (cur k) k = Some k'"
  shows "good k' \<and> same_sync k k' \<and> cur k' = cur k \<and> level k' = level k \<and> frames k' = frames k"
proof -
  consider "k' = k" | rc n where "k' = upd_thread (cur k) (priority_update (\<lambda>_. nice_priority rc n)) k"
    using assms(2) by (auto simp: thread_update_priority_with_nice_def bind_eq_Some_conv split: if_splits)
  then show ?thesis
  proof cases
    case 1 then show ?thesis using assms(1) by simp
  next
    case 2
    have "good k'" unfolding 2
      by (rule good_upd_cur [OF assms(1)]) (use nice_priority_range in \<open>auto simp: don_ok_def\<close>)
    then show ?thesis by (simp add: 2)
  qed
qed

lemma mlfqs_tick_good:
  assumes "good k" and "mlfqs_tick k = Some k'"
  shows "good k' \<and> same_sync k k' \<and> cur k' = cur k \<and> level k' = level k"
proof -
  let ?P = "\<lambda>k k'. good k' \<and> same_sync k k' \<and> cur k' = cur k \<and> level k' = level k"
  obtain k1 k2 where 1: "thread_ins_recent_cpu k = Some k1"
    and 2: "(if c_mod (ticks k1) TIMER_FREQ = 0 then do { k' \<leftarrow> update_load_avg k1; thread_update_recent_cpu_all k' } else Some k1) = Some k2"
    and 3: "(if c_mod (ticks k2) 4 = 0 then do { c \<leftarrow> thread_current k2; thread_update_priority_with_nice c k2 } else Some k2) = Some k'"
    using assms(2) by (auto simp: mlfqs_tick_def bind_eq_Some_conv)
  have p1: "?P k k1"
  proof -
    consider "k1 = k" | "k1 = upd_thread (cur k) (recent_cpu_update (\<lambda>rc. FP_ADD_INT rc 1)) k"
      using 1 by (auto simp: thread_ins_recent_cpu_def good_thread_current [OF assms(1)] split: if_splits)
    then show ?thesis
    proof cases
      case 1 then show ?thesis using assms(1) by simp
    next
      case 2
      have "good k1" unfolding 2 by (rule good_upd_cur [OF assms(1)]) (auto simp: don_ok_def)
      then show ?thesis by (simp add: 2)
    qed
  qed
  have p2: "?P k1 k2"
  proof (cases "c_mod (ticks k1) TIMER_FREQ = 0")
    case True
    then obtain l where "thread_update_recent_cpu_all (k1\<lparr>load_avg := l\<rparr>) = Some k2"
      using 2 by (auto simp: update_load_avg_def bind_eq_Some_conv Let_def)
    then show ?thesis using recent_cpu_all_good [of "k1\<lparr>load_avg := l\<rparr>" k2] p1 by (simp add: same_sync_def)
  next
    case False then show ?thesis using 2 p1 by simp
  qed
  have p3: "?P k2 k'"
  proof (cases "c_mod (ticks k2) 4 = 0")
    case True
    then show ?thesis using 3 good_cur_priority [of k2 k'] good_thread_current [of k2] p2 by simp
  next
    case False then show ?thesis using 3 p2 by simp
  qed
  show ?thesis using p1 p2 p3 same_sync_trans by metis
qed

lemma thread_tick_good:
  assumes "good k" and "thread_tick k = Some k'"
  shows "good k' \<and> same_sync k k' \<and> cur k' = cur k \<and> level k' = level k"
  using assms(2) assms(1)
  by (cases "cur k = idle_thread k")
    (auto simp: thread_tick_def good_thread_current [OF assms(1)] intr_yield_on_return_def Let_def same_sync_def split: if_splits)

lemma timer_interrupt_good:
  assumes "good k" and "timer_interrupt k = Some k'"
  shows "good k' \<and> same_sync k k' \<and> cur k' = cur k \<and> level k' = level k"
proof -
  obtain k1 k2 where 1: "thread_tick (k\<lparr>ticks := ticks k + 1\<rparr>) = Some k1" and 2: "wake_loop (alarm_list k1) k1 = Some k2"
    and 3: "(if thread_mlfqs k2 then mlfqs_tick k2 else Some k2) = Some k'"
    using assms(2) by (auto simp: timer_interrupt_def bind_eq_Some_conv)
  have p1: "good k1 \<and> same_sync k k1 \<and> cur k1 = cur k \<and> level k1 = level k"
    using thread_tick_good [OF _ 1] assms(1) by (simp add: same_sync_def)
  have p2: "good k2 \<and> same_sync k1 k2 \<and> cur k2 = cur k1 \<and> level k2 = level k1"
    using wake_loop_good [OF _ refl 2] p1 by blast
  have p3: "good k' \<and> same_sync k2 k' \<and> cur k' = cur k2 \<and> level k' = level k2"
    using 3 mlfqs_tick_good [of k2 k'] p2 by (auto split: if_splits)
  show ?thesis using p1 p2 p3 same_sync_trans [of k k1 k2] same_sync_trans [of k k2 k'] by simp
qed

lemma timer_irq_inv:
  assumes "kinv k" and "timer_irq k = Some k'"
  shows "kinv k'"
proof -
  have k: "good k" "stacks_ok k" "lock_ok k" "\<not> in_external_intr k" "sleep_ok k" using assms(1) by (simp_all add: kinv_def)
  have al: "threads k (cur k) \<noteq> None" by (rule good_cur [OF k(1)]) simp
  let ?k0 = "(push_frame Intr_return k)\<lparr>level := INTR_OFF\<rparr>"
  let ?k1 = "?k0\<lparr>in_external_intr := True, yield_on_return := False\<rparr>"
  obtain k2 where 2: "timer_interrupt ?k1 = Some k2"
    and k': "(if yield_on_return k2 then thread_yield (k2\<lparr>in_external_intr := False\<rparr>) else Some (k2\<lparr>in_external_intr := False\<rparr>)) = Some k'"
    using assms(2) by (auto simp: timer_irq_def intr_handler_def bind_eq_Some_conv Let_def)
  have g1: "good ?k1" using k(1) by simp
  note p2 = timer_interrupt_good [OF g1 2]
  let ?k3 = "k2\<lparr>in_external_intr := False\<rparr>"
  have y: "same_sync ?k0 ?k3" using p2 k(4) by (auto simp: same_sync_def)
  have "stacks_ok ?k0" using stacks_push_light [OF k(2) _ al, of Intr_return] stacks_ok_cong [of ?k0 "push_frame Intr_return k"] by simp
  moreover have "lock_ok ?k0" using k(3) by (simp add: lock_ok_push frame_simps)
  moreover have "sleep_ok ?k0" using k(5) by simp
  ultimately have "kinv ?k3" using kinv_sync [OF _ _ _ _ y] p2 k(4) by simp
  then show ?thesis using k' thread_yield_inv by (auto split: if_splits)
qed

lemma thread_set_nice_inv:
  assumes "kinv k" and "thread_set_nice n k = Some k'"
  shows "kinv k'"
proof -
  have k: "good k" using assms(1) by (simp add: kinv_def)
  let ?k0 = "upd_thread (cur k) (nice_update (\<lambda>_. n)) k"
  have k0: "kinv ?k0" by (rule kinv_upd_cur [OF assms(1)]) simp_all
  obtain k1 where u: "thread_update_priority_with_nice (cur k) ?k0 = Some k1"
    and c: "(case ready_list k1 of [] \<Rightarrow> Some k1
      | t # _ \<Rightarrow> if prio k1 t > prio k1 (cur k) then thread_yield k1 else Some k1) = Some k'"
    using assms(2) by (auto simp: thread_set_nice_def good_thread_current [OF k] bind_eq_Some_conv)
  have r: "k' = k1 \<or> thread_yield k1 = Some k'" using c by (cases "ready_list k1") (auto split: if_splits)
  have "kinv k1" using good_cur_priority [of ?k0 k1] kinv_sync [of k1 ?k0] u k0 by (simp add: kinv_def)
  then show ?thesis using r thread_yield_inv by blast
qed

section \<open>Every step keeps the invariant\<close>

lemma exec_inv:
  assumes "kinv k" and "frames k (cur k) = Body # fs" and "permitted op k" and "exec op k = Some k'"
  shows "kinv k'"
proof -
  have pp: "push_frame Body (pop_frame k) = k" by (rule push_pop [OF assms(2)])
  have mw: "may_wait k" using may_wait_pushed [of Body "pop_frame k"] assms(1) pp by simp
  have top: "\<not> light Body" "\<not> starting Body" "2 < rank Body" by simp_all
  have K: "good k" using assms(1) by (simp add: kinv_def)
  show ?thesis
  proof (cases op)
    case Op_thread_create then show ?thesis using thread_create_inv [OF assms(1,2) top] assms(3,4) by simp
  next
    case Op_thread_start then show ?thesis using thread_start_inv [OF assms(1,2)] assms(3,4) by simp
  next
    case Op_thread_exit
    then show ?thesis using thread_exit_inv [of "pop_frame k" k] assms(1,4) pp by simp
  next
    case Op_thread_yield then show ?thesis using thread_yield_inv [OF assms(1)] assms(4) by simp
  next
    case Op_thread_block then show ?thesis using thread_block_inv [OF assms(1)] assms(4) by simp
  next
    case Op_thread_unblock then show ?thesis using thread_unblock_inv [OF assms(1)] assms(3,4) by simp
  next
    case Op_thread_set_priority then show ?thesis using thread_set_priority_inv [OF assms(1)] assms(3,4) by auto
  next
    case Op_thread_set_nice then show ?thesis using thread_set_nice_inv [OF assms(1)] assms(4) by simp
  next
    case (Op_sema_init s v) then show ?thesis using sema_init_inv [OF assms(1), of "Sema s" v k'] assms(4) by simp
  next
    case (Op_sema_down s) then show ?thesis using sema_down_inv [OF mw, of "Sema s" k'] assms(4) by simp
  next
    case (Op_sema_try_down s)
    then obtain b where d: "sema_try_down (Sema s) k = Some (b, k')" using assms(4) by auto
    note g = sema_try_down_good [OF K d]
    have "kinv (bump (Sema s) (\<lambda>v. v - 1) k)" 
      using assms(1) lock_ok_bump [of "Sema s" _ k] stacks_ok_cong [of "bump (Sema s) (\<lambda>v. v - 1) k" k] by (simp add: kinv_def)
    then show ?thesis using g(1,2) assms(1) kinv_sync [of k' "bump (Sema s) (\<lambda>v. v - 1) k"] kinv_sync [of k' k]
      by (auto simp: kinv_def split: if_splits)
  next
    case (Op_sema_up s) then show ?thesis using sema_up_inv [OF assms(1), of "Sema s" k'] assms(4) by simp
  next
    case Op_lock_init then show ?thesis using lock_init_inv [OF assms(1)] assms(3,4) by simp
  next
    case Op_lock_acquire then show ?thesis using lock_acquire_inv [OF mw] assms(4) by simp
  next
    case (Op_lock_try_acquire l)
    then show ?thesis using lock_try_acquire_inv [of "pop_frame k" l] assms(1,4) pp by auto
  next
    case Op_lock_release then show ?thesis using lock_release_inv [OF mw] assms(4) by simp
  next
    case Op_cond_init then show ?thesis using assms(1,4) by (auto simp: cond_init_def)
  next
    case Op_cond_wait then show ?thesis using cond_wait_inv [OF assms(1,2)] assms(4) by simp
  next
    case Op_cond_signal then show ?thesis using cond_signal_inv [OF assms(1)] assms(4) by simp
  next
    case (Op_cond_broadcast cv l)
    have "kinv (push_frame (Cond_broadcast_rest cv l) k)"
      by (rule kinv_push_on [OF assms(1,2)]) (simp_all add: frame_simps)
    then show ?thesis using cond_broadcast_inv [OF assms(1)] assms(4) Op_cond_broadcast by simp
  next
    case Op_timer_sleep then show ?thesis using timer_sleep_inv [OF assms(1,2)] assms(4) by simp
  next
    case Op_intr_disable then show ?thesis using assms(1,4) by (auto simp: intr_disable_def)
  next
    case Op_intr_enable then show ?thesis using assms(1,4) by (auto simp: intr_enable_def bind_eq_Some_conv)
  qed
qed

lemma resume_inv:
  assumes "kinv (push_frame f k)" and "resume f k = Some k'"
  shows "kinv k'"
proof (cases "(\<exists>l. f = Lock_try_rest l) \<or> lock_down f")
  case True
  then show ?thesis
  proof
    assume "\<exists>l. f = Lock_try_rest l"
    then show ?thesis using lock_try_rest_inv assms by auto
  next
    assume "lock_down f"
    moreover have "\<not> lock_down g" if "g \<in> set (frames (push_frame f k) (cur k))" for g
      using assms(1) that unfolding kinv_def lock_ok_def by blast
    ultimately show ?thesis by auto
  qed
next
  case False
  then have p: "plain f" by (simp add: plain_def)
  have pop: "kinv k" using assms(1) stacks_pop [of f k] by (simp add: kinv_push [OF p]) (simp add: kinv_def)
  have mw: "\<not> light f \<Longrightarrow> \<not> starting f \<Longrightarrow> may_wait k" using may_wait_popped [OF assms(1) _ _ p] by blast
  show ?thesis
  proof (cases f)
    case Body then show ?thesis using thread_exit_inv [of k k k'] assms by simp
  next
    case Alloc_tid then show ?thesis using alloc_tid_inv assms by simp
  next
    case Alloc_tid_done then show ?thesis using alloc_tid_done_inv assms by simp
  next
    case Kernel_thread then show ?thesis using kernel_thread_inv assms by simp
  next
    case (Thread_start_rest s)
    have "may_wait (k\<lparr>level := INTR_ON\<rparr>)" using may_wait_other(1) [OF mw] Thread_start_rest by simp
    then show ?thesis using sema_down_inv [of "k\<lparr>level := INTR_ON\<rparr>" "Sema s" k'] assms(2) Thread_start_rest
      by (auto simp: thread_start_rest_def intr_enable_def bind_eq_Some_conv)
  next
    case Idle_start then show ?thesis using idle_inv assms by simp
  next
    case Idle_loop then show ?thesis using idle_loop_inv assms by simp
  next
    case Idle_wake then show ?thesis using idle_wake_inv assms by simp
  next
    case Yield_rest then show ?thesis using pop assms(2) by (auto simp: yield_rest_def restore_level_iff)
  next
    case (Sema_down_rest s ol)
    then have "s \<noteq> Lock_sema l" for l using p by (auto simp: plain_def lock_down_def)
    then show ?thesis using sema_down_loop_inv [OF mw, of s ol k'] assms(2) Sema_down_rest by simp
  next
    case Lock_acquire_rest then show ?thesis using lock_acquire_loop_inv [OF mw] assms(2) by simp
  next
    case Lock_release_rest then show ?thesis using pop assms(2) by (auto simp: restore_level_iff)
  next
    case Lock_try_rest then show ?thesis using False by simp
  next
    case Cond_wait_sema then show ?thesis using cond_wait_sema_inv assms by simp
  next
    case Cond_wait_lock then show ?thesis using lock_acquire_inv [OF mw] assms(2) by simp
  next
    case Cond_broadcast_rest then show ?thesis using cond_broadcast_inv [OF pop] assms by simp
  next
    case Sleep_rest then show ?thesis using pop assms(2) by (auto simp: restore_level_iff)
  next
    case Intr_return then show ?thesis using pop assms(2) by (auto simp: intr_return_def)
  qed
qed

lemma step_inv: "step k k' \<Longrightarrow> kinv k \<Longrightarrow> kinv k'"
proof (induction rule: step.induct)
  case (call k fs op k')
  then show ?case using exec_inv by blast
next
  case (go_on k f fs k')
  then show ?case using resume_inv [of f "pop_frame k" k'] push_pop by simp
next
  case (tick k k')
  then show ?case using timer_irq_inv by blast
qed

end
