(* ===== verification/Kernel_Props.thy ===== *)
theory Kernel_Props
  imports Kernel_Safety
begin

text \<open>
  What the kernel guarantees in every reachable state, and what its operations do there.
\<close>

section \<open>The initial state\<close>

lemma thread_init_inv:
  assumes "thread_init all_less (boot page tlock mlfqs) = Some k"
  shows "kinv k"
proof -
  let ?b = "boot page tlock mlfqs"
  define th where "th = (blank_thread page ''main'' PRI_DEFAULT)\<lparr>status := THREAD_RUNNING\<rparr>"
  define k2 where "k2 = ?b\<lparr>threads := [page \<mapsto> th], all_list := [page], load_avg := INT_TO_FP 0, initial_thread := page,
    locks := [tlock \<mapsto> NULL], semas := [Lock_sema tlock \<mapsto> \<lparr>sema_value = 1, sema_waiters = []\<rparr>]\<rparr>"
  have n: "tlock \<noteq> NULL" "page \<noteq> NULL" and a: "allocate_tid For_init k2 = Some k"
    using assms
    by (auto simp: thread_init_def lock_init_def sema_init_def bind_eq_Some_conv init_thread_iff boot_def running_thread_def
        set_status_def upd_thread_def k2_def th_def Let_def)
  have d: "don_ok th" "magic th = THREAD_MAGIC" "status th = THREAD_RUNNING" "elem th = Unlinked"
    by (simp_all add: th_def don_ok_def blank_thread_def PRI_MIN_def PRI_MAX_def PRI_DEFAULT_def)
  have f: "threads k2 = [page \<mapsto> th]" "ready_list k2 = []" "all_list k2 = [page]" "alarm_list k2 = []" "cur k2 = page"
    "frames k2 = (\<lambda>_. [])(page := [Body])" "idle_thread k2 = NULL" "locks k2 = [tlock \<mapsto> NULL]" "\<not> in_external_intr k2"
    "semas k2 = [Lock_sema tlock \<mapsto> \<lparr>sema_value = 1, sema_waiters = []\<rparr>]"
    by (simp_all add: k2_def boot_def)
  have w: "waiting k2 s = []" for s by (simp add: waiting_def f)
  have e: "elem_of k2 = [page \<mapsto> Unlinked]" by (auto simp: elem_of_def f d fun_eq_iff)
  have "core k2" using d n(2) by (simp add: core_def elems_ok_def order_ok_def threads_ok_def alarm_ok_def f w e)
  moreover have "status_ok {} (Some (cur k2)) k2" using d by (simp add: status_ok_def status_at_def f)
  moreover have "idle_ok k2" using n(2) by (simp add: idle_ok_def f)
  ultimately have g: "good k2" by (simp add: good_def)
  have "stacks_ok k2" using n(2) by (auto simp: stacks_ok_def creating_def f split: if_splits)
  moreover have "owners k2 l = {}" for l by (auto simp: owners_def f split: if_splits)
  then have "lock_ok k2" using n(1) by (auto simp: lock_ok_def lock_at_def lock_value_def lock_down_def f)
  moreover have "sleep_ok k2" by (simp add: sleep_ok_def f)
  ultimately have k2: "kinv k2" using g f by (simp add: kinv_def)
  have "kinv (push_frame (Alloc_tid For_init) k2)"
    by (rule kinv_push_on [OF k2, of Body "[]"]) (simp_all add: f frame_simps)
  then show ?thesis using lock_acquire_inv [OF may_wait_pushed] a by (simp add: allocate_tid_def)
qed

lemma reachable_inv: "reachable k \<Longrightarrow> kinv k"
  by (induction rule: reachable.induct) (auto intro: thread_init_inv step_inv)


section \<open>Yielding\<close>

lemma dstack_other [simp]:
  "dstack (th\<lparr>elem := e\<rparr>) = dstack th" "dstack (th\<lparr>status := s\<rparr>) = dstack th"
  by (simp_all add: dstack_def)

text \<open>The order of the run queue with the running thread put back, unless it is the idle thread.\<close>

definition run_order :: "kernel \<Rightarrow> addr list" where
  "run_order k = (if cur k = idle_thread k then ready_list k
     else insort_by (thread_priority_large_func k) (cur k) (ready_list k))"

lemma schedule_eq:
  assumes "threads k (cur k) = Some th" "status th \<noteq> THREAD_RUNNING" "status th \<noteq> THREAD_DYING" "level k = INTR_OFF"
    and "next_thread_to_run k = (n, k1)" "is_thread k1 n"
  shows "schedule k = Some ((upd_thread n (status_update (\<lambda>_. THREAD_RUNNING)) (k1\<lparr>cur := n\<rparr>))\<lparr>thread_ticks := 0\<rparr>)"
proof -
  have k1: "cur k1 = cur k" "level k1 = level k" "\<exists>th1. threads k1 (cur k) = Some th1 \<and> status th1 = status th"
    using assms(1,5) by (auto simp: next_thread_to_run_def split: list.splits)
  then obtain th1 where th1: "threads k1 (cur k) = Some th1" "status th1 = status th" by blast
  show ?thesis
    using assms th1 k1(2)
    by (auto simp: schedule_def running_thread_def thread_schedule_tail_def intr_get_level_def Let_def is_thread_def)
qed

lemma next_thread_is_thread:
  assumes "core k" "next_thread_to_run k = (n, k1)" "ready_list k \<noteq> [] \<or> threads k (idle_thread k) \<noteq> None"
  shows "is_thread k1 n"
proof (cases "ready_list k")
  case Nil
  then show ?thesis using assms by (auto simp: next_thread_to_run_def is_thread_def core_def threads_ok_def)
next
  case (Cons t ts)
  have "elem_of k t = Some In_ready" using assms(1) Cons by (auto simp: core_def elems_ok_def)
  then obtain th where "threads k t = Some th" by (auto simp: elem_of_def)
  moreover from this have "t \<noteq> NULL" "magic th = THREAD_MAGIC" using assms(1) by (auto simp: core_def threads_ok_def)
  ultimately show ?thesis using assms(2) Cons by (auto simp: next_thread_to_run_def is_thread_def)
qed

lemma run_order_ord: "core k \<Longrightarrow> ord_by (thread_priority_large_func k) (run_order k)"
  by (simp add: run_order_def core_def order_ok_def prio_order.insort_by_ord)

text \<open>\<open>thread_yield\<close> succeeds and switches to the first thread of that order.\<close>

lemma thread_yield_eq:
  assumes "good k" "\<not> in_external_intr k"
  obtains k' where "thread_yield k = Some k'" "cur k' = hd (run_order k @ [idle_thread k])" "ready_list k' = tl (run_order k)"
    "prio k' = prio k" "alarm_list k' = alarm_list k" "semas k' = semas k" "locks k' = locks k"
    "\<And>t. map_option dstack (threads k' t) = map_option dstack (threads k t)"
proof -
  let ?c = "cur k"
  obtain th where th: "threads k ?c = Some th" "status th = THREAD_RUNNING" "elem th = Unlinked"
    "?c \<notin> set (alarm_list k)" "?c \<in> set (all_list k)" by (rule good_cur [OF assms(1)]) blast
  have g: "core k" using assms(1) by (simp add: good_def)
  let ?k1 = "k\<lparr>level := INTR_OFF\<rparr>"
  define k2 where "k2 = (if ?c = idle_thread k then ?k1
    else upd_thread ?c (elem_update (\<lambda>_. In_ready)) (?k1\<lparr>ready_list := insort_by (thread_priority_large_func ?k1) ?c (ready_list k)\<rparr>))"
  have pf: "thread_priority_large_func ?k1 = thread_priority_large_func k" by (rule core_prio_fun) simp
  have ri: "(if ?c \<noteq> idle_thread k then ready_insert ?c ?k1 else Some ?k1) = Some k2"
    using th by (auto simp: k2_def ready_insert_def)
  let ?k3 = "push_frame (Yield_rest (level k)) (set_status ?c THREAD_READY k2)"
  have y: "thread_yield k = schedule ?k3"
    using ri by (simp add: thread_yield_def good_thread_current [OF assms(1)] intr_context_def assms(2) intr_disable_def intr_get_level_def)
  have c2: "core k2"
  proof (cases "?c = idle_thread k")
    case True
    then show ?thesis using g by (simp add: k2_def)
  next
    case False
    then have "ready_insert ?c ?k1 = Some k2" using ri by simp
    then show ?thesis using core_ready_insert [of ?k1] g by simp
  qed
  have c3: "core ?k3" using c2 by simp
  have k3: "ready_list ?k3 = run_order k" "level ?k3 = INTR_OFF" "cur ?k3 = ?c" "idle_thread ?k3 = idle_thread k"
    "prio ?k3 = prio k" "alarm_list ?k3 = alarm_list k" "semas ?k3 = semas k" "locks ?k3 = locks k"
    by (simp_all add: k2_def run_order_def pf set_status_def)
  have d3: "map_option dstack (threads ?k3 t) = map_option dstack (threads k t)" for t
    by (cases "threads k t") (auto simp: k2_def)
  obtain th3 where th3: "threads ?k3 ?c = Some th3" "status th3 = THREAD_READY"
  proof -
    obtain th2 where "threads k2 ?c = Some th2" using th(1) by (cases "?c = idle_thread k") (simp_all add: k2_def)
    then show ?thesis using that by simp
  qed
  obtain n k4 where n: "next_thread_to_run ?k3 = (n, k4)" by fastforce
  have "ready_list ?k3 \<noteq> [] \<or> threads ?k3 (idle_thread ?k3) \<noteq> None"
  proof (cases "?c = idle_thread k")
    case True
    then show ?thesis using th3(1) k3(4) by auto
  next
    case False
    then show ?thesis unfolding k3(1) run_order_def by (metis insert_not_empty list.set(1) set_insort_by)
  qed
  then have "is_thread k4 n" by (rule next_thread_is_thread [OF c3 n])
  then have s: "schedule ?k3 = Some ((upd_thread n (status_update (\<lambda>_. THREAD_RUNNING)) (k4\<lparr>cur := n\<rparr>))\<lparr>thread_ticks := 0\<rparr>)"
    using schedule_eq [of ?k3 th3 n k4] th3 k3(2,3) n by simp
  have n4: "n = hd (run_order k @ [idle_thread k])" "ready_list k4 = tl (run_order k)" "prio k4 = prio k" "alarm_list k4 = alarm_list k"
    "semas k4 = semas k" "locks k4 = locks k"
    using n k3 by (auto simp: next_thread_to_run_def split: list.splits)
  have d4: "map_option dstack (threads k4 t) = map_option dstack (threads k t)" for t
    using n d3 [of t] by (cases "threads ?k3 t") (auto simp: next_thread_to_run_def split: list.splits)
  show thesis by (rule that [OF trans [OF y s]]) (use n4 d4 in \<open>auto simp: option.map_comp comp_def\<close>)
qed


section \<open>The timer wakes sleepers\<close>

lemma thread_unblock_sleeper:
  assumes "good k" "t \<in> set (alarm_list k)" "level k = INTR_OFF"
  obtains k' where "thread_unblock t k = Some k'"
proof -
  have g: "core k" "status_ok {} (Some (cur k)) k" using assms(1) by (simp_all add: good_def)
  obtain th where th: "threads k t = Some th" using g(2) assms(2) by (cases "threads k t") (auto simp: status_ok_def)
  then have "status_at (Some (cur k)) k t th" using g(2) by (simp add: status_ok_def)
  then have s: "status th = THREAD_BLOCKED" "elem th = Unlinked" using assms(2) by (auto simp: status_at_def)
  have "t \<noteq> NULL" "magic th = THREAD_MAGIC" using g(1) th by (auto simp: core_def threads_ok_def)
  then have "is_thread k t" using th by (simp add: is_thread_def)
  moreover have "\<exists>k1. ready_insert t k = Some k1" using th s by (simp add: ready_insert_iff elem_of_def)
  ultimately show thesis using that th s assms(3) by (auto simp: thread_unblock_iff)
qed

lemma thread_unblock_ready:
  assumes "core k" "thread_unblock t k = Some k'"
  shows "set (ready_list k') = insert t (set (ready_list k))" "prio k' = prio k" "wake_time k' = wake_time k"
    "in_external_intr k' = in_external_intr k" "yield_on_return k' = yield_on_return k"
proof -
  obtain k1 where k1: "ready_insert t k = Some k1" "k' = set_status t THREAD_READY k1"
    using assms(2) unfolding thread_unblock_iff by blast
  then show "set (ready_list k') = insert t (set (ready_list k))" "prio k' = prio k" "wake_time k' = wake_time k"
    "in_external_intr k' = in_external_intr k" "yield_on_return k' = yield_on_return k"
    by (simp_all add: ready_insert_iff set_status_def upd_thread_def) (auto simp: prio_def wake_time_def fun_eq_iff split: option.splits)
qed


lemma wake_loop_wakes:
  assumes "good k" "alarm_list k = ts" "level k = INTR_OFF"
  obtains k' where "wake_loop ts k = Some k'" "alarm_list k' = filter (\<lambda>t. ticks k < wake_time k t) ts"
    "set (ready_list k') = set (ready_list k) \<union> {t \<in> set ts. wake_time k t \<le> ticks k}" "ticks k' = ticks k"
    "prio k' = prio k" "wake_time k' = wake_time k" "in_external_intr k' = in_external_intr k" "yield_on_return k' = yield_on_return k"
proof -
  have "\<exists>k'. wake_loop ts k = Some k' \<and> alarm_list k' = filter (\<lambda>t. ticks k < wake_time k t) ts \<and>
    set (ready_list k') = set (ready_list k) \<union> {t \<in> set ts. wake_time k t \<le> ticks k} \<and> ticks k' = ticks k \<and>
    prio k' = prio k \<and> wake_time k' = wake_time k \<and> in_external_intr k' = in_external_intr k \<and> yield_on_return k' = yield_on_return k"
    using assms
  proof (induction ts arbitrary: k)
    case Nil
    then show ?case by simp
  next
    case (Cons t ts)
    have g: "core k" "status_ok {} (Some (cur k)) k" "idle_ok k" using Cons(2) by (simp_all add: good_def)
    have t: "t \<in> set (alarm_list k)" using Cons(3) by simp
    obtain th where th: "threads k t = Some th" using g(2) t by (cases "threads k t") (auto simp: status_ok_def)
    have w: "wake_time k t = wake_up_time th" by (simp add: wake_time_def th)
    have al: "distinct (t # ts)" "ord_by (alarm_less_func k) (t # ts)" using g(1) Cons(3) by (simp_all add: core_def alarm_ok_def)
    show ?case
    proof (cases "wake_up_time th > ticks k")
      case True
      have late: "ticks k < wake_time k u" if "u \<in> set ts" for u
      proof -
        have "\<not> alarm_less_func k u t" using al(2) that by auto
        then show ?thesis using True w by (simp add: alarm_less_func_def)
      qed
      have "wake_loop (t # ts) k = Some k" using th True by simp
      moreover have "filter (\<lambda>u. ticks k < wake_time k u) (t # ts) = t # ts" using late True w by (simp add: filter_id_conv)
      moreover have "{u \<in> set (t # ts). wake_time k u \<le> ticks k} = {}" using late True w by fastforce
      ultimately show ?thesis using Cons(3) by auto
    next
      case False
      obtain k1 where u: "thread_unblock t k = Some k1" by (rule thread_unblock_sleeper [OF Cons(2) t Cons(4)])
      note ub = thread_unblock_core [OF g(1,2) u] and ur = thread_unblock_ready [OF g(1) u]
      let ?k = "k1\<lparr>alarm_list := ts\<rparr>"
      have "alarm_less_func k1 = alarm_less_func k" by (rule core_wake_fun [OF ur(3)])
      then have "core ?k" using core_alarm [OF ub(1), of ts] al by simp
      moreover have "status_ok {} (Some (cur k)) ?k" by (rule ub(10)) (use Cons(3) al in auto)
      moreover have "idle_ok ?k" using thread_unblock_idle [OF g(3) u] ub(5) Cons(3) by (auto simp: idle_ok_def)
      ultimately have g1: "good ?k" using ub(3) by (simp add: good_def)
      have l1: "level ?k = INTR_OFF" using ub(4) Cons(4) by simp
      obtain k' where k': "wake_loop ts ?k = Some k'" "alarm_list k' = filter (\<lambda>u. ticks ?k < wake_time ?k u) ts"
        "set (ready_list k') = set (ready_list ?k) \<union> {u \<in> set ts. wake_time ?k u \<le> ticks ?k}" "ticks k' = ticks ?k"
        "prio k' = prio ?k" "wake_time k' = wake_time ?k" "in_external_intr k' = in_external_intr ?k" "yield_on_return k' = yield_on_return ?k"
        using Cons(1) [OF g1 _ l1] by auto
      have "wake_loop (t # ts) k = Some k'" using th False u k'(1) by simp
      then show ?thesis using k' ub ur w False by auto
    qed
  qed
  then show thesis using that by blast
qed

section \<open>Properties\<close>

text \<open>C1. In every reachable state, whatever the kernel's threads called and whenever the timer
  interrupted them: run queue and wait queues hold exactly the threads whose \<open>elem\<close> is linked into
  them, each once and in priority order; the state of every thread fits the lists it is on; the
  donation stacks are well formed; stacks of frames are well nested; every lock is free with its
  semaphore up, or has one owner with its semaphore down; and no interrupt handler is active.\<close>

theorem kernel_invariant: "reachable k \<Longrightarrow> good k \<and> stacks_ok k \<and> lock_ok k \<and> sleep_ok k \<and> \<not> in_external_intr k"
  using reachable_inv [of k] by (simp add: kinv_def)

text \<open>A reachable state: the boot code has become a thread, which holds the lock on thread
  identifiers.\<close>

definition booted :: kernel where
  "booted = the (thread_init (\<lambda>_ _. False) (boot 4096 8 False))"

lemmas boot_simps = booted_def thread_init_def boot_def lock_init_def sema_init_def init_thread_def intr_disable_def
  intr_get_level_def restore_level_def intr_set_level_def intr_enable_def intr_context_def allocate_tid_def lock_acquire_def
  lock_held_by_current_thread_def thread_current_def running_thread_def is_thread_def set_status_def upd_thread_def
  blank_thread_def lock_acquire_loop_def push_frame_def set_sema_def PRI_MIN_def PRI_DEFAULT_def PRI_MAX_def Let_def

lemma booted_eq: "thread_init (\<lambda>_ _. False) (boot 4096 8 False) = Some booted"
  by (simp add: boot_simps)

lemma booted_reachable: "reachable booted"
  by (rule reachable.init [OF booted_eq])

lemma booted_simps [simp]:
  "cur booted = 4096" "locks booted 8 = Some 4096" "frames booted 4096 = [Alloc_tid For_init, Body]" "level booted = INTR_OFF"
  "ready_list booted = []" "alarm_list booted = []" "idle_thread booted = NULL" "in_external_intr booted = False"
  "thread_mlfqs booted = False"
  by (simp_all add: boot_simps)

theorem kernel_invariant_witness: "reachable booted \<and> cur booted = 4096 \<and> good booted \<and> lock_ok booted"
  using kernel_invariant [OF booted_reachable] booted_reachable by simp

text \<open>C2. Mutual exclusion: a lock never has two owners, be it that they hold it or that they have
  just taken it in \<open>lock_try_acquire\<close>; and while it has one, its semaphore is at zero.\<close>

theorem mutual_exclusion:
  "reachable k \<Longrightarrow> t \<in> owners k l \<Longrightarrow> u \<in> owners k l \<Longrightarrow> t = u \<and> lock_value k l = Some 0"
  using reachable_inv [of k] lock_okD [of k l] by (auto simp: kinv_def lock_at_def split: if_splits)

theorem mutual_exclusion_witness: "4096 \<in> owners booted 8 \<and> lock_value booted 8 = Some 0"
  using mutual_exclusion [OF booted_reachable, of 4096 8 4096] by (simp add: owners_def)

text \<open>C4. \<open>thread_yield\<close> never fails, and it switches to the thread of highest priority among the
  ready ones and the caller, to the one that has waited longest if there are several.\<close>

theorem thread_yield_highest:
  assumes "reachable k"
  shows "\<exists>k'. thread_yield k = Some k' \<and> cur k' = hd (run_order k @ [idle_thread k]) \<and> ready_list k' = tl (run_order k)
    \<and> (\<forall>t \<in> set (ready_list k'). prio k' t \<le> prio k' (cur k'))"
proof -
  have g: "good k" "\<not> in_external_intr k" "core k" using reachable_inv [OF assms] by (simp_all add: kinv_def good_def)
  obtain k' where k': "thread_yield k = Some k'" "cur k' = hd (run_order k @ [idle_thread k])" "ready_list k' = tl (run_order k)"
    "prio k' = prio k" by (rule thread_yield_eq [OF g(1,2)])
  have "prio k t \<le> prio k (hd (run_order k))" if "t \<in> set (tl (run_order k))" for t
    using run_order_ord [OF g(3)] that by (cases "run_order k") (auto simp: thread_priority_large_func_def not_less)
  moreover have "run_order k \<noteq> [] \<Longrightarrow> hd (run_order k @ [idle_thread k]) = hd (run_order k)" by (cases "run_order k") simp_all
  ultimately show ?thesis using k' by (cases "run_order k") auto
qed

theorem thread_yield_highest_witness: "\<exists>k'. thread_yield booted = Some k' \<and> cur k' = 4096"
  using thread_yield_highest [OF booted_reachable] by (auto simp: run_order_def)

text \<open>C5. The timer interrupt never fails while the priority scheduler is in use. It takes exactly the
  threads off the alarm list whose time has come; each of them is then ready, or running already.\<close>

theorem timer_irq_wakes:
  assumes "reachable k" and "level k = INTR_ON" and "\<not> thread_mlfqs k"
  shows "\<exists>k'. timer_irq k = Some k' \<and> alarm_list k' = filter (\<lambda>t. ticks k + 1 < wake_time k t) (alarm_list k)
    \<and> (\<forall>t \<in> set (alarm_list k). wake_time k t \<le> ticks k + 1 \<longrightarrow> t \<in> set (ready_list k') \<or> t = cur k')"
proof -
  have K: "good k" "\<not> in_external_intr k" using reachable_inv [OF assms(1)] by (simp_all add: kinv_def)
  let ?k0 = "(push_frame Intr_return k)\<lparr>level := INTR_OFF, in_external_intr := True, yield_on_return := False, ticks := ticks k + 1\<rparr>"
  have g0: "good ?k0" using K(1) by simp
  obtain k1 where k1: "thread_tick ?k0 = Some k1" and s1: "alarm_list k1 = alarm_list k" "ticks k1 = ticks k + 1" "wake_time k1 = wake_time k"
      "ready_list k1 = ready_list k" "thread_mlfqs k1 = thread_mlfqs k" "in_external_intr k1" "level k1 = INTR_OFF"
  proof -
    have "\<exists>k1. thread_tick ?k0 = Some k1 \<and> alarm_list k1 = alarm_list k \<and> ticks k1 = ticks k + 1 \<and> wake_time k1 = wake_time k \<and>
      ready_list k1 = ready_list k \<and> thread_mlfqs k1 = thread_mlfqs k \<and> in_external_intr k1 \<and> level k1 = INTR_OFF"
      by (simp add: thread_tick_def good_thread_current [OF g0] intr_yield_on_return_def intr_context_def Let_def)
    then show thesis using that by blast
  qed
  have g1: "good k1" using thread_tick_good [OF g0 k1] by simp
  obtain k2 where k2: "wake_loop (alarm_list k1) k1 = Some k2" and s2: "alarm_list k2 = filter (\<lambda>t. ticks k1 < wake_time k1 t) (alarm_list k1)"
    "set (ready_list k2) = set (ready_list k1) \<union> {t \<in> set (alarm_list k1). wake_time k1 t \<le> ticks k1}"
    "in_external_intr k2 = in_external_intr k1" "yield_on_return k2 = yield_on_return k1"
    by (rule wake_loop_wakes [OF g1 refl s1(7)])
  have p2: "good k2" "thread_mlfqs k2 = thread_mlfqs k1" "level k2 = level k1" using wake_loop_good [OF g1 refl k2] by (simp_all add: same_sync_def)
  let ?k3 = "k2\<lparr>in_external_intr := False\<rparr>"
  have irq: "timer_irq k = (if yield_on_return ?k3 then thread_yield ?k3 else Some ?k3)"
    using k1 k2 assms(2,3) K(2) s1 s2(3) p2
    by (simp add: timer_irq_def intr_handler_def timer_interrupt_def intr_get_level_def intr_context_def)
  have g3: "good ?k3" using p2(1) by simp
  have w: "t \<in> set (ready_list k2)" if "t \<in> set (alarm_list k)" "wake_time k t \<le> ticks k + 1" for t
    using that s1 s2(2) by simp
  show ?thesis
  proof (cases "yield_on_return ?k3")
    case False
    then show ?thesis using irq s1 s2(1) w by simp
  next
    case True
    obtain k' where k': "thread_yield ?k3 = Some k'" "cur k' = hd (run_order ?k3 @ [idle_thread ?k3])" "ready_list k' = tl (run_order ?k3)"
      "alarm_list k' = alarm_list ?k3" by (rule thread_yield_eq [OF g3]) simp
    have "t \<in> set (ready_list k') \<or> t = cur k'" if "t \<in> set (ready_list k2)" for t
    proof -
      have "t \<in> set (run_order ?k3)" using that by (simp add: run_order_def)
      then show ?thesis using k'(2,3) by (cases "run_order ?k3") auto
    qed
    then show ?thesis using irq True k' s1 s2(1) w by auto
  qed
qed

section \<open>Donation\<close>

lemma linked_remove:
  assumes "core k" "threads k t = Some th" "elem th \<noteq> Unlinked"
  obtains k' where "elem_remove t k = Some k'"
proof (cases "elem th")
  case (In_sema s)
  then have "t \<in> set (waiting k s)" using assms(1,2) by (auto simp: core_def elems_ok_def elem_of_def)
  then obtain sem where "semas k s = Some sem" by (cases "semas k s") (auto simp: waiting_def)
  then show thesis using that assms(2) In_sema by (simp add: elem_remove_def)
qed (use assms that in \<open>auto simp: elem_remove_def\<close>)

lemma donate_eq:
  assumes "core k" "threads k h = Some hth" "elem hth \<noteq> Unlinked" "stored_index hth < 30"
  obtains k' where "donate l h p k = Some k'" "threads k' = (threads k)(h \<mapsto> (push_donation l p hth)\<lparr>elem := In_ready\<rparr>)"
    "h \<in> set (ready_list k')" "dom (semas k') = dom (semas k)"
proof -
  obtain k0 where k0: "elem_remove h k = Some k0" by (rule linked_remove [OF assms(1-3)])
  have "elem_remove h (upd_thread h (push_donation l p) k) = Some (upd_thread h (push_donation l p) k0)"
    using elem_remove_upd [of "push_donation l p" h k] k0 by (simp add: push_donation_def Let_def)
  moreover have t0: "threads k0 = (threads k)(h \<mapsto> hth\<lparr>elem := Unlinked\<rparr>)" using k0 assms(2) by (auto simp: elem_remove_iff)
  moreover have "dom (semas k0) = dom (semas k)" using k0 by (auto simp: elem_remove_iff split: if_splits)
  moreover have p: "push_donation l p (hth\<lparr>elem := Unlinked\<rparr>) = (push_donation l p hth)\<lparr>elem := Unlinked\<rparr>"
    by (simp add: push_donation_def Let_def)
  ultimately show thesis using that assms(2,4) by (simp add: donate_def ready_insert_def)
qed

lemma thread_block_eq:
  assumes "core k" "thread_current k = Some c" "\<not> in_external_intr k" "level k = INTR_OFF" "ready_list k \<noteq> []"
  obtains k' where "thread_block k = Some k'" "cur k' = hd (ready_list k)" "ready_list k' = tl (ready_list k)" "semas k' = semas k"
    "\<And>t. map_option dstack (threads k' t) = map_option dstack (threads k t)"
proof -
  obtain th where c: "c = cur k" "threads k c = Some th" using assms(2) by (auto simp: thread_current_iff)
  let ?k = "set_status c THREAD_BLOCKED k"
  obtain n k1 where n: "next_thread_to_run ?k = (n, k1)" by fastforce
  have "is_thread k1 n" by (rule next_thread_is_thread [OF _ n]) (use assms in simp_all)
  then have s: "schedule ?k = Some ((upd_thread n (status_update (\<lambda>_. THREAD_RUNNING)) (k1\<lparr>cur := n\<rparr>))\<lparr>thread_ticks := 0\<rparr>)"
    using schedule_eq [of ?k "th\<lparr>status := THREAD_BLOCKED\<rparr>" n k1] c assms(4) n by simp
  have "thread_block k = schedule ?k" using assms by (simp add: thread_block_def intr_context_def intr_get_level_def)
  moreover have "n = hd (ready_list k)" "ready_list k1 = tl (ready_list k)" "semas k1 = semas k"
    using n assms(5) by (auto simp: next_thread_to_run_def split: list.splits)
  moreover have "map_option dstack (threads k1 t) = map_option dstack (threads k t)" for t
    using n by (cases "threads k t") (auto simp: next_thread_to_run_def split: list.splits)
  ultimately show thesis using that [OF trans [OF _ s]] by (auto simp: option.map_comp comp_def)
qed

text \<open>C6. Priority donation: when the running thread asks for a lock whose holder has a lower priority
  and is ready or waits on a semaphore, \<open>lock_acquire\<close> puts the caller's priority on top of the
  holder's donation stack, makes the holder run or ready to run, and leaves the caller waiting on
  the lock.\<close>

theorem lock_acquire_donates:
  assumes "reachable k" and "frames k (cur k) = Body # fs"
    and "locks k l = Some h" and "lock_value k l = Some 0"
    and "threads k h = Some hth" and "priority hth < prio k (cur k)" and "stored_index hth < 30" and "elem hth \<noteq> Unlinked"
  shows "\<exists>k' hth'. lock_acquire l k = Some k' \<and> threads k' h = Some hth' \<and> dstack hth' = (prio k (cur k), l) # dstack hth
    \<and> (h \<in> set (ready_list k') \<or> cur k' = h) \<and> cur k \<in> set (waiting k' (Lock_sema l))"
proof -
  have K: "kinv k" "good k" "core k" "\<not> in_external_intr k" "lock_ok k"
    using reachable_inv [OF assms(1)] by (simp_all add: kinv_def good_def)
  obtain cth where cth: "threads k (cur k) = Some cth" "status cth = THREAD_RUNNING" "elem cth = Unlinked" "don_ok cth"
    by (rule good_cur [OF K(2)]) blast
  let ?p = "prio k (cur k)" and ?k1 = "k\<lparr>level := INTR_OFF\<rparr>"
  have hc: "h \<noteq> cur k" using assms(5,6) by (auto simp: prio_def)
  obtain sem where sem: "semas k (Lock_sema l) = Some sem" "sema_value sem = 0" using assms(4) by (auto simp: lock_value_def)
  have c1: "core ?k1" "good ?k1" using K by simp_all
  obtain k2 where k2: "donate l h ?p ?k1 = Some k2" "threads k2 = (threads ?k1)(h \<mapsto> (push_donation l ?p hth)\<lparr>elem := In_ready\<rparr>)"
      "h \<in> set (ready_list k2)" "dom (semas k2) = dom (semas ?k1)"
    by (rule donate_eq [OF c1(1), of h hth]) (use assms in auto)
  have l: "l \<noteq> NULL" by (rule lock_not_null [OF K(5) assms(3)])
  have p: "PRI_MIN \<le> ?p" "?p \<le> PRI_MAX" using cth by (simp_all add: prio_def don_ok_def)
  note d = donate_good [OF c1(2) k2(1) l p]
  obtain sem2 where sem2: "semas k2 (Lock_sema l) = Some sem2" using k2(4) sem(1) by auto
  have t2: "threads k2 (cur k) = Some cth" using k2(2) cth(1) hc by simp
  let ?k3 = "upd_thread (cur k) (elem_update (\<lambda>_. In_sema (Lock_sema l)))
       (set_sema (Lock_sema l) (sem2\<lparr>sema_waiters := insort_by (thread_priority_large_func k2) (cur k) (sema_waiters sem2)\<rparr>) k2)"
  have k3: "sema_insert (Lock_sema l) (cur k) k2 = Some ?k3" using sem2 t2 cth(3) by (simp add: sema_insert_def)
  let ?k4 = "push_frame (Lock_acquire_rest l (level k)) ?k3"
  have "core k2" using d(1) by (simp add: good_def)
  then have "core ?k4" using core_sema_insert [OF _ k3] by simp
  moreover have "thread_current ?k4 = Some (cur k)"
    using good_thread_current [OF d(1)] d(3) t2 by (auto simp: thread_current_iff)
  moreover have "\<not> in_external_intr ?k4" "level ?k4 = INTR_OFF" "ready_list ?k4 \<noteq> []"
    using d(2,4) K(4) k2(3) by (auto simp: same_sync_def)
  ultimately obtain k' where k': "thread_block ?k4 = Some k'" "cur k' = hd (ready_list ?k4)" "ready_list k' = tl (ready_list ?k4)" "semas k' = semas ?k4"
    "\<And>t. map_option dstack (threads k' t) = map_option dstack (threads ?k4 t)"
    by (rule thread_block_eq) blast
  have "lock_acquire l k = Some k'"
    using k2(1) k3 k'(1) sem assms(3,5,6) hc K(4) good_thread_current [OF K(2)] good_thread_current [OF c1(2)]
    by (simp add: lock_acquire_def lock_held_by_current_thread_def intr_context_def intr_disable_def intr_get_level_def
        lock_acquire_loop_def)
  moreover have "map_option dstack (threads k' h) = Some ((?p, l) # dstack hth)"
    using k'(5) [of h] k2(2) hc push_donation_stack [of hth l ?p] assms(5,7) K(3) by (auto simp: core_def threads_ok_def)
  moreover have "h \<in> set (ready_list k') \<or> cur k' = h" using k2(3) k'(2,3) by (cases "ready_list k2") auto
  moreover have "cur k \<in> set (waiting k' (Lock_sema l))" using k'(4) by (simp add: waiting_def)
  ultimately show ?thesis by auto
qed


section \<open>Waking waiters\<close>

lemma sema_wake_eq:
  assumes "good k" "semas k s = Some sem" "level k = INTR_OFF"
  obtains b k' where "sema_wake s k = Some (b, k')" "waiting k' s = tl (sema_waiters sem)"
    "semas k' s = Some (sem\<lparr>sema_waiters := tl (sema_waiters sem)\<rparr>)" "prio k' = prio k" "locks k' = locks k"
    "b \<longleftrightarrow> sema_waiters sem \<noteq> [] \<and> prio k (hd (sema_waiters sem)) > prio k (cur k)"
    "sema_waiters sem \<noteq> [] \<Longrightarrow> hd (sema_waiters sem) \<in> set (ready_list k')"
    "\<And>t. map_option dstack (threads k' t) = map_option dstack (threads k t)" "in_external_intr k' = in_external_intr k"
proof (cases "sema_waiters sem")
  case Nil
  then have "sem\<lparr>sema_waiters := tl (sema_waiters sem)\<rparr> = sem" by (cases sem) simp
  then show thesis using that [of False k] assms Nil by (simp add: sema_wake_def waiting_def)
next
  case (Cons t ts)
  have g: "core k" "status_ok {} (Some (cur k)) k" using assms(1) by (simp_all add: good_def)
  let ?k1 = "upd_thread t (elem_update (\<lambda>_. Unlinked)) (set_sema s (sem\<lparr>sema_waiters := ts\<rparr>) k)"
  have "t \<in> set (waiting k s)" using assms(2) Cons by (simp add: waiting_def)
  then have e: "elem_of k t = Some (In_sema s)" using g(1) by (auto simp: core_def elems_ok_def)
  then obtain th where th: "threads k t = Some th" "elem th = In_sema s" by (auto simp: elem_of_def)
  then have "status_at (Some (cur k)) k t th" using g(2) by (simp add: status_ok_def)
  then have s: "status th = THREAD_BLOCKED" using th(2) by (simp add: status_at_def)
  have m: "t \<noteq> NULL" "magic th = THREAD_MAGIC" using g(1) th by (auto simp: core_def threads_ok_def)
  have tc: "thread_current ?k1 = Some (cur k)"
    using good_thread_current [OF assms(1)] th s by (auto simp: thread_current_iff)
  let ?k2 = "upd_thread t (elem_update (\<lambda>_. In_ready)) (?k1\<lparr>ready_list := insort_by (thread_priority_large_func ?k1) t (ready_list k)\<rparr>)"
  have u: "thread_unblock t ?k1 = Some (set_status t THREAD_READY ?k2)"
    unfolding thread_unblock_iff using th s m assms(3) by (simp add: is_thread_def ready_insert_iff elem_of_def)
  have "sema_wake s k = Some (prio ?k1 t > prio ?k1 (cur k), set_status t THREAD_READY ?k2)"
    using assms(2) Cons tc u by (simp add: sema_wake_def Let_def)
  then show thesis
    by (rule that) (auto simp: Cons set_status_def map_option_case split: option.splits)
qed


text \<open>C3. \<open>lock_release\<close> by the holder never fails: the lock is free afterwards with its semaphore up,
  and exactly the donations that came with this lock are taken off the caller's stack, so that its
  priority is the topmost that remains.\<close>

theorem lock_release_restores:
  assumes "reachable k" and "frames k (cur k) = Body # fs" and "locks k l = Some (cur k)" and "threads k (cur k) = Some th"
  shows "\<exists>k' th'. lock_release l k = Some k' \<and> threads k' (cur k) = Some th'
    \<and> dstack th' = filter (\<lambda>(p, m). m \<noteq> l) (dstack th) \<and> priority th' = fst (hd (dstack th'))
    \<and> locks k' l = Some NULL \<and> lock_value k' l = Some 1"
proof -
  have K: "kinv k" "good k" "core k" "\<not> in_external_intr k" "lock_ok k" using reachable_inv [OF assms(1)] by (simp_all add: kinv_def good_def)
  have l: "l \<noteq> NULL" by (rule lock_not_null [OF K(5) assms(3)])
  have d: "don_ok th" and n: "cur k \<noteq> NULL" using K(3) assms(4) by (auto simp: core_def threads_ok_def)
  obtain th1 where r: "release_donations l th = Some th1" "dstack th1 = filter (\<lambda>(p, m). m \<noteq> l) (dstack th)"
    "th1 = th\<lparr>stored_priority := stored_priority th1, stored_lock_master := stored_lock_master th1,
       stored_index := stored_index th1, priority := priority th1, priority_lock_master := priority_lock_master th1\<rparr>"
    by (rule release_donations_stack [OF d l]) blast
  note R = release_donations_ok [OF d l r(1)]
  have "cur k \<in> owners k l" using assms(3) n by (simp add: owners_def)
  then have v: "lock_value k l = Some 0" using lock_okD [OF K(5), of l] assms(3) by (auto simp: lock_at_def)
  obtain sem where sem: "semas k (Lock_sema l) = Some sem" "sema_value sem = 0" using v by (auto simp: lock_value_def)
  let ?f = "\<lambda>x. x\<lparr>stored_priority := stored_priority th1, stored_lock_master := stored_lock_master th1,
       stored_index := stored_index th1, priority := priority th1, priority_lock_master := priority_lock_master th1\<rparr>"
  have "good (upd_thread (cur k) ?f k)"
    by (rule good_upd_cur [OF K(2)]) (use assms(4) R(1) r(3) in \<open>simp_all add: fun_upd_idem\<close>)
  moreover define k1 where "k1 = push_frame (Lock_release_rest (level k))
    (k\<lparr>level := INTR_OFF, threads := (threads k)(cur k \<mapsto> th1), locks := (locks k)(l \<mapsto> NULL)\<rparr>)"
  have "k1 = push_frame (Lock_release_rest (level k)) ((upd_thread (cur k) ?f k)\<lparr>level := INTR_OFF, locks := (locks k)(l \<mapsto> NULL)\<rparr>)"
  proof -
    have "k\<lparr>level := INTR_OFF, threads := (threads k)(cur k \<mapsto> th1), locks := (locks k)(l \<mapsto> NULL)\<rparr> =
      (upd_thread (cur k) ?f k)\<lparr>level := INTR_OFF, locks := (locks k)(l \<mapsto> NULL)\<rparr>"
      using assms(4) r(3) by (simp add: upd_thread_def)
    then show ?thesis by (simp add: k1_def)
  qed
  ultimately have g1: "good k1" by simp
  have "thread_current (k\<lparr>level := INTR_OFF\<rparr>) = Some (cur k)" using good_thread_current [of "k\<lparr>level := INTR_OFF\<rparr>"] K(2) by simp
  then have rel: "lock_release l k = sema_up (Lock_sema l) k1"
    using assms(3,4) good_thread_current [OF K(2)] r(1) by (simp add: k1_def lock_release_def lock_held_by_current_thread_def
        intr_disable_def intr_get_level_def)
  obtain b k2 where w: "sema_wake (Lock_sema l) k1 = Some (b, k2)" and k2: "semas k2 (Lock_sema l) = Some (sem\<lparr>sema_waiters := tl (sema_waiters sem)\<rparr>)"
    "locks k2 = locks k1" "\<And>t. map_option dstack (threads k2 t) = map_option dstack (threads k1 t)" "in_external_intr k2 = in_external_intr k1"
    by (rule sema_wake_eq [OF g1, of "Lock_sema l" sem]) (use sem in \<open>auto simp: k1_def\<close>)
  let ?k3 = "bump (Lock_sema l) (\<lambda>v. v + 1) k2"
  have g2: "good k2" "level k2 = INTR_OFF" using sema_wake_good [OF g1 w] by (simp_all add: k1_def)
  have x: "\<not> in_external_intr ?k3" using k2(4) K(4) by (simp add: k1_def)
  have "set_sema (Lock_sema l) (sem\<lparr>sema_waiters := tl (sema_waiters sem), sema_value := sema_value sem + 1\<rparr>) k2 = ?k3"
    using set_sema_bump [OF k2(1), of "\<lambda>v. v + 1"] by simp
  moreover have "k1\<lparr>level := INTR_OFF\<rparr> = k1" by (simp add: k1_def push_frame_def)
  moreover have "?k3\<lparr>level := INTR_OFF\<rparr> = ?k3" using g2(2) by simp
  ultimately have up: "sema_up (Lock_sema l) k1 = (if b then thread_yield ?k3 else Some ?k3)"
    using w k2(1) x
    by (simp add: sema_up_def intr_disable_def intr_get_level_def restore_level_def intr_set_level_def intr_context_def)
      (simp add: k1_def intr_disable_def)
  have v3: "lock_value ?k3 l = Some 1" "locks ?k3 l = Some NULL" "map_option dstack (threads ?k3 (cur k)) = Some (dstack th1)"
    using k2 sem by (simp_all add: lock_value_def k1_def)
  have "\<exists>k'. lock_release l k = Some k' \<and> semas k' = semas ?k3 \<and> locks k' = locks ?k3 \<and>
    map_option dstack (threads k' (cur k)) = map_option dstack (threads ?k3 (cur k))"
  proof (cases b)
    case False then show ?thesis using up rel by simp
  next
    case True
    obtain k' where "thread_yield ?k3 = Some k'" "semas k' = semas ?k3" "locks k' = locks ?k3"
      "\<And>t. map_option dstack (threads k' t) = map_option dstack (threads ?k3 t)"
      by (rule thread_yield_eq [OF _ x]) (use g2 in simp_all)
    then show ?thesis using up rel True by auto
  qed
  then obtain k' where k': "lock_release l k = Some k'" "semas k' = semas ?k3" "locks k' = locks ?k3"
    "map_option dstack (threads k' (cur k)) = Some (dstack th1)" using v3(3) by auto
  then obtain th' where "threads k' (cur k) = Some th'" "dstack th' = dstack th1" by auto
  moreover have "priority th' = fst (hd (dstack th'))" by (simp add: dstack_def)
  ultimately show ?thesis using k' v3 r(2) by (auto simp: lock_value_def)
qed


text \<open>C8. A call that the kernel's interface allows and that has no defined outcome: a lock whose holder
  is asleep in \<open>timer_sleep\<close> and has a lower priority than the caller. \<open>lock_acquire\<close> removes the
  holder's \<open>elem\<close> from its list to move it to the run queue, but a sleeping thread's \<open>elem\<close> is on no
  list.\<close>

theorem lock_acquire_sleeping_holder:
  assumes "reachable k" and "locks k l = Some h" and "lock_value k l = Some 0"
    and "h \<in> set (alarm_list k)" and "prio k h < prio k (cur k)"
  shows "lock_acquire l k = None"
proof -
  have K: "good k" "status_ok {} (Some (cur k)) k" using reachable_inv [OF assms(1)] by (simp_all add: kinv_def good_def)
  obtain hth where h: "threads k h = Some hth" using K(2) assms(4) by (cases "threads k h") (auto simp: status_ok_def)
  then have "status_at (Some (cur k)) k h hth" using K(2) by (simp add: status_ok_def)
  then have e: "elem hth = Unlinked" using assms(4) by (simp add: status_at_def)
  let ?k1 = "k\<lparr>level := INTR_OFF\<rparr>"
  have "donate l h (prio k (cur k)) ?k1 = None"
    using h e by (simp add: donate_def elem_remove_def Let_def)
  moreover have "thread_current ?k1 = Some (cur k)" using good_thread_current [of ?k1] K(1) by simp
  moreover obtain sem where "semas k (Lock_sema l) = Some sem" "sema_value sem = 0" using assms(3) by (auto simp: lock_value_def)
  ultimately have "lock_acquire_loop l ol ?k1 = None" for ol
    using assms(2,5) h by (simp add: lock_acquire_loop_def prio_def)
  then show ?thesis
    by (simp add: lock_acquire_def intr_disable_def ASSERT_def split: bind_split)
qed

section \<open>Example runs\<close>

text \<open>The running thread goes on with its topmost frame, or calls an operation.\<close>

definition go :: "kernel \<Rightarrow> kernel option" where
  "go k = (case frames k (cur k) of [] \<Rightarrow> None | f # _ \<Rightarrow> resume f (pop_frame k))"

definition call_op :: "op \<Rightarrow> kernel \<Rightarrow> kernel option" where
  "call_op op k = (case frames k (cur k) of Body # _ \<Rightarrow> (if permitted op k then exec op k else None) | _ \<Rightarrow> None)"


fun goes :: "nat \<Rightarrow> kernel \<Rightarrow> kernel option" where
  "goes 0 k = Some k"
| "goes (Suc n) k = do { k' \<leftarrow> go k; goes n k' }"

definition started :: "kernel option" where
  "started = do {
     k \<leftarrow> thread_init (\<lambda>_ _. False) (boot 4096 8 False);
     k \<leftarrow> goes (Suc (Suc (Suc 0))) k;
     k \<leftarrow> call_op (Op_thread_start (\<lambda>_ _. False) 8192 16) k;
     goes (Suc (Suc (Suc (Suc (Suc (Suc (Suc 0))))))) k }"

lemmas op_simps = go_def call_op_def pop_frame_def alloc_tid_def lock_release_def release_donations_def sema_up_def sema_wake_def
  alloc_tid_done_def wrap_s32_def thread_start_def thread_create_def thread_create_rest_def alloc_frame_def thread_unblock_def
  ready_insert_def prio_def thread_start_rest_def sema_down_def sema_down_loop_def sema_insert_def thread_block_def schedule_def
  next_thread_to_run_def thread_schedule_tail_def kernel_thread_def idle_def thread_yield_def thread_priority_large_func_def
  THREAD_MAGIC_def


definition asleep :: "kernel option" where
  "asleep = do { k \<leftarrow> started; k \<leftarrow> call_op (Op_timer_sleep 1) k; go k }"

definition contended :: "kernel option" where
  "contended = do {
     k \<leftarrow> started; k \<leftarrow> call_op (Op_lock_init 24) k; k \<leftarrow> call_op (Op_lock_acquire 24) k;
     k \<leftarrow> call_op (Op_thread_create (\<lambda>_ _. False) 12288 ''b'' 40 0 0) k; k \<leftarrow> go k; k \<leftarrow> go k; k \<leftarrow> go k; go k }"

definition sleeping_holder :: "kernel option" where
  "sleeping_holder = do {
     k \<leftarrow> started; k \<leftarrow> call_op (Op_lock_init 24) k; k \<leftarrow> call_op (Op_lock_acquire 24) k;
     k \<leftarrow> call_op (Op_thread_create (\<lambda>_ _. False) 12288 ''b'' 31 0 0) k; k \<leftarrow> go k; k \<leftarrow> go k; k \<leftarrow> go k;
     k \<leftarrow> call_op (Op_timer_sleep 5) k; k \<leftarrow> go k;
     k \<leftarrow> call_op (Op_thread_set_priority 40) k; go k }"


definition donated :: "kernel option" where
  "donated = do { k \<leftarrow> contended; k \<leftarrow> call_op (Op_lock_acquire 24) k; go k }"

lemmas run_simps = started_def boot_simps op_simps timer_sleep_def timer_ticks_def wrap_s64_def alarm_less_func_def wake_time_def
  yield_rest_def thread_set_priority_def donate_def push_donation_def elem_remove_def

lemma reachable_go: "reachable k \<Longrightarrow> go k = Some k' \<Longrightarrow> reachable k'"
  by (auto simp: go_def split: list.splits intro: reachable.step step.go_on)

lemma reachable_goes: "reachable k \<Longrightarrow> goes n k = Some k' \<Longrightarrow> reachable k'"
  by (induction n arbitrary: k) (auto simp: bind_eq_Some_conv intro: reachable_go)

lemma reachable_call: "reachable k \<Longrightarrow> call_op op k = Some k' \<Longrightarrow> reachable k'"
  by (auto simp: call_op_def split: list.splits frame.splits if_splits intro: reachable.step step.call)

lemmas reachable_runs = reachable_go [rotated] reachable_call [rotated] reachable.init

lemma started_reachable: "started = Some k \<Longrightarrow> reachable k"
  by (auto simp: started_def bind_eq_Some_conv dest!: reachable_runs)

lemma asleep_reachable: "asleep = Some k \<Longrightarrow> reachable k"
  by (auto simp: asleep_def bind_eq_Some_conv dest!: reachable_runs started_reachable)

lemma contended_reachable: "contended = Some k \<Longrightarrow> reachable k"
  by (auto simp: contended_def bind_eq_Some_conv dest!: reachable_runs started_reachable)

lemma sleeping_holder_reachable: "sleeping_holder = Some k \<Longrightarrow> reachable k"
  by (auto simp: sleeping_holder_def bind_eq_Some_conv dest!: reachable_runs started_reachable)

lemma donated_reachable: "donated = Some k \<Longrightarrow> reachable k"
  by (auto simp: donated_def bind_eq_Some_conv dest!: reachable_runs contended_reachable)


lemma asleep_state:
  "map_option (\<lambda>k. (alarm_list k, level k, wake_time k 4096, ticks k, thread_mlfqs k)) asleep = Some ([4096], INTR_ON, 1, 0, False)"
  by (simp add: asleep_def run_simps)

lemma contended_state:
  "map_option (\<lambda>k. (cur k, frames k (cur k), locks k 24, lock_value k 24, prio k 12288,
     map_option (\<lambda>th. (priority th, stored_index th, elem th)) (threads k 4096))) contended =
   Some (12288, [Body], Some 4096, Some 0, 40, Some (31, 0, In_ready))"
  by (simp add: contended_def run_simps lock_value_def)

lemma sleeping_holder_state:
  "map_option (\<lambda>k. (cur k, alarm_list k, locks k 24, lock_value k 24, prio k 12288, prio k 4096)) sleeping_holder =
   Some (12288, [4096], Some 4096, Some 0, 40, 31)"
  by (simp add: sleeping_holder_def run_simps lock_value_def)

lemma donated_state:
  "map_option (\<lambda>k. (cur k, frames k (cur k), locks k 24,
     map_option (\<lambda>th. (dstack th, priority th)) (threads k 4096))) donated =
   Some (4096, [Body], Some 4096, Some ([(40, 24), (31, NULL)], 40))"
  by (simp add: donated_def contended_def run_simps lock_value_def dstack_def take_Suc_conv_app_nth)


theorem timer_irq_wakes_witness:
  "\<exists>k k'. asleep = Some k \<and> alarm_list k = [4096] \<and> timer_irq k = Some k' \<and> alarm_list k' = [] \<and> (4096 \<in> set (ready_list k') \<or> 4096 = cur k')"
proof -
  obtain k where k: "asleep = Some k" "alarm_list k = [4096]" "level k = INTR_ON" "wake_time k 4096 = 1" "ticks k = 0" "\<not> thread_mlfqs k"
    using asleep_state by auto
  then show ?thesis using timer_irq_wakes [OF asleep_reachable [OF k(1)] k(3,6)] by auto
qed

theorem lock_acquire_donates_witness:
  "\<exists>k k' th'. contended = Some k \<and> lock_acquire 24 k = Some k' \<and> threads k' 4096 = Some th' \<and> priority th' = 40"
proof -
  obtain k th where k: "contended = Some k" "cur k = 12288" "frames k (cur k) = [Body]" "locks k 24 = Some 4096" "lock_value k 24 = Some 0"
    "prio k 12288 = 40" "threads k 4096 = Some th" "priority th = 31" "stored_index th = 0" "elem th = In_ready"
    using contended_state by auto
  then obtain k' th' where "lock_acquire 24 k = Some k'" "threads k' 4096 = Some th'" "dstack th' = (40, 24) # dstack th"
    using lock_acquire_donates [OF contended_reachable [OF k(1)] k(3-5,7)] by auto
  moreover from this have "priority th' = 40" by (simp add: dstack_def)
  ultimately show ?thesis using k(1) by blast
qed


theorem lock_release_restores_witness:
  "\<exists>k k' th th'. donated = Some k \<and> threads k 4096 = Some th \<and> priority th = 40 \<and> lock_release 24 k = Some k'
     \<and> threads k' 4096 = Some th' \<and> priority th' = 31"
proof -
  obtain k th where k: "donated = Some k" "cur k = 4096" "frames k (cur k) = [Body]" "locks k 24 = Some 4096" "threads k 4096 = Some th"
    "dstack th = [(40, 24), (31, NULL)]" "priority th = 40" using donated_state by auto
  have "\<exists>k' th'. lock_release 24 k = Some k' \<and> threads k' 4096 = Some th' \<and> priority th' = 31"
    using lock_release_restores [OF donated_reachable [OF k(1)] k(3), of 24 th] k by auto
  then show ?thesis using k by blast
qed

theorem lock_acquire_sleeping_holder_witness: "\<exists>k. sleeping_holder = Some k \<and> lock_acquire 24 k = None"
proof -
  obtain k where k: "sleeping_holder = Some k" "cur k = 12288" "alarm_list k = [4096]" "locks k 24 = Some 4096" "lock_value k 24 = Some 0"
    "prio k 12288 = 40" "prio k 4096 = 31" using sleeping_holder_state by auto
  then show ?thesis using lock_acquire_sleeping_holder [OF sleeping_holder_reachable [OF k(1)] k(4,5)] by auto
qed

end
