(* ===== verification/Kernel_Queues.thy ===== *)
theory Kernel_Queues
  imports Kernel_Inv
begin

text \<open>
  The queues of the kernel model are sequences of threads; the code keeps them as doubly linked
  lists of \<open>elem\<close> members and works on them with \<^verbatim>\<open>lib/kernel/list.c\<close>. Here the two levels meet:
  on a heap that holds a queue, the list routines compute the queue that the scheduler and the
  condition variables of the model continue with. The key is that a stable sort has only one
  possible result.
\<close>

section \<open>A stable sort has one result\<close>

context weak_order
begin

lemma ord_head: "ord_by lessf (x # xs) \<Longrightarrow> y \<in> set (x # xs) \<Longrightarrow> \<not> lessf y x"
  using less_irrefl by auto

lemma stable_unique:
  assumes "ord_by lessf xs" and "ord_by lessf ys" and "mset xs = mset ys"
    and "\<forall>z. filter (equiv_by lessf z) xs = filter (equiv_by lessf z) ys"
  shows "xs = ys"
  using assms
proof (induction xs arbitrary: ys)
  case (Cons x xs)
  then obtain y zs where ys: "ys = y # zs" by (cases ys) auto
  have set: "set (x # xs) = set ys" using Cons.prems(3) by (metis set_mset_mset)
  then have "y \<in> set (x # xs)" by (simp add: ys)
  then have "\<not> lessf y x" by (rule ord_head [OF Cons.prems(1)])
  moreover have "\<not> lessf x y" using ord_head [of y zs x] Cons.prems(2) set unfolding ys by auto
  ultimately have "equiv_by lessf x y" by (simp add: equiv_by_def)
  moreover have "equiv_by lessf x x" by (simp add: equiv_by_def less_irrefl)
  ultimately have x: "x = y" using Cons.prems(4) [rule_format, of x] ys by simp
  have "filter (equiv_by lessf z) xs = filter (equiv_by lessf z) zs" for z
    using Cons.prems(4) [rule_format, of z] ys x by (simp split: if_splits)
  then have "xs = zs" using Cons.IH [of zs] Cons.prems(1-3) ys x by simp
  then show ?case using ys x by simp
qed simp

lemma fold_insort:
  "ord_by lessf ys \<Longrightarrow> ord_by lessf (fold (insort_by lessf) xs ys)
     \<and> mset (fold (insort_by lessf) xs ys) = mset ys + mset xs
     \<and> filter (equiv_by lessf z) (fold (insort_by lessf) xs ys)
         = filter (equiv_by lessf z) ys @ filter (equiv_by lessf z) xs"
  by (induction xs arbitrary: ys) (simp_all add: insort_by_ord insort_by_stable)

lemma stable_sort_eq:
  assumes "ord_by lessf ys" and "mset ys = mset xs"
    and "\<forall>z. filter (equiv_by lessf z) ys = filter (equiv_by lessf z) xs"
  shows "ys = fold (insort_by lessf) xs []"
  using stable_unique [of ys "fold (insort_by lessf) xs []"] fold_insort [of "[]" xs] assms by simp

end

context addr_order
begin

lemma list_sort_fold:
  assumes "is_list h l xs"
  shows "\<exists>h'. list_sort h l lessf = Some h' \<and> is_list h' l (fold (insort_by lessf) xs []) \<and> frame (foot l xs) h h'"
  using list_sort_is_list [OF assms] stable_sort_eq by metis

end

section \<open>The queues of the kernel\<close>

text \<open>
  C9. The queue operations of the scheduler model are what the linked-list code computes. On a
  heap that holds the run queue as a linked list, \<open>list_insert_ordered\<close> with the priority
  comparison yields the run queue of \<open>ready_insert\<close>, \<open>list_sort\<close> the one of \<open>sort_ready\<close>, and
  \<open>list_pop_front\<close> removes the thread that \<open>next_thread_to_run\<close> picks and leaves its run queue;
  each routine returns, and writes only the elements of the list.
\<close>

theorem run_queue_refines_list:
  assumes "is_list h l (ready_list k)" and "ok h t" "t \<notin> foot l (ready_list k)" and "ready_insert t k = Some k'"
  shows "(\<exists>h'. list_insert_ordered h l t (thread_priority_large_func k) = Some h'
       \<and> is_list h' l (ready_list k') \<and> frame (insert t (foot l (ready_list k))) h h')
    \<and> (\<exists>h'. list_sort h l (thread_priority_large_func k) = Some h'
       \<and> is_list h' l (ready_list (sort_ready k)) \<and> frame (foot l (ready_list k)) h h')
    \<and> (ready_list k \<noteq> [] \<longrightarrow> (\<exists>h'. list_pop_front h l = Some (fst (next_thread_to_run k), h')
       \<and> is_list h' l (ready_list (snd (next_thread_to_run k))) \<and> frame (foot l (ready_list k)) h h'))"
proof (intro conjI impI)
  have "ready_list k' = insort_by (thread_priority_large_func k) t (ready_list k)"
    using assms(4) by (auto simp: ready_insert_def bind_eq_Some_conv)
  with list_insert_ordered_is_list [OF assms(1-3)]
  show "\<exists>h'. list_insert_ordered h l t (thread_priority_large_func k) = Some h'
       \<and> is_list h' l (ready_list k') \<and> frame (insert t (foot l (ready_list k))) h h'" by auto
  show "\<exists>h'. list_sort h l (thread_priority_large_func k) = Some h'
       \<and> is_list h' l (ready_list (sort_ready k)) \<and> frame (foot l (ready_list k)) h h'"
    using prio_order.list_sort_fold [OF assms(1)] by (simp add: sort_ready_def)
  assume "ready_list k \<noteq> []"
  then obtain u us where u: "ready_list k = u # us" by (cases "ready_list k") auto
  show "\<exists>h'. list_pop_front h l = Some (fst (next_thread_to_run k), h')
       \<and> is_list h' l (ready_list (snd (next_thread_to_run k))) \<and> frame (foot l (ready_list k)) h h'"
    using list_pop_front_is_list [of h l u us] assms(1) by (fastforce simp: u next_thread_to_run_def intro: frame_mono)
qed

definition queued :: kernel where
  "queued = (boot 4096 64 False)\<lparr>ready_list := [20, 40],
     threads := [20 \<mapsto> blank_thread 20 ''a'' 50, 40 \<mapsto> blank_thread 40 ''b'' 10, 30 \<mapsto> blank_thread 30 ''c'' 31]\<rparr>"

theorem run_queue_refines_list_witness:
  "let h = heap_of [(8, 0, 20), (20, 8, 40), (40, 20, 16), (16, 40, 0), (30, 5, 5)] in
   is_list h 8 (ready_list queued) \<and>
   (\<exists>h' k'. ready_insert 30 queued = Some k' \<and> ready_list k' = [20, 30, 40]
     \<and> list_insert_ordered h 8 30 (thread_priority_large_func queued) = Some h' \<and> is_list h' 8 [20, 30, 40])"
proof -
  let ?h = "heap_of [(8, 0, 20), (20, 8, 40), (40, 20, 16), (16, 40, 0), (30, 5, 5)]"
  have l: "is_list ?h 8 (ready_list queued)" and o: "ok ?h 30" "30 \<notin> foot 8 (ready_list queued)"
    by (simp_all add: heap_of_def is_list_def linked_def ok_def nxt_def prv_def head_of_def tail_of_def queued_def)
  obtain k' where k': "ready_insert 30 queued = Some k'" "ready_list k' = [20, 30, 40]"
    by (simp add: ready_insert_def queued_def blank_thread_def thread_priority_large_func_def prio_def)
  from run_queue_refines_list [OF l o k'(1)] show ?thesis using l k' by (auto simp: Let_def)
qed

end
