(* ===== verification/Mlfqs.thy ===== *)
theory Mlfqs
  imports Threads
begin

text \<open>
  The formulas of the feedback-queue scheduler (\<open>threads/thread.c\<close>, \<open>threads/fixed-point.h\<close>): within
  the ranges that occur, the wrapped and truncated C arithmetic computes what the formulas say.
\<close>

lemma c_div_c_div:
  assumes "0 < b" "0 < c"
  shows "c_div (c_div a b) c = c_div a (b * c)"
proof -
  have "\<bar>c_div a b\<bar> = \<bar>a\<bar> div b" using assms(1) by (auto simp: c_div_def abs_mult pos_imp_zdiv_nonneg_iff sgn_if)
  moreover have "sgn (c_div a b) * (\<bar>a\<bar> div b div c) = sgn a * (\<bar>a\<bar> div b div c)"
    using assms by (auto simp: c_div_def sgn_mult sgn_if pos_imp_zdiv_nonneg_iff)
  ultimately show ?thesis using assms by (simp add: c_div_def [of "c_div a b"] c_div_def [of a "b * c"] zdiv_zmult2_eq)
qed

text \<open>C10. The priority the feedback scheduler computes is the documented formula
  \<open>PRI_MAX - recent_cpu / 4 - nice * 2\<close>, rounded towards zero and clamped to the range of
  priorities: no intermediate result overflows for a 32-bit \<open>recent_cpu\<close> and a legal \<open>nice\<close>.\<close>

theorem nice_priority_formula:
  assumes "is_int32 rc" and "- 20 \<le> n" and "n \<le> 20"
  shows "nice_priority rc n = max PRI_MIN (min PRI_MAX (PRI_MAX - c_div rc (4 * FP_F) - n * 2))"
proof -
  let ?q = "c_div rc (4 * FP_F)"
  have q: "FP_TO_INT_TRUNC (c_div rc 4) = ?q" unfolding FP_TO_INT_TRUNC_def FP_F_def by (rule c_div_c_div) simp_all
  have "\<bar>?q\<bar> * (4 * FP_F) \<le> \<bar>rc\<bar>"
  proof -
    have "\<bar>?q\<bar> = \<bar>rc\<bar> div (4 * FP_F)" by (auto simp: c_div_def FP_F_def abs_mult pos_imp_zdiv_nonneg_iff sgn_if)
    then show ?thesis by (simp add: FP_F_def div_times_less_eq_dividend)
  qed
  then have "\<bar>?q\<bar> \<le> 32768" using assms(1) by (simp add: FP_F_def abs_le_iff) linarith
  then have "wrap_s32 (wrap_s32 (PRI_MAX - ?q) - wrap_s32 (n * 2)) = PRI_MAX - ?q - n * 2"
    using assms(2,3) by (simp add: wrap_s32_id PRI_MAX_def)
  then show ?thesis unfolding nice_priority_def q Let_def by (simp add: PRI_MIN_def PRI_MAX_def max_def min_def)
qed

theorem nice_priority_formula_witness: "nice_priority 655360 5 = 43"
  using nice_priority_formula [of 655360 5] by (simp add: PRI_MIN_def PRI_MAX_def FP_F_def c_div_def)

text \<open>C11. While at most \<open>N\<close> threads are ready, the load average stays between zero and \<open>N\<close>, and the
  decay factor computed from it is at least zero and below one; neither computation overflows or
  divides by zero, for up to 32767 threads.\<close>

theorem load_avg_bounded:
  assumes "0 \<le> la" and "la \<le> N * FP_F" and "0 \<le> co" and "co \<le> N" and "N \<le> 32767"
  shows "\<exists>la' b. new_load_avg la co = Some la' \<and> 0 \<le> la' \<and> la' \<le> N * FP_F \<and> decay la = Some b \<and> 0 \<le> b \<and> b < FP_F"
proof -
  have c: "c_div (INT_TO_FP 59) 60 = 16110" "c_div (INT_TO_FP 1) 60 = 273"
    by (simp_all add: INT_TO_FP_def FP_F_def wrap_s32_id c_div_def)
  have la: "la \<le> 536854528" using assms(2,5) by (simp add: FP_F_def)
  have N: "0 \<le> N" using assms(3,4) by simp
  let ?a = "16110 * la div 16384"
  have d: "16384 * ?a \<le> 16110 * la" "0 \<le> ?a"
    using assms(1) by (simp_all add: div_times_less_eq_dividend mult.commute pos_imp_zdiv_nonneg_iff)
  have "16384 * ?a \<le> 16110 * (N * 16384)" using d(1) assms(2) by (simp add: FP_F_def)
  then have a: "?a \<le> 16110 * N" by linarith
  have m: "FP_MUL_FP 16110 la = ?a" using assms(1) by (simp add: FP_MUL_FP_def FP_F_def c_div_nonneg)
  have b: "FP_MUL_INT 273 co = 273 * co" using assms(3-5) by (simp add: FP_MUL_INT_def wrap_s32_id)
  have "wrap_s32 ?a = ?a" using d(2) a assms(5) N by (intro wrap_s32_id) linarith+
  moreover have s: "FP_ADD_FP ?a (273 * co) = ?a + 273 * co"
    unfolding FP_ADD_FP_def using d(2) a assms(3-5) N by (intro wrap_s32_id) linarith+
  ultimately have "new_load_avg la co = Some (?a + 273 * co)"
    using m b by (simp add: new_load_avg_def FP_DIV_INT_def c)
  moreover have "?a + 273 * co \<le> N * FP_F" using a assms(4) N by (simp add: FP_F_def)
  moreover have "0 \<le> ?a + 273 * co" using d(2) assms(3) by simp
  moreover have "\<exists>b. decay la = Some b \<and> 0 \<le> b \<and> b < FP_F"
  proof -
    have e: "FP_MUL_INT la 2 = la * 2" "FP_ADD_INT (la * 2) 1 = la * 2 + 16384"
      using assms(1) la by (simp_all add: FP_MUL_INT_def FP_ADD_INT_def FP_F_def wrap_s32_id)
    let ?q = "la * 2 * 16384 div (la * 2 + 16384)"
    have q: "c_div (la * 2 * FP_F) (la * 2 + 16384) = ?q" using assms(1) by (simp add: c_div_nonneg FP_F_def)
    have "?q < 16384"
    proof (rule ccontr)
      assume "\<not> ?q < 16384"
      then have "16384 * (la * 2 + 16384) \<le> ?q * (la * 2 + 16384)" using assms(1) by (intro mult_right_mono) auto
      also have "\<dots> \<le> la * 2 * 16384" 
        using minus_mod_eq_div_mult [of "la * 2 * 16384" "la * 2 + 16384"] pos_mod_sign [of "la * 2 + 16384" "la * 2 * 16384"] assms(1)
        by linarith
      finally show False by simp
    qed
    moreover have "0 \<le> ?q" using assms(1) by (simp add: pos_imp_zdiv_nonneg_iff)
    moreover have "decay la = Some (wrap_s32 ?q)" unfolding decay_def Let_def e FP_DIV_FP_def q using assms(1) by simp
    ultimately show ?thesis using wrap_s32_id [of ?q] by (simp add: FP_F_def)
  qed
  ultimately show ?thesis by blast
qed


theorem load_avg_bounded_witness: "\<exists>la' b. new_load_avg 16384 2 = Some la' \<and> 0 \<le> la' \<and> la' \<le> 32768 \<and> decay 16384 = Some b \<and> b < 16384"
  using load_avg_bounded [of 16384 2 2] by (auto simp: FP_F_def)

end
