(* ===== verification/C_String.thy ===== *)
theory C_String
  imports Prelude "HOL-Library.Sublist"
begin

text \<open>
  \<open>lib/string.c\<close> on a flat memory of bytes. Pointers are addresses, pointer arithmetic does not
  wrap around. A loop that runs to a null byte is a \<open>partial_function\<close>: in a memory without one
  it does not return, which is \<open>None\<close>. \<open>cstr m p s\<close> says that the string \<open>s\<close> is stored at \<open>p\<close>.
\<close>

type_synonym byte = "8 word"
type_synonym mem = "nat \<Rightarrow> byte"

fun cstr :: "mem \<Rightarrow> addr \<Rightarrow> byte list \<Rightarrow> bool" where
  "cstr m p [] \<longleftrightarrow> m p = 0"
| "cstr m p (c # s) \<longleftrightarrow> c \<noteq> 0 \<and> m p = c \<and> cstr m (p + 1) s"

definition bytes :: "mem \<Rightarrow> addr \<Rightarrow> nat \<Rightarrow> byte list" where
  "bytes m p n = map m [p..<p + n]"

section \<open>Blocks of bytes\<close>

fun copy_up :: "mem \<Rightarrow> addr \<Rightarrow> addr \<Rightarrow> nat \<Rightarrow> mem" where
  "copy_up m d s 0 = m"
| "copy_up m d s (Suc n) = copy_up (m(d := m s)) (d + 1) (s + 1) n"

fun copy_down :: "mem \<Rightarrow> addr \<Rightarrow> addr \<Rightarrow> nat \<Rightarrow> mem" where
  "copy_down m d s 0 = m"
| "copy_down m d s (Suc n) = copy_down (m(d - 1 := m (s - 1))) (d - 1) (s - 1) n"

definition memcpy :: "mem \<Rightarrow> addr \<Rightarrow> addr \<Rightarrow> nat \<Rightarrow> (addr \<times> mem) option" where
  "memcpy m dst src n = do {
     ASSERT (dst \<noteq> NULL \<or> n = 0);
     ASSERT (src \<noteq> NULL \<or> n = 0);
     Some (dst, copy_up m dst src n) }"

definition memmove :: "mem \<Rightarrow> addr \<Rightarrow> addr \<Rightarrow> nat \<Rightarrow> (addr \<times> mem) option" where
  "memmove m dst src n = do {
     ASSERT (dst \<noteq> NULL \<or> n = 0);
     ASSERT (src \<noteq> NULL \<or> n = 0);
     (if dst < src then Some (dst + n, copy_up m dst src n)
      else Some (dst + n - n, copy_down m (dst + n) (src + n) n)) }"



fun memchr_loop :: "mem \<Rightarrow> addr \<Rightarrow> byte \<Rightarrow> nat \<Rightarrow> addr" where
  "memchr_loop m p ch 0 = NULL"
| "memchr_loop m p ch (Suc n) = (if m p = ch then p else memchr_loop m (p + 1) ch n)"

definition memchr :: "mem \<Rightarrow> addr \<Rightarrow> byte \<Rightarrow> nat \<Rightarrow> addr option" where
  "memchr m block ch n = do {
     ASSERT (block \<noteq> NULL \<or> n = 0);
     Some (memchr_loop m block ch n) }"

fun memset_loop :: "mem \<Rightarrow> addr \<Rightarrow> byte \<Rightarrow> nat \<Rightarrow> mem" where
  "memset_loop m p v 0 = m"
| "memset_loop m p v (Suc n) = memset_loop (m(p := v)) (p + 1) v n"

definition memset :: "mem \<Rightarrow> addr \<Rightarrow> byte \<Rightarrow> nat \<Rightarrow> (addr \<times> mem) option" where
  "memset m dst v n = do {
     ASSERT (dst \<noteq> NULL \<or> n = 0);
     Some (dst, memset_loop m dst v n) }"

section \<open>Strings\<close>

partial_function (option) strcmp_loop :: "mem \<Rightarrow> addr \<Rightarrow> addr \<Rightarrow> int option" where
  "strcmp_loop m a b =
     (if m a \<noteq> 0 \<and> m a = m b then strcmp_loop m (a + 1) (b + 1)
      else Some (if m a < m b then - 1 else if m a > m b then 1 else 0))"

definition strcmp :: "mem \<Rightarrow> addr \<Rightarrow> addr \<Rightarrow> int option" where
  "strcmp m a b = do { ASSERT (a \<noteq> NULL); ASSERT (b \<noteq> NULL); strcmp_loop m a b }"

partial_function (option) strchr_loop :: "mem \<Rightarrow> addr \<Rightarrow> byte \<Rightarrow> addr option" where
  "strchr_loop m p c =
     (if m p = c then Some p else if m p = 0 then Some NULL else strchr_loop m (p + 1) c)"

definition strchr :: "mem \<Rightarrow> addr \<Rightarrow> byte \<Rightarrow> addr option" where
  "strchr m string c = do { ASSERT (string \<noteq> NULL); strchr_loop m string c }"

partial_function (option) strcspn_loop :: "mem \<Rightarrow> addr \<Rightarrow> addr \<Rightarrow> nat \<Rightarrow> nat option" where
  "strcspn_loop m string stop n =
     (if m (string + n) \<noteq> 0 then do {
        r \<leftarrow> strchr m stop (m (string + n));
        if r \<noteq> NULL then Some n else strcspn_loop m string stop (n + 1) }
      else Some n)"

definition strcspn :: "mem \<Rightarrow> addr \<Rightarrow> addr \<Rightarrow> nat option" where
  "strcspn m string stop = strcspn_loop m string stop 0"

partial_function (option) strpbrk :: "mem \<Rightarrow> addr \<Rightarrow> addr \<Rightarrow> addr option" where
  "strpbrk m string stop =
     (if m string \<noteq> 0 then do {
        r \<leftarrow> strchr m stop (m string);
        if r \<noteq> NULL then Some string else strpbrk m (string + 1) stop }
      else Some NULL)"

partial_function (option) strrchr_loop :: "mem \<Rightarrow> addr \<Rightarrow> byte \<Rightarrow> addr \<Rightarrow> addr option" where
  "strrchr_loop m string c p =
     (if m string \<noteq> 0 then strrchr_loop m (string + 1) c (if m string = c then string else p)
      else Some p)"

definition strrchr :: "mem \<Rightarrow> addr \<Rightarrow> byte \<Rightarrow> addr option" where
  "strrchr m string c = strrchr_loop m string c NULL"

partial_function (option) strspn_loop :: "mem \<Rightarrow> addr \<Rightarrow> addr \<Rightarrow> nat \<Rightarrow> nat option" where
  "strspn_loop m string skip n =
     (if m (string + n) \<noteq> 0 then do {
        r \<leftarrow> strchr m skip (m (string + n));
        if r = NULL then Some n else strspn_loop m string skip (n + 1) }
      else Some n)"

definition strspn :: "mem \<Rightarrow> addr \<Rightarrow> addr \<Rightarrow> nat option" where
  "strspn m string skip = strspn_loop m string skip 0"

partial_function (option) strlen_loop :: "mem \<Rightarrow> addr \<Rightarrow> addr option" where
  "strlen_loop m p = (if m p \<noteq> 0 then strlen_loop m (p + 1) else Some p)"

definition strlen :: "mem \<Rightarrow> addr \<Rightarrow> nat option" where
  "strlen m string = do {
     ASSERT (string \<noteq> NULL);
     p \<leftarrow> strlen_loop m string;
     Some (p - string) }"

function strnlen_loop :: "mem \<Rightarrow> addr \<Rightarrow> nat \<Rightarrow> nat \<Rightarrow> nat" where
  "strnlen_loop m string maxlen n =
     (if m (string + n) \<noteq> 0 \<and> n < maxlen then strnlen_loop m string maxlen (n + 1) else n)"
  by pat_completeness auto
termination by (relation "measure (\<lambda>(m, string, maxlen, n). maxlen - n)") auto

definition strnlen :: "mem \<Rightarrow> addr \<Rightarrow> nat \<Rightarrow> nat" where
  "strnlen m string maxlen = strnlen_loop m string maxlen 0"



text \<open>The two loops of \<open>strtok_r\<close>: the first returns \<open>Inl s\<close> where the string ends, \<open>Inr s\<close> at the
  first character that is no delimiter.\<close>

partial_function (option) skip_delims :: "mem \<Rightarrow> addr \<Rightarrow> addr \<Rightarrow> (addr + addr) option" where
  "skip_delims m delimiters s = do {
     r \<leftarrow> strchr m delimiters (m s);
     if r \<noteq> NULL then (if m s = 0 then Some (Inl s) else skip_delims m delimiters (s + 1))
     else Some (Inr s) }"

partial_function (option) skip_token :: "mem \<Rightarrow> addr \<Rightarrow> addr \<Rightarrow> addr option" where
  "skip_token m delimiters s = do {
     r \<leftarrow> strchr m delimiters (m s);
     if r = NULL then skip_token m delimiters (s + 1) else Some s }"

definition strtok_r :: "mem \<Rightarrow> addr \<Rightarrow> addr \<Rightarrow> addr \<Rightarrow> (addr \<times> addr \<times> mem) option" where
  "strtok_r m s delimiters save_ptr = do {
     ASSERT (delimiters \<noteq> NULL);
     let s = (if s = NULL then save_ptr else s);
     ASSERT (s \<noteq> NULL);
     r \<leftarrow> skip_delims m delimiters s;
     (case r of
        Inl s \<Rightarrow> Some (NULL, s, m)
      | Inr token \<Rightarrow> do {
          s \<leftarrow> skip_token m delimiters token;
          if m s \<noteq> 0 then Some (token, s + 1, m(s := 0)) else Some (token, s, m) }) }"

definition strlcpy :: "mem \<Rightarrow> addr \<Rightarrow> addr \<Rightarrow> nat \<Rightarrow> (nat \<times> mem) option" where
  "strlcpy m dst src n = do {
     ASSERT (dst \<noteq> NULL);
     ASSERT (src \<noteq> NULL);
     src_len \<leftarrow> strlen m src;
     if n > 0 then do {
       let dst_len = (if src_len < n - 1 then src_len else n - 1);
       (_, m') \<leftarrow> memcpy m dst src dst_len;
       Some (src_len, m'(dst + dst_len := 0)) }
     else Some (src_len, m) }"

definition strlcat :: "mem \<Rightarrow> addr \<Rightarrow> addr \<Rightarrow> nat \<Rightarrow> (nat \<times> mem) option" where
  "strlcat m dst src n = do {
     ASSERT (dst \<noteq> NULL);
     ASSERT (src \<noteq> NULL);
     src_len \<leftarrow> strlen m src;
     dst_len \<leftarrow> strlen m dst;
     if n > 0 \<and> dst_len < n then do {
       let copy_cnt = (if src_len < n - dst_len - 1 then src_len else n - dst_len - 1);
       (_, m') \<leftarrow> memcpy m (dst + dst_len) src copy_cnt;
       Some (src_len + dst_len, m'(dst + dst_len + copy_cnt := 0)) }
     else Some (src_len + dst_len, m) }"

declare strnlen_loop.simps [simp del]

section \<open>Strings in memory\<close>

lemma cstr_nonzero: "cstr m p s \<Longrightarrow> 0 \<notin> set s"
  by (induction s arbitrary: p) auto

lemma cstr_end: "cstr m p s \<Longrightarrow> m (p + length s) = 0"
  by (induction s arbitrary: p) fastforce+

lemma cstr_nth: "cstr m p s \<Longrightarrow> i < length s \<Longrightarrow> m (p + i) = s ! i"
proof (induction s arbitrary: p i)
  case (Cons c s)
  then show ?case by (cases i) fastforce+
qed simp

lemma cstrI:
  "0 \<notin> set s \<Longrightarrow> (\<And>i. i < length s \<Longrightarrow> m (p + i) = s ! i) \<Longrightarrow> m (p + length s) = 0 \<Longrightarrow> cstr m p s"
proof (induction s arbitrary: p)
  case (Cons c s)
  have "m (p + 1 + i) = s ! i" if "i < length s" for i using Cons.prems(2) [of "Suc i"] that by simp
  then show ?case using Cons.IH [of "p + 1"] Cons.prems(1,3) Cons.prems(2) [of 0] by simp
qed simp

lemma cstr_cong:
  assumes "\<And>a. p \<le> a \<Longrightarrow> a \<le> p + length s \<Longrightarrow> m' a = m a"
  shows "cstr m' p s = cstr m p s"
  using assms by (induction s arbitrary: p) auto

lemma cstr_drop: "cstr m p (s @ t) \<Longrightarrow> cstr m (p + length s) t"
  by (induction s arbitrary: p) fastforce+

lemma cstr_unique: "cstr m p s \<Longrightarrow> cstr m p t \<Longrightarrow> s = t"
proof (induction s arbitrary: p t)
  case Nil
  then show ?case by (cases t) auto
next
  case (Cons c s)
  then show ?case by (cases t) auto
qed

section \<open>Copying\<close>

lemma copy_up_spec:
  "d \<le> s \<or> s + n \<le> d \<Longrightarrow>
   copy_up m d s n = (\<lambda>a. if d \<le> a \<and> a < d + n then m (s + (a - d)) else m a)"
proof (induction n arbitrary: m d s)
  case (Suc n)
  have "copy_up m d s (Suc n) = (\<lambda>a. if d + 1 \<le> a \<and> a < d + 1 + n
      then (m(d := m s)) (s + 1 + (a - (d + 1))) else (m(d := m s)) a)"
    using Suc.IH [of "d + 1" "s + 1" "m(d := m s)"] Suc.prems by (auto simp del: fun_upd_apply)
  also have "\<dots> = (\<lambda>a. if d \<le> a \<and> a < d + Suc n then m (s + (a - d)) else m a)"
  proof
    fix a
    have "s + 1 + (a - (d + 1)) = s + (a - d)" "s + (a - d) \<noteq> d" if "d < a" "a < d + Suc n"
      using that Suc.prems by auto
    then show "(if d + 1 \<le> a \<and> a < d + 1 + n then (m(d := m s)) (s + 1 + (a - (d + 1))) else (m(d := m s)) a)
        = (if d \<le> a \<and> a < d + Suc n then m (s + (a - d)) else m a)" by auto
  qed
  finally show ?case .
qed (auto simp: fun_eq_iff)

lemma copy_down_spec:
  "s \<le> d \<or> d + n \<le> s \<Longrightarrow>
   copy_down m (d + n) (s + n) n = (\<lambda>a. if d \<le> a \<and> a < d + n then m (s + (a - d)) else m a)"
proof (induction n arbitrary: m)
  case (Suc n)
  let ?m = "m(d + n := m (s + n))"
  have "copy_down m (d + Suc n) (s + Suc n) (Suc n) = (\<lambda>a. if d \<le> a \<and> a < d + n then ?m (s + (a - d)) else ?m a)"
    using Suc.IH [of ?m] Suc.prems by (auto simp del: fun_upd_apply)
  also have "\<dots> = (\<lambda>a. if d \<le> a \<and> a < d + Suc n then m (s + (a - d)) else m a)"
  proof
    fix a
    have "s + (a - d) \<noteq> d + n" if "d \<le> a" "a < d + n" using that Suc.prems by auto
    then show "(if d \<le> a \<and> a < d + n then ?m (s + (a - d)) else ?m a)
        = (if d \<le> a \<and> a < d + Suc n then m (s + (a - d)) else m a)" by auto
  qed
  finally show ?case .
qed (auto simp: fun_eq_iff)

lemma memset_loop_spec: "memset_loop m p v n = (\<lambda>a. if p \<le> a \<and> a < p + n then v else m a)"
  by (induction n arbitrary: m p) (auto simp: fun_eq_iff)

section \<open>Searching\<close>

lemma strlen_loop_cstr: "cstr m p s \<Longrightarrow> strlen_loop m p = Some (p + length s)"
  by (induction s arbitrary: p) (subst strlen_loop.simps; simp)+

lemma strlen_cstr [simp]: "cstr m p s \<Longrightarrow> p \<noteq> NULL \<Longrightarrow> strlen m p = Some (length s)"
  by (simp add: strlen_def strlen_loop_cstr)

lemma strchr_loop_cstr:
  "cstr m p s \<Longrightarrow> strchr_loop m p c =
     Some (if c = 0 \<or> c \<in> set s then p + length (takeWhile (\<lambda>x. x \<noteq> c) s) else NULL)"
  by (induction s arbitrary: p) (subst strchr_loop.simps; auto)+

lemma strchr_cstr:
  assumes "cstr m p s" and "p \<noteq> NULL"
  shows "\<exists>r. strchr m p c = Some r \<and> (r \<noteq> NULL \<longleftrightarrow> c = 0 \<or> c \<in> set s)"
  using assms by (auto simp: strchr_def strchr_loop_cstr)

lemma strnlen_loop_min:
  "cstr m p s \<Longrightarrow> n \<le> length s \<Longrightarrow> n \<le> maxlen \<Longrightarrow> strnlen_loop m p maxlen n = min (length s) maxlen"
proof (induction "length s - n" arbitrary: n)
  case 0
  then have "length s = n" by simp
  then show ?case using 0 cstr_end [of m p s] by (subst strnlen_loop.simps) simp
next
  case (Suc d)
  then have "m (p + n) \<noteq> 0" using cstr_nth [of m p s n] cstr_nonzero [of m p s] Suc.hyps(2)
    by (metis nth_mem zero_less_Suc zero_less_diff)
  then show ?case using Suc by (subst strnlen_loop.simps) auto
qed


section \<open>Tokens\<close>

lemma tokens_smaller:
  assumes "dropWhile P s = c # t"
  shows "length (tl (dropWhile Q (c # t))) < length s"
proof -
  have "length (c # t) \<le> length s" using length_dropWhile_le [of P s] assms by simp
  moreover have "length (tl (dropWhile Q (c # t))) \<le> length (tl (c # t))"
    using length_dropWhile_le [of Q "c # t"] by simp
  ultimately show ?thesis by simp
qed

text \<open>The tokens of a string: its maximal blocks of characters outside the set of delimiters.\<close>

function tokens :: "byte set \<Rightarrow> byte list \<Rightarrow> byte list list" where
  "tokens D s =
     (case dropWhile (\<lambda>c. c \<in> D) s of
        [] \<Rightarrow> []
      | t \<Rightarrow> takeWhile (\<lambda>c. c \<notin> D) t # tokens D (tl (dropWhile (\<lambda>c. c \<notin> D) t)))"
  by pat_completeness auto

termination
  by (relation "measure (\<lambda>(D, s). length s)") (simp_all del: dropWhile.simps length_tl add: tokens_smaller)

declare tokens.simps [simp del]

lemma tokens_none: "dropWhile (\<lambda>c. c \<in> D) s = [] \<Longrightarrow> tokens D s = []"
  by (simp only: tokens.simps [of D s] list.case)

lemma tokens_some:
  "dropWhile (\<lambda>c. c \<in> D) s = c # u \<Longrightarrow>
   tokens D s = takeWhile (\<lambda>c. c \<notin> D) (c # u) # tokens D (tl (dropWhile (\<lambda>c. c \<notin> D) (c # u)))"
  by (simp only: tokens.simps [of D s] list.case)

lemma tokens_nonempty:
  "t \<in> set (tokens D s) \<Longrightarrow> t \<noteq> [] \<and> (\<forall>c \<in> set t. c \<notin> D)"
proof (induction D s rule: tokens.induct)
  case (1 D s)
  show ?case
  proof (cases "dropWhile (\<lambda>c. c \<in> D) s")
    case (Cons c u)
    then have "c \<notin> D" by (metis dropWhile_eq_Cons_conv)
    then have w: "takeWhile (\<lambda>c. c \<notin> D) (c # u) \<noteq> []" by simp
    from 1(2) have "t = takeWhile (\<lambda>c. c \<notin> D) (c # u) \<or> t \<in> set (tokens D (tl (dropWhile (\<lambda>c. c \<notin> D) (c # u))))"
      unfolding tokens_some [OF Cons] by (simp only: list.set insert_iff)
    then show ?thesis
    proof
      assume "t = takeWhile (\<lambda>c. c \<notin> D) (c # u)"
      then show ?thesis using w set_takeWhileD by metis
    qed (rule 1(1) [OF Cons])
  next
    case Nil
    from 1(2) show ?thesis unfolding tokens_none [OF Nil] by simp
  qed
qed

lemma filter_tl_dropWhile: "filter P (dropWhile P s) = filter P (tl (dropWhile P s))"
proof (cases "dropWhile P s")
  case (Cons c u)
  then have "\<not> P c" using hd_dropWhile [of P s] by simp
  then show ?thesis unfolding Cons by simp
next
  case Nil
  show ?thesis unfolding Nil by simp
qed

lemma concat_tokens: "concat (tokens D s) = filter (\<lambda>c. c \<notin> D) s"
proof (induction D s rule: tokens.induct)
  case (1 D s)
  let ?t = "dropWhile (\<lambda>c. c \<in> D) s"
  have s: "filter (\<lambda>c. c \<notin> D) s = filter (\<lambda>c. c \<notin> D) ?t"
    by (induction s) auto
  show ?case
  proof (cases ?t)
    case Nil
    then show ?thesis unfolding s Nil tokens_none [OF Nil] by simp
  next
    case (Cons c u)
    let ?w = "takeWhile (\<lambda>c. c \<notin> D) ?t" and ?r = "dropWhile (\<lambda>c. c \<notin> D) ?t"
    have "filter (\<lambda>c. c \<notin> D) ?r = filter (\<lambda>c. c \<notin> D) (tl ?r)"
      by (rule filter_tl_dropWhile)
    moreover have "filter (\<lambda>c. c \<notin> D) ?w = ?w" by (auto simp: filter_id_conv dest: set_takeWhileD)
    moreover have "filter (\<lambda>c. c \<notin> D) ?t = filter (\<lambda>c. c \<notin> D) ?w @ filter (\<lambda>c. c \<notin> D) ?r"
      unfolding filter_append [symmetric] takeWhile_dropWhile_id ..
    ultimately show ?thesis
      using 1 [OF Cons] unfolding s tokens_some [OF Cons] concat.simps Cons by argo
  qed
qed

lemma skip_delims_cstr:
  assumes "cstr m d ds" "d \<noteq> NULL"
  shows "cstr m p s \<Longrightarrow> skip_delims m d p = Some
    (let n = length (takeWhile (\<lambda>c. c \<in> set ds) s) in if n = length s then Inl (p + n) else Inr (p + n))"
proof (induction s arbitrary: p)
  case Nil
  then show ?case using strchr_cstr [OF assms, of 0] by (subst skip_delims.simps) auto
next
  case (Cons c s)
  then show ?case using strchr_cstr [OF assms, of c] Cons.IH [of "p + 1"]
    by (subst skip_delims.simps) (auto simp: Let_def)
qed

lemma skip_token_cstr:
  assumes "cstr m d ds" "d \<noteq> NULL"
  shows "cstr m p s \<Longrightarrow> skip_token m d p = Some (p + length (takeWhile (\<lambda>c. c \<notin> set ds) s))"
proof (induction s arbitrary: p)
  case Nil
  then show ?case using strchr_cstr [OF assms, of 0] by (subst skip_token.simps) auto
next
  case (Cons c s)
  then show ?case using strchr_cstr [OF assms, of c] Cons.IH [of "p + 1"]
    by (subst skip_token.simps) auto
qed


lemma strtok_r_none:
  assumes "cstr m d ds" "d \<noteq> NULL" "cstr m p s" "p \<noteq> NULL" "(if s0 = NULL then sv else s0) = p"
    and "dropWhile (\<lambda>c. c \<in> set ds) s = []"
  shows "strtok_r m s0 d sv = Some (NULL, p + length s, m)"
proof -
  have tw: "takeWhile (\<lambda>c. c \<in> set ds) s = s" using assms(6) by (simp add: takeWhile_eq_all_conv)
  have "skip_delims m d p = Some (Inl (p + length s))" unfolding skip_delims_cstr [OF assms(1-3)] tw by simp
  then show ?thesis using assms by (simp add: strtok_r_def Let_def)
qed

lemma cstr_truncate:
  assumes "cstr m p (u @ v)"
  shows "cstr (m(p + length u := 0)) p u"
proof (rule cstrI)
  show "0 \<notin> set u" using cstr_nonzero [OF assms] by simp
  show "(m(p + length u := 0)) (p + i) = u ! i" if "i < length u" for i
    using cstr_nth [OF assms, of i] that by (simp add: nth_append)
qed simp

lemma strtok_r_some:
  assumes "cstr m d ds" "d \<noteq> NULL" "cstr m p s" "p \<noteq> NULL" "(if s0 = NULL then sv else s0) = p"
    and t: "dropWhile (\<lambda>c. c \<in> set ds) s = c # u"
  defines "tok \<equiv> p + length (takeWhile (\<lambda>c. c \<in> set ds) s)"
    and "w \<equiv> takeWhile (\<lambda>c. c \<notin> set ds) (c # u)" and "r \<equiv> dropWhile (\<lambda>c. c \<notin> set ds) (c # u)"
  shows "\<exists>q m'. strtok_r m s0 d sv = Some (tok, q, m') \<and> cstr m' tok w \<and> cstr m' q (tl r)
    \<and> p + length s = q + length (tl r) \<and> tok + length w \<le> q \<and> p \<le> tok
    \<and> (\<forall>a. a \<noteq> tok + length w \<longrightarrow> m' a = m a)
    \<and> (r \<noteq> [] \<longrightarrow> tok + length w < q)"
proof -
  let ?k = "takeWhile (\<lambda>c. c \<in> set ds) s"
  have s: "s = ?k @ w @ r" using t unfolding w_def r_def by (metis takeWhile_dropWhile_id)
  have len: "length s = length ?k + length w + length r" using arg_cong [OF s, of length] by simp
  have wr: "cstr m tok (w @ r)" unfolding tok_def using assms(3) cstr_drop [of m p ?k "w @ r"] s by simp
  have "length ?k \<noteq> length s" using t by (metis list.distinct(1) takeWhile_dropWhile_id append_self_conv append_eq_append_conv same_append_eq)
  then have 1: "skip_delims m d p = Some (Inr tok)"
    using skip_delims_cstr [OF assms(1-3)] by (simp add: tok_def Let_def)
  have 2: "skip_token m d tok = Some (tok + length w)"
    using skip_token_cstr [OF assms(1,2) wr] unfolding w_def r_def by simp
  show ?thesis
  proof (cases r)
    case Nil
    then have "cstr m tok w" "m (tok + length w) = 0" using wr cstr_end [OF wr] by simp_all
    then show ?thesis using 1 2 assms(2,4,5) Nil len
      by (simp add: strtok_r_def Let_def tok_def)
  next
    case (Cons x v)
    have x: "cstr m (tok + length w) (x # v)" using cstr_drop [of m tok w r] wr Cons by simp
    let ?m = "m(tok + length w := 0)"
    have "cstr ?m (tok + length w + 1) v"
      using x cstr_cong [of "tok + length w + 1" v ?m m] by simp
    moreover have "cstr ?m tok w" using cstr_truncate [OF wr] .
    ultimately show ?thesis using 1 2 assms(2,4,5) Cons len x
      by (auto simp: strtok_r_def Let_def tok_def)
  qed
qed


text \<open>The loop of the comment above \<open>strtok_r\<close>, which collects the tokens.\<close>

fun tok_loop :: "mem \<Rightarrow> addr \<Rightarrow> addr \<Rightarrow> addr \<Rightarrow> nat \<Rightarrow> (addr list \<times> mem) option" where
  "tok_loop m s d sv 0 = None"
| "tok_loop m s d sv (Suc n) = do {
     (t, sv', m') \<leftarrow> strtok_r m s d sv;
     if t = NULL then Some ([], m')
     else do { (ts, m'') \<leftarrow> tok_loop m' NULL d sv' n; Some (t # ts, m'') } }"

lemma tok_loop_tokens:
  assumes "cstr m d ds" "d \<noteq> NULL" "cstr m p s" "p \<noteq> NULL" "(if s0 = NULL then sv else s0) = p"
    and "d + length ds < p \<or> p + length s < d" and "length s < n"
  shows "\<exists>ts m'. tok_loop m s0 d sv n = Some (ts, m') \<and> list_all2 (cstr m') ts (tokens (set ds) s)
    \<and> (\<forall>a. a < p \<or> p + length s < a \<longrightarrow> m' a = m a)"
  using assms
proof (induction "length s" arbitrary: m p s s0 sv n rule: less_induct)
  case less
  obtain n' where n: "n = Suc n'" using less.prems(7) by (cases n) auto
  show ?case
  proof (cases "dropWhile (\<lambda>c. c \<in> set ds) s")
    case Nil
    show ?thesis unfolding n tok_loop.simps strtok_r_none [OF less.prems(1-5) Nil] tokens_none [OF Nil] by simp
  next
    case (Cons c u)
    let ?w = "takeWhile (\<lambda>c. c \<notin> set ds) (c # u)" and ?r = "dropWhile (\<lambda>c. c \<notin> set ds) (c # u)"
    let ?tok = "p + length (takeWhile (\<lambda>c. c \<in> set ds) s)"
    obtain q m1 where 1: "strtok_r m s0 d sv = Some (?tok, q, m1)" "cstr m1 ?tok ?w" "cstr m1 q (tl ?r)"
        "p + length s = q + length (tl ?r)" "?tok + length ?w \<le> q" "p \<le> ?tok"
        "\<forall>a. a \<noteq> ?tok + length ?w \<longrightarrow> m1 a = m a" "?r \<noteq> [] \<longrightarrow> ?tok + length ?w < q"
      using strtok_r_some [OF less.prems(1-5) Cons] by blast
    have sm: "length (tl ?r) < length s" using tokens_smaller [OF Cons] .
    have d: "cstr m1 d ds" using cstr_cong [of d ds m1 m] 1(4-7) less.prems(1,6) by fastforce
    have q: "q \<noteq> NULL" using 1(5,6) less.prems(4) by linarith
    obtain ts m2 where 2: "tok_loop m1 NULL d q n' = Some (ts, m2)" "list_all2 (cstr m2) ts (tokens (set ds) (tl ?r))"
        "\<forall>a. a < q \<or> q + length (tl ?r) < a \<longrightarrow> m2 a = m1 a"
      using less.hyps [OF sm d less.prems(2) 1(3) q, of NULL q n'] 1(4-6) less.prems(6,7) sm n by auto
    have "cstr m2 ?tok ?w"
    proof (cases "?r = []")
      case True
      have "cstr m1 q []" using 1(3) unfolding True by simp
      from strtok_r_none [OF d less.prems(2) this q, of NULL q] have "strtok_r m1 NULL d q = Some (NULL, q, m1)" by simp
      moreover obtain n'' where "n' = Suc n''" using n less.prems(7) sm by (cases n') auto
      ultimately have "m2 = m1" using 2(1) by simp
      then show ?thesis using 1(2) by simp
    next
      case False
      then show ?thesis using 1(2,8) 2(3) cstr_cong [of ?tok ?w m2 m1] by fastforce
    qed
    moreover have "m2 a = m a" if "a < p \<or> p + length s < a" for a
    proof -
      have "a < q \<or> q + length (tl ?r) < a" "a \<noteq> ?tok + length ?w" using that 1(4-6) by linarith+
      then have "m2 a = m1 a" "m1 a = m a" using 1(7) 2(3) by blast+
      then show ?thesis by (rule trans)
    qed
    moreover have "tok_loop m s0 d sv n = Some (?tok # ts, m2)" using 1(1) 2(1) less.prems(4) n by simp
    ultimately show ?thesis using 2(2) unfolding tokens_some [OF Cons] by blast
  qed
qed


section \<open>Comparing and finding\<close>

text \<open>The sign of the lexicographic comparison of two strings of unsigned characters.\<close>

fun lex_sign :: "byte list \<Rightarrow> byte list \<Rightarrow> int" where
  "lex_sign [] [] = 0"
| "lex_sign [] (y # ys) = - 1"
| "lex_sign (x # xs) [] = 1"
| "lex_sign (x # xs) (y # ys) = (if x < y then - 1 else if y < x then 1 else lex_sign xs ys)"

lemma strcmp_loop_sign: "cstr m a s \<Longrightarrow> cstr m b t \<Longrightarrow> strcmp_loop m a b = Some (lex_sign s t)"
proof (induction s t arbitrary: a b rule: lex_sign.induct)
  case 1
  then show ?case by (subst strcmp_loop.simps) simp
next
  case (2 y ys)
  then show ?case by (subst strcmp_loop.simps) (simp add: word_gt_0)
next
  case (3 x xs)
  then show ?case by (subst strcmp_loop.simps) (simp add: word_gt_0)
next
  case (4 x xs y ys)
  then show ?case by (subst strcmp_loop.simps) auto
qed

lemma lex_sign_0: "lex_sign s t = 0 \<longleftrightarrow> s = t"
  by (induction s t rule: lex_sign.induct) auto

lemma lex_sign_neg: "lex_sign s t < 0 \<longleftrightarrow> ord_class.lexordp s t"
  by (induction s t rule: lex_sign.induct) auto

lemma lex_sign_antisym: "lex_sign t s = - lex_sign s t"
  by (induction s t rule: lex_sign.induct) auto





section \<open>Properties\<close>

text \<open>A memory that holds the given strings at the given addresses, and zeros elsewhere.\<close>

fun mem_of :: "(addr \<times> byte list) list \<Rightarrow> mem" where
  "mem_of [] = (\<lambda>_. 0)"
| "mem_of ((p, s) # bs) = (\<lambda>a. if p \<le> a \<and> a < p + length s then s ! (a - p) else mem_of bs a)"

text \<open>
  C21. \<open>memmove\<close> copies correctly whatever the overlap of source and destination: afterwards the
  destination holds what the source held before, and no other byte has changed. The pointer it
  returns is the destination when the destination is not below the source, but one past the end
  of the destination when it is, although the comment promises \<open>DST\<close> in both cases.
\<close>

theorem memmove_correct:
  assumes "dst \<noteq> NULL" and "src \<noteq> NULL"
  shows "memmove m dst src n = Some (if dst < src then dst + n else dst,
    \<lambda>a. if dst \<le> a \<and> a < dst + n then m (src + (a - dst)) else m a)"
  using assms copy_up_spec [of dst src n m] copy_down_spec [of src dst n m] by (simp add: memmove_def)

theorem memmove_correct_witness:
  "\<exists>m'. memmove (mem_of [(10, [1, 2, 3, 4])]) 11 10 3 = Some (11, m') \<and> bytes m' 10 4 = [1, 1, 2, 3]"
  using memmove_correct [of 11 10 "mem_of [(10, [1, 2, 3, 4])]" 3] by (simp add: bytes_def upt_rec)

text \<open>
  C22. \<open>strlcpy\<close> into a buffer of \<open>n\<close> bytes that does not overlap the source returns the length of
  the source, writes nothing outside the buffer, and leaves in it the longest prefix of the source
  that fits, always null-terminated.
\<close>

theorem strlcpy_correct:
  assumes "cstr m src s" and "dst \<noteq> NULL" and "src \<noteq> NULL" and "0 < n"
    and "dst + n \<le> src \<or> src + length s < dst"
  shows "\<exists>m'. strlcpy m dst src n = Some (length s, m') \<and> cstr m' dst (take (n - 1) s)
    \<and> (\<forall>a. a < dst \<or> dst + n \<le> a \<longrightarrow> m' a = m a) \<and> cstr m' src s"
proof -
  let ?k = "if length s < n - 1 then length s else n - 1"
  let ?m = "(copy_up m dst src ?k)(dst + ?k := 0)"
  have k: "?k = length (take (n - 1) s)" "?k \<le> length s" "?k < n" using assms(4) by auto
  have cp: "copy_up m dst src ?k = (\<lambda>a. if dst \<le> a \<and> a < dst + ?k then m (src + (a - dst)) else m a)"
    using k assms(5) by (intro copy_up_spec) linarith
  have r: "strlcpy m dst src n = Some (length s, ?m)" using assms by (simp add: strlcpy_def memcpy_def Let_def)
  have f: "?m a = m a" if "a < dst \<or> dst + n \<le> a" for a using that k unfolding cp by auto
  have "cstr ?m dst (take (n - 1) s)"
  proof (rule cstrI)
    show "0 \<notin> set (take (n - 1) s)" using cstr_nonzero [OF assms(1)] by (meson in_set_takeD)
    show "?m (dst + i) = take (n - 1) s ! i" if "i < length (take (n - 1) s)" for i
      using that cstr_nth [OF assms(1), of i] unfolding cp by simp
    show "?m (dst + length (take (n - 1) s)) = 0" using k(1) by simp
  qed
  moreover have "cstr ?m src s" using assms(1,5) f cstr_cong [of src s ?m m] by force
  ultimately show ?thesis using r f by blast
qed

theorem strlcpy_correct_witness:
  "let m = mem_of [(10, [104, 105, 33]), (20, [9, 9, 9])] in
   cstr m 10 [104, 105, 33] \<and> (\<exists>m'. strlcpy m 20 10 3 = Some (3, m') \<and> cstr m' 20 [104, 105])"
  using strlcpy_correct [of "mem_of [(10, [104, 105, 33]), (20, [9, 9, 9])]" 10 "[104, 105, 33]" 20 3]
  by (auto simp: Let_def)

text \<open>
  C23. Calling \<open>strtok_r\<close> first with a string and then with the null pointer until it returns the
  null pointer yields exactly the tokens of the string in order, each a null-terminated
  string in the memory at the end; the loop ends after at most one call per character and one
  more, and nothing outside the string is written. The tokens are not empty, contain no
  delimiter, and together are the string without its delimiters.
\<close>

theorem strtok_r_tokens:
  assumes "cstr m d ds" "d \<noteq> NULL" "cstr m p s" "p \<noteq> NULL" and "d + length ds < p \<or> p + length s < d"
  shows "\<exists>ts m'. tok_loop m p d sv (Suc (length s)) = Some (ts, m')
    \<and> list_all2 (cstr m') ts (tokens (set ds) s) \<and> (\<forall>a. a < p \<or> p + length s < a \<longrightarrow> m' a = m a)
    \<and> (\<forall>t \<in> set (tokens (set ds) s). t \<noteq> [] \<and> set t \<inter> set ds = {})
    \<and> concat (tokens (set ds) s) = filter (\<lambda>c. c \<notin> set ds) s"
  using tok_loop_tokens [OF assms(1-4) _ assms(5), of p sv "Suc (length s)"] assms(4)
    tokens_nonempty [of _ "set ds" s] concat_tokens [of "set ds" s] by fastforce

theorem strtok_r_tokens_witness:
  "let m = mem_of [(10, [32]), (20, [32, 97, 98, 32, 32, 99])] in
   cstr m 10 [32] \<and> cstr m 20 [32, 97, 98, 32, 32, 99] \<and> tokens {32} [32, 97, 98, 32, 32, 99] = [[97, 98], [99]]
   \<and> (\<exists>ts m'. tok_loop m 20 10 0 7 = Some (ts, m') \<and> list_all2 (cstr m') ts [[97, 98], [99]])"
proof -
  let ?m = "mem_of [(10, [32]), (20, [32, 97, 98, 32, 32, 99])]"
  have t: "tokens {32} [32, 97, 98, 32, 32, 99] = [[97, 98], [99]]"
    by (simp add: tokens.simps)
  have c: "cstr ?m 10 [32]" "cstr ?m 20 [32, 97, 98, 32, 32, 99]" by simp_all
  have s: "Suc (length [32, 97, 98, 32, 32, 99 :: byte]) = 7" by simp
  show ?thesis using strtok_r_tokens [OF c(1) _ c(2), of 0] c t unfolding s Let_def by auto
qed

text \<open>
  C24. \<open>strcmp\<close> on two strings returns the sign of their lexicographic comparison as sequences of
  unsigned characters: zero exactly for equal strings, negative exactly when the first precedes
  the second, and with the arguments exchanged the opposite sign.
\<close>

theorem strcmp_correct:
  assumes "cstr m a s" and "cstr m b t" and "a \<noteq> NULL" and "b \<noteq> NULL"
  shows "\<exists>r. strcmp m a b = Some r \<and> (r = 0 \<longleftrightarrow> s = t) \<and> (r < 0 \<longleftrightarrow> ord_class.lexordp s t)
    \<and> strcmp m b a = Some (- r)"
  using assms strcmp_loop_sign [of m a s b t] strcmp_loop_sign [of m b t a s]
  by (simp add: strcmp_def lex_sign_antisym [of t s] lex_sign_0 lex_sign_neg)

theorem strcmp_correct_witness:
  "\<exists>r. strcmp (mem_of [(10, [97, 200]), (20, [97, 98])]) 10 20 = Some r \<and> r > 0"
  using strcmp_correct [of "mem_of [(10, [97, 200]), (20, [97, 98])]" 10 "[97, 200]" 20 "[97, 98]"]
  by auto



end
