(* ===== verification/Stdlib.thy ===== *)
theory Stdlib
  imports C_String
begin

text \<open>
  \<open>lib/stdlib.c\<close>: decimal conversion, heap sort and binary search. An array of \<open>cnt\<close> elements of
  \<open>size\<close> bytes each is the sequence of its elements, which the routines access only as wholes:
  through the comparison function and through \<open>do_swap\<close>. Element numbers count from 1, as
  in the source. The comparison is a parameter that returns an \<open>int\<close> of the \<open>strcmp\<close> kind.
\<close>

section \<open>Decimal conversion\<close>

definition isspace :: "byte \<Rightarrow> bool" where
  "isspace c \<longleftrightarrow> c = 32 \<or> c = 12 \<or> c = 10 \<or> c = 13 \<or> c = 9 \<or> c = 11"

definition isdigit :: "byte \<Rightarrow> bool" where
  "isdigit c \<longleftrightarrow> 48 \<le> c \<and> c \<le> 57"

partial_function (option) skip_spaces :: "mem \<Rightarrow> addr \<Rightarrow> addr option" where
  "skip_spaces m s = (if isspace (m s) then skip_spaces m (s + 1) else Some s)"

partial_function (option) digits_loop :: "mem \<Rightarrow> addr \<Rightarrow> int \<Rightarrow> int option" where
  "digits_loop m s v =
     (if isdigit (m s) then digits_loop m (s + 1) (wrap_s32 (wrap_s32 (v * 10) - (uint (m s) - 48)))
      else Some v)"

definition atoi :: "mem \<Rightarrow> addr \<Rightarrow> int option" where
  "atoi m s = do {
     ASSERT (s \<noteq> NULL);
     s \<leftarrow> skip_spaces m s;
     let negative = (m s = 45);
     let s = (if m s = 43 then s + 1 else if m s = 45 then s + 1 else s);
     v \<leftarrow> digits_loop m s 0;
     Some (if negative then v else wrap_s32 (- v)) }"

section \<open>Heap sort\<close>

definition do_swap :: "'a list \<Rightarrow> nat \<Rightarrow> nat \<Rightarrow> 'a list" where
  "do_swap xs a b = xs[a - 1 := xs ! (b - 1), b - 1 := xs ! (a - 1)]"

definition do_compare :: "('a \<Rightarrow> 'a \<Rightarrow> int) \<Rightarrow> 'a list \<Rightarrow> nat \<Rightarrow> nat \<Rightarrow> int" where
  "do_compare compare xs a b = compare (xs ! (a - 1)) (xs ! (b - 1))"

definition max_child :: "('a \<Rightarrow> 'a \<Rightarrow> int) \<Rightarrow> 'a list \<Rightarrow> nat \<Rightarrow> nat \<Rightarrow> nat" where
  "max_child compare xs i cnt =
     (let left = 2 * i; right = 2 * i + 1;
          mx = (if left \<le> cnt \<and> do_compare compare xs left i > 0 then left else i)
      in if right \<le> cnt \<and> do_compare compare xs right mx > 0 then right else mx)"

function heapify :: "('a \<Rightarrow> 'a \<Rightarrow> int) \<Rightarrow> 'a list \<Rightarrow> nat \<Rightarrow> nat \<Rightarrow> 'a list" where
  "heapify compare xs i cnt =
     (let mx = max_child compare xs i cnt
      in if mx = i \<or> i = 0 then xs else heapify compare (do_swap xs i mx) mx cnt)"
  by pat_completeness auto
termination
  by (relation "measure (\<lambda>(c, xs, i, cnt). cnt + 1 - i)")
    (auto simp: max_child_def Let_def split: if_splits)

declare heapify.simps [simp del]

fun build_loop :: "('a \<Rightarrow> 'a \<Rightarrow> int) \<Rightarrow> nat \<Rightarrow> nat \<Rightarrow> 'a list \<Rightarrow> 'a list" where
  "build_loop compare cnt 0 xs = xs"
| "build_loop compare cnt (Suc i) xs = build_loop compare cnt i (heapify compare xs (Suc i) cnt)"

fun heap_sort_loop :: "('a \<Rightarrow> 'a \<Rightarrow> int) \<Rightarrow> nat \<Rightarrow> 'a list \<Rightarrow> 'a list" where
  "heap_sort_loop compare 0 xs = xs"
| "heap_sort_loop compare (Suc i) xs =
     (if Suc i > 1 then heap_sort_loop compare i (heapify compare (do_swap xs 1 (Suc i)) 1 i) else xs)"

definition sort_array :: "('a \<Rightarrow> 'a \<Rightarrow> int) \<Rightarrow> 'a list \<Rightarrow> 'a list" where
  "sort_array compare xs =
     (let cnt = length xs in heap_sort_loop compare cnt (build_loop compare cnt (cnt div 2) xs))"

definition qsort :: "('a \<Rightarrow> 'a \<Rightarrow> int) \<Rightarrow> 'a list \<Rightarrow> 'a list" where
  "qsort compare xs = sort_array compare xs"

section \<open>Binary search\<close>

text \<open>\<open>first\<close> and \<open>last\<close> are element numbers from 0; the result is the number of the match.\<close>

function search_loop :: "('k \<Rightarrow> 'a \<Rightarrow> int) \<Rightarrow> 'k \<Rightarrow> 'a list \<Rightarrow> nat \<Rightarrow> nat \<Rightarrow> nat option" where
  "search_loop compare key xs first last' =
     (if first < last' then
        (let middle = first + (last' - first) div 2; c = compare key (xs ! middle)
         in if c < 0 then search_loop compare key xs first middle
            else if c > 0 then search_loop compare key xs (middle + 1) last'
            else Some middle)
      else None)"
  by pat_completeness auto
termination
  by (relation "measure (\<lambda>(c, k, xs, first, last'). last' - first)") auto

declare search_loop.simps [simp del]

definition binary_search :: "('k \<Rightarrow> 'a \<Rightarrow> int) \<Rightarrow> 'k \<Rightarrow> 'a list \<Rightarrow> nat option" where
  "binary_search compare key xs = search_loop compare key xs 0 (length xs)"

definition bsearch :: "('k \<Rightarrow> 'a \<Rightarrow> int) \<Rightarrow> 'k \<Rightarrow> 'a list \<Rightarrow> nat option" where
  "bsearch compare key xs = binary_search compare key xs"

section \<open>Comparison functions\<close>

locale comparison =
  fixes compare :: "'a \<Rightarrow> 'a \<Rightarrow> int"
  assumes flip: "compare x y > 0 \<longleftrightarrow> compare y x < 0"
    and le_trans: "compare x y \<le> 0 \<Longrightarrow> compare y z \<le> 0 \<Longrightarrow> compare x z \<le> 0"
begin

abbreviation le :: "'a \<Rightarrow> 'a \<Rightarrow> bool" where
  "le x y \<equiv> compare x y \<le> 0"

lemma le_refl: "le x x"
  using flip [of x x] by linarith

lemma le_total: "\<not> le x y \<Longrightarrow> le y x"
  using flip [of x y] by linarith

end

lemma lex_sign_Nil: "lex_sign [] z \<le> 0"
  by (cases z) auto

interpretation strings: comparison lex_sign
proof
  show "lex_sign x y > 0 \<longleftrightarrow> lex_sign y x < 0" for x y
    using lex_sign_antisym [of x y] by linarith
  show "lex_sign x z \<le> 0" if "lex_sign x y \<le> 0" "lex_sign y z \<le> 0" for x y z
    using that
  proof (induction x y arbitrary: z rule: lex_sign.induct)
    case (4 x xs y ys)
    then show ?case by (cases z) (auto split: if_splits)
  qed (auto simp: lex_sign_Nil)
qed

interpretation by_number: comparison "\<lambda>a b. f a - f b" for f :: "'a \<Rightarrow> int"
  by unfold_locales auto

section \<open>Heaps\<close>

text \<open>\<open>at xs j\<close> is the element with number \<open>j\<close>, counted from 1.\<close>

abbreviation at :: "'a list \<Rightarrow> nat \<Rightarrow> 'a" where
  "at xs j \<equiv> xs ! (j - 1)"

lemma length_do_swap [simp]: "length (do_swap xs a b) = length xs"
  by (simp add: do_swap_def)

lemma at_do_swap:
  "1 \<le> a \<Longrightarrow> a \<le> length xs \<Longrightarrow> 1 \<le> b \<Longrightarrow> b \<le> length xs \<Longrightarrow> 1 \<le> j \<Longrightarrow>
   at (do_swap xs a b) j = (if j = b then at xs a else if j = a then at xs b else at xs j)"
  by (auto simp: do_swap_def nth_list_update)

lemma mset_do_swap [simp]:
  "1 \<le> a \<Longrightarrow> a \<le> length xs \<Longrightarrow> 1 \<le> b \<Longrightarrow> b \<le> length xs \<Longrightarrow> mset (do_swap xs a b) = mset xs"
  by (simp add: do_swap_def mset_swap)

lemma max_child_range:
  "1 \<le> i \<Longrightarrow> max_child compare xs i cnt = i \<or>
   (max_child compare xs i cnt = 2 * i \<or> max_child compare xs i cnt = 2 * i + 1) \<and> max_child compare xs i cnt \<le> cnt"
  by (auto simp: max_child_def Let_def)

lemma parent_of: "c div 2 = p \<and> 2 \<le> c \<longleftrightarrow> 1 \<le> p \<and> (c = 2 * p \<or> c = 2 * p + 1)" for c p :: nat
  by auto

lemma heapify_frame:
  "1 \<le> i \<Longrightarrow> cnt \<le> length xs \<Longrightarrow> i \<le> length xs \<Longrightarrow> length (heapify compare xs i cnt) = length xs
     \<and> mset (heapify compare xs i cnt) = mset xs
     \<and> (\<forall>j. cnt < j \<longrightarrow> i \<le> cnt \<longrightarrow> at (heapify compare xs i cnt) j = at xs j)"
proof (induction compare xs i cnt rule: heapify.induct)
  case (1 compare xs i cnt)
  let ?m = "max_child compare xs i cnt"
  show ?case
  proof (cases "?m = i")
    case True
    then show ?thesis by (simp add: heapify.simps [of compare xs i])
  next
    case False
    then have m: "i \<le> ?m" "?m \<le> cnt" "1 \<le> ?m" using max_child_range [OF 1(2), of compare xs cnt] 1(2) by auto
    have h: "heapify compare xs i cnt = heapify compare (do_swap xs i ?m) ?m cnt"
      using False 1(2) by (simp add: heapify.simps [of compare xs i] Let_def)
    have "at (do_swap xs i ?m) j = at xs j" if "cnt < j" for j
      using at_do_swap [of i xs ?m j] that m 1(2-4) by simp
    then show ?thesis unfolding h using 1(1) [OF refl] False 1(2-4) m by simp
  qed
qed

context comparison
begin

text \<open>Every parent from \<open>k\<close> on is at least as big as its children among the first \<open>cnt\<close> elements.
  \<open>heap_but\<close> allows one parent \<open>i\<close> to be too small, as long as its children fit its parent.\<close>

definition heap_from :: "nat \<Rightarrow> nat \<Rightarrow> 'a list \<Rightarrow> bool" where
  "heap_from k cnt xs \<longleftrightarrow> (\<forall>c. 2 \<le> c \<longrightarrow> c \<le> cnt \<longrightarrow> k \<le> c div 2 \<longrightarrow> le (at xs c) (at xs (c div 2)))"

definition heap_but :: "nat \<Rightarrow> nat \<Rightarrow> nat \<Rightarrow> 'a list \<Rightarrow> bool" where
  "heap_but i k cnt xs \<longleftrightarrow>
     (\<forall>c. 2 \<le> c \<longrightarrow> c \<le> cnt \<longrightarrow> k \<le> c div 2 \<longrightarrow> c div 2 \<noteq> i \<longrightarrow> le (at xs c) (at xs (c div 2))) \<and>
     (\<forall>c. 2 \<le> c \<longrightarrow> c \<le> cnt \<longrightarrow> c div 2 = i \<longrightarrow> 2 \<le> i \<longrightarrow> k \<le> i div 2 \<longrightarrow> le (at xs c) (at xs (i div 2)))"

lemma max_child_max:
  assumes "1 \<le> i"
  shows "le (at xs i) (at xs (max_child compare xs i cnt))"
    and "2 \<le> c \<Longrightarrow> c \<le> cnt \<Longrightarrow> c div 2 = i \<Longrightarrow> le (at xs c) (at xs (max_child compare xs i cnt))"
proof -
  define m1 where "m1 = (if 2 * i \<le> cnt \<and> do_compare compare xs (2 * i) i > 0 then 2 * i else i)"
  define m where "m = max_child compare xs i cnt"
  have m: "m = (if 2 * i + 1 \<le> cnt \<and> do_compare compare xs (2 * i + 1) m1 > 0 then 2 * i + 1 else m1)"
    by (simp add: m_def m1_def max_child_def Let_def)
  have 1: "le (at xs i) (at xs m1)" "2 * i \<le> cnt \<Longrightarrow> le (at xs (2 * i)) (at xs m1)"
    unfolding m1_def do_compare_def by (auto intro: le_refl le_total simp: not_less)
  have 2: "le (at xs m1) (at xs m)" "2 * i + 1 \<le> cnt \<Longrightarrow> le (at xs (2 * i + 1)) (at xs m)"
    unfolding m do_compare_def by (auto intro: le_refl le_total simp: not_less)
  show "le (at xs i) (at xs (max_child compare xs i cnt))"
    using le_trans [OF 1(1) 2(1)] unfolding m_def .
  show "le (at xs c) (at xs (max_child compare xs i cnt))" if "2 \<le> c" "c \<le> cnt" "c div 2 = i"
  proof -
    have "c = 2 * i \<or> c = 2 * i + 1" using that parent_of [of c i] by blast
    then show ?thesis using that(2) le_trans [OF 1(2) 2(1)] 2(2) unfolding m_def [symmetric] by blast
  qed
qed

lemma heap_but_step:
  assumes "heap_but i k cnt xs" "1 \<le> i" "k \<le> i" "1 \<le> k" "cnt \<le> length xs"
    and m: "max_child compare xs i cnt \<noteq> i"
  shows "heap_but (max_child compare xs i cnt) k cnt (do_swap xs i (max_child compare xs i cnt))"
proof -
  define m where "m = max_child compare xs i cnt"
  have mi: "m div 2 = i" "2 \<le> m" "m \<le> cnt" "i < m"
    using max_child_range [OF assms(2), of compare xs cnt] m assms(2) by (auto simp: m_def)
  have at': "at (do_swap xs i m) j = (if j = m then at xs i else if j = i then at xs m else at xs j)" if "1 \<le> j" for j
    using at_do_swap [of i xs m j] that mi assms(2,5) by simp
  have mx: "le (at xs i) (at xs m)" "\<And>c. 2 \<le> c \<Longrightarrow> c \<le> cnt \<Longrightarrow> c div 2 = i \<Longrightarrow> le (at xs c) (at xs m)"
    using max_child_max [OF assms(2), where xs = xs and cnt = cnt] unfolding m_def by blast+
  have but1: "\<And>c. 2 \<le> c \<Longrightarrow> c \<le> cnt \<Longrightarrow> k \<le> c div 2 \<Longrightarrow> c div 2 \<noteq> i \<Longrightarrow> le (at xs c) (at xs (c div 2))"
    and but2: "2 \<le> i \<Longrightarrow> k \<le> i div 2 \<Longrightarrow> le (at xs m) (at xs (i div 2))"
    using assms(1) mi unfolding heap_but_def by blast+
  have "le (at (do_swap xs i m) c) (at (do_swap xs i m) (c div 2))"
    if c: "2 \<le> c" "c \<le> cnt" "k \<le> c div 2" "c div 2 \<noteq> m" for c
  proof (cases "c div 2 = i")
    case True
    then show ?thesis using c mx mi at' [of c] at' [of i] assms(2) by auto
  next
    case False
    have c2: "1 \<le> c div 2" using c(3) assms(4) by simp
    show ?thesis
    proof (cases "c = i")
      case True
      then show ?thesis using c but2 at' [of c] at' [of "c div 2"] c2 mi False by auto
    next
      case c': False
      moreover have "c \<noteq> m" using mi(1) False by blast
      ultimately show ?thesis using c but1 [OF c(1-3) False] at' [of c] at' [of "c div 2"] c2 False by auto
    qed
  qed
  moreover have "le (at (do_swap xs i m) c) (at (do_swap xs i m) (m div 2))"
    if c: "2 \<le> c" "c \<le> cnt" "c div 2 = m" for c
  proof -
    have "c \<noteq> m" "c \<noteq> i" using c mi by auto
    moreover have "le (at xs c) (at xs m)" using but1 [of c] c mi assms(3) by simp
    ultimately show ?thesis using at' [of c] at' [of i] c mi assms(2) by simp
  qed
  ultimately show ?thesis unfolding heap_but_def m_def [symmetric] by blast
qed

lemma heapify_heap:
  assumes "heap_but i k cnt xs" "1 \<le> i" "k \<le> i" "1 \<le> k" "i \<le> length xs" "cnt \<le> length xs"
  shows "heap_from k cnt (heapify compare xs i cnt)"
  using assms
proof (induction "cnt + 1 - i" arbitrary: xs i rule: less_induct)
  case less
  let ?m = "max_child compare xs i cnt"
  show ?case
  proof (cases "?m = i")
    case True
    have "le (at xs c) (at xs (c div 2))" if "2 \<le> c" "c \<le> cnt" "k \<le> c div 2" for c
    proof (cases "c div 2 = i")
      case c: True
      have "le (at xs c) (at xs ?m)" using max_child_max(2) [OF less.prems(2) that(1,2) c] .
      then show ?thesis unfolding True c .
    next
      case False
      then show ?thesis using less.prems(1) that unfolding heap_but_def by blast
    qed
    then show ?thesis using True by (simp add: heapify.simps [of compare xs i] heap_from_def)
  next
    case False
    then have m: "i < ?m" "?m \<le> cnt" using max_child_range [OF less.prems(2), of compare xs cnt] less.prems(2) by auto
    have "heap_from k cnt (heapify compare (do_swap xs i ?m) ?m cnt)"
      using less.hyps [of ?m "do_swap xs i ?m"] heap_but_step [OF less.prems(1-4,6) False] m less.prems by simp
    then show ?thesis using False less.prems(2) by (simp add: heapify.simps [of compare xs i] Let_def)
  qed
qed

lemma build_loop_heap:
  "heap_from (i + 1) cnt xs \<Longrightarrow> i \<le> cnt \<Longrightarrow> cnt = length xs \<Longrightarrow>
   heap_from 1 cnt (build_loop compare cnt i xs) \<and> mset (build_loop compare cnt i xs) = mset xs"
proof (induction i arbitrary: xs)
  case (Suc i)
  have "heap_but (Suc i) (Suc i) cnt xs" using Suc.prems(1) unfolding heap_but_def heap_from_def by auto
  then have "heap_from (Suc i) cnt (heapify compare xs (Suc i) cnt)" using heapify_heap Suc.prems by simp
  then show ?case using Suc.IH [of "heapify compare xs (Suc i) cnt"] heapify_frame [of "Suc i" cnt xs compare] Suc.prems by simp
qed simp

lemma heap_root:
  assumes "heap_from 1 cnt xs"
  shows "1 \<le> j \<Longrightarrow> j \<le> cnt \<Longrightarrow> le (at xs j) (at xs 1)"
proof (induction j rule: less_induct)
  case (less j)
  show ?case
  proof (cases "j = 1")
    case False
    then have "le (at xs j) (at xs (j div 2))" using assms less.prems unfolding heap_from_def by auto
    moreover have "le (at xs (j div 2)) (at xs 1)" using less.IH [of "j div 2"] less.prems False by auto
    ultimately show ?thesis by (rule le_trans)
  qed (simp add: le_refl)
qed

lemma heap_sort_loop_sorted:
  assumes "heap_from 1 i xs" "i \<le> length xs" "sorted_wrt le (drop i xs)"
    "\<And>x y. x \<in> set (take i xs) \<Longrightarrow> y \<in> set (drop i xs) \<Longrightarrow> le x y"
  shows "sorted_wrt le (heap_sort_loop compare i xs) \<and> mset (heap_sort_loop compare i xs) = mset xs"
  using assms
proof (induction i arbitrary: xs)
  case (Suc i)
  show ?case
  proof (cases "i = 0")
    case True
    obtain x ys where "xs = x # ys" using Suc.prems(2) by (cases xs) auto
    then show ?thesis using Suc.prems(3,4) True by auto
  next
    case False
    let ?xs' = "do_swap xs 1 (Suc i)" and ?r = "at xs 1" and ?R = "drop (Suc i) xs"
    let ?ys = "heapify compare ?xs' 1 i"
    have at': "at ?xs' j = (if j = Suc i then at xs 1 else if j = 1 then at xs (Suc i) else at xs j)" if "1 \<le> j" for j
      using at_do_swap [of 1 xs "Suc i" j] that Suc.prems(2) by simp
    have "heap_but 1 1 i ?xs'" unfolding heap_but_def
      using Suc.prems(1) at' by (auto simp: heap_from_def)
    then have h: "heap_from 1 i ?ys" using heapify_heap [of 1 1 i ?xs'] Suc.prems(2) by simp
    have ne: "xs \<noteq> []" using Suc.prems(2) by auto
    have fr: "length ?ys = length xs" "mset ?ys = mset xs" "\<And>j. i < j \<Longrightarrow> at ?ys j = at ?xs' j"
      using heapify_frame [of 1 i ?xs' compare] Suc.prems(2) False ne by (auto simp: Suc_le_eq)
    have R: "drop i ?ys = ?r # ?R"
    proof (rule nth_equalityI)
      show "length (drop i ?ys) = length (?r # ?R)" using fr(1) Suc.prems(2) by simp
      fix n assume "n < length (drop i ?ys)"
      then show "drop i ?ys ! n = (?r # ?R) ! n"
        using fr(3) [of "i + n + 1"] at' [of "i + n + 1"] fr(1) by (cases n) auto
    qed
    have "mset (take i ?ys) + mset (drop i ?ys) = mset (take (Suc i) xs) + mset ?R"
      using fr(2) by (metis append_take_drop_id mset_append)
    then have T: "add_mset ?r (mset (take i ?ys)) = mset (take (Suc i) xs)" unfolding R by simp
    have root: "le x ?r" if x: "x \<in> set (take (Suc i) xs)" for x
    proof -
      obtain n where "n < Suc i" "x = xs ! n" using x unfolding in_set_conv_nth by auto
      then show ?thesis using heap_root [OF Suc.prems(1), of "n + 1"] by simp
    qed
    have sub: "x \<in> set (take (Suc i) xs)" if "x \<in> set (take i ?ys) \<or> x = ?r" for x
      using that T by (metis insert_iff set_mset_add_mset_insert set_mset_mset)
    have "sorted_wrt le (drop i ?ys)" unfolding R using Suc.prems(3,4) sub by auto
    moreover have "le x y" if "x \<in> set (take i ?ys)" "y \<in> set (drop i ?ys)" for x y
      using that root sub Suc.prems(4) unfolding R by auto
    ultimately show ?thesis using Suc.IH [OF h] fr(1,2) Suc.prems(2) False by simp
  qed
qed simp

lemma sort_array_sorted:
  "sorted_wrt le (sort_array compare xs) \<and> mset (sort_array compare xs) = mset xs"
proof -
  let ?n = "length xs"
  have "heap_from (?n div 2 + 1) ?n xs" unfolding heap_from_def by (auto dest: div_le_mono [of _ _ 2])
  then have b: "heap_from 1 ?n (build_loop compare ?n (?n div 2) xs)" "mset (build_loop compare ?n (?n div 2) xs) = mset xs"
    using build_loop_heap [of "?n div 2" ?n xs] by auto
  then have "length (build_loop compare ?n (?n div 2) xs) = ?n" by (metis size_mset)
  then show ?thesis using heap_sort_loop_sorted [OF b(1)] b(2) by (simp add: sort_array_def Let_def)
qed

lemma lt_le_trans: "compare x y < 0 \<Longrightarrow> le y z \<Longrightarrow> compare x z < 0"
  using flip [of x z] flip [of y x] flip [of z x] le_trans [of y z x] by linarith

lemma le_lt_trans: "le x y \<Longrightarrow> compare y z < 0 \<Longrightarrow> compare x z < 0"
  using flip [of z x] flip [of z y] flip [of x z] le_trans [of z x y] by linarith

lemma search_loop_correct:
  assumes "sorted_wrt le xs" "l \<le> length xs"
    "\<And>j. j < f \<Longrightarrow> compare key (xs ! j) > 0" "\<And>j. l \<le> j \<Longrightarrow> j < length xs \<Longrightarrow> compare key (xs ! j) < 0"
  shows "case search_loop compare key xs f l of
      Some i \<Rightarrow> i < length xs \<and> compare key (xs ! i) = 0
    | None \<Rightarrow> \<forall>j < length xs. compare key (xs ! j) \<noteq> 0"
  using assms(2-4)
proof (induction "l - f" arbitrary: f l rule: less_induct)
  case less
  show ?case
  proof (cases "f < l")
    case False
    have "compare key (xs ! j) \<noteq> 0" if "j < length xs" for j
      using less.prems(2) [of j] less.prems(3) [of j] that False by (cases "j < f") auto
    then show ?thesis using False by (simp add: search_loop.simps)
  next
    case True
    let ?m = "f + (l - f) div 2" and ?c = "compare key (xs ! (f + (l - f) div 2))"
    have m: "f \<le> ?m" "?m < l" using True by linarith+
    have mono: "le (xs ! a) (xs ! b)" if "a \<le> b" "b < length xs" for a b
      using that le_refl sorted_wrt_nth_less [OF assms(1), of a b] by (cases "a = b") simp_all
    consider "?c < 0" | "?c > 0" | "?c = 0" by linarith
    then show ?thesis
    proof cases
      case 1
      have "compare key (xs ! j) < 0" if "?m \<le> j" "j < length xs" for j
        using lt_le_trans [OF 1 mono [OF that]] .
      then have "case search_loop compare key xs f ?m of Some i \<Rightarrow> i < length xs \<and> compare key (xs ! i) = 0
          | None \<Rightarrow> \<forall>j < length xs. compare key (xs ! j) \<noteq> 0"
        using less.hyps [of ?m f] less.prems m by simp
      then show ?thesis using True 1 by (subst search_loop.simps) (simp add: Let_def)
    next
      case 2
      have "compare key (xs ! j) > 0" if "j < ?m + 1" for j
      proof -
        have "compare (xs ! ?m) key < 0" using 2 flip [of key "xs ! ?m"] by simp
        then have "compare (xs ! j) key < 0" using le_lt_trans [OF mono [of j ?m]] that m(2) less.prems(1) by simp
        then show ?thesis using flip [of key "xs ! j"] by simp
      qed
      then have "case search_loop compare key xs (?m + 1) l of Some i \<Rightarrow> i < length xs \<and> compare key (xs ! i) = 0
          | None \<Rightarrow> \<forall>j < length xs. compare key (xs ! j) \<noteq> 0"
        using less.hyps [of l "?m + 1"] less.prems m by simp
      then show ?thesis using True 2 by (subst search_loop.simps) (simp add: Let_def)
    next
      case 3
      then show ?thesis using True m less.prems(1) by (subst search_loop.simps) (simp add: Let_def)
    qed
  qed
qed

end

section \<open>Decimal numbers\<close>

definition dec_value :: "int \<Rightarrow> byte list \<Rightarrow> int" where
  "dec_value v ds = foldl (\<lambda>a c. a * 10 + (uint c - 48)) v ds"

lemma digit_range: "isdigit c \<Longrightarrow> 0 \<le> uint c - 48 \<and> uint c - 48 \<le> 9"
  by (simp add: isdigit_def word_le_def)

lemma dec_value_ge: "0 \<le> v \<Longrightarrow> \<forall>c \<in> set ds. isdigit c \<Longrightarrow> v \<le> dec_value v ds"
proof (induction ds arbitrary: v)
  case (Cons c ds)
  have "v \<le> v * 10 + (uint c - 48)" using Cons.prems digit_range [of c] by simp
  then show ?case using Cons.IH [of "v * 10 + (uint c - 48)"] Cons.prems by (simp add: dec_value_def)
qed (simp add: dec_value_def)

lemma digits_loop_value:
  "cstr m p (ds @ rest) \<Longrightarrow> \<forall>c \<in> set ds. isdigit c \<Longrightarrow> rest = [] \<or> \<not> isdigit (hd rest) \<Longrightarrow>
   0 \<le> v \<Longrightarrow> dec_value v ds \<le> 2147483648 \<Longrightarrow> digits_loop m p (- v) = Some (- dec_value v ds)"
proof (induction ds arbitrary: p v)
  case Nil
  have "\<not> isdigit (m p)" using Nil.prems(1,3) by (cases rest) (auto simp: isdigit_def)
  then show ?case by (subst digits_loop.simps) (simp add: dec_value_def)
next
  case (Cons c ds)
  let ?v = "v * 10 + (uint c - 48)"
  have c: "m p = c" "isdigit c" "cstr m (p + 1) (ds @ rest)" using Cons.prems by auto
  have v: "0 \<le> ?v" "dec_value ?v ds \<le> 2147483648" "dec_value v (c # ds) = dec_value ?v ds"
    using Cons.prems digit_range [OF c(2)] by (auto simp: dec_value_def)
  then have "?v \<le> 2147483648" using dec_value_ge [of ?v ds] Cons.prems by auto
  then have "wrap_s32 (wrap_s32 (- v * 10) - (uint (m p) - 48)) = - ?v"
    using digit_range [OF c(2)] Cons.prems(4) c(1) by (simp add: wrap_s32_id)
  then show ?case using Cons.IH [OF c(3) _ Cons.prems(3) v(1,2)] Cons.prems(2) c v(3) by (subst digits_loop.simps) simp
qed

lemma skip_spaces_cstr:
  "cstr m p (sp @ s) \<Longrightarrow> \<forall>c \<in> set sp. isspace c \<Longrightarrow> s = [] \<or> \<not> isspace (hd s) \<Longrightarrow>
   skip_spaces m p = Some (p + length sp)"
proof (induction sp arbitrary: p)
  case Nil
  then have "\<not> isspace (m p)" by (cases s) (auto simp: isspace_def)
  then show ?case by (subst skip_spaces.simps) simp
next
  case (Cons c sp)
  then show ?case by (subst skip_spaces.simps) auto
qed


section \<open>Properties\<close>

text \<open>
  C29. \<open>sort\<close> and \<open>qsort\<close> leave a permutation of the array in ascending order, for every array
  and every comparison that is a total preorder.
\<close>

theorem sort_array_correct:
  assumes "comparison compare"
  shows "sorted_wrt (\<lambda>x y. compare x y \<le> 0) (qsort compare xs) \<and> mset (qsort compare xs) = mset xs"
  using comparison.sort_array_sorted [OF assms] by (simp add: qsort_def)

theorem sort_array_correct_witness:
  "sorted_wrt (\<lambda>x y. x - y \<le> 0) (qsort (\<lambda>x y. x - y) [3, 1, 2 :: int])
   \<and> mset (qsort (\<lambda>x y. x - y) [3, 1, 2 :: int]) = {#1, 2, 3#}"
  using sort_array_correct [OF by_number.comparison_axioms [of "\<lambda>x. x"], of "[3, 1, 2]"]
  by (simp add: add_mset_commute)

text \<open>
  C30. \<open>bsearch\<close> on an array in ascending order returns an element that compares equal to the
  key, and the null pointer exactly when the array has none.
\<close>

theorem bsearch_correct:
  assumes "comparison compare" and "sorted_wrt (\<lambda>x y. compare x y \<le> 0) xs"
  shows "case bsearch compare key xs of
      Some i \<Rightarrow> i < length xs \<and> compare key (xs ! i) = 0
    | None \<Rightarrow> \<forall>x \<in> set xs. compare key x \<noteq> 0"
  using comparison.search_loop_correct [OF assms, of "length xs" 0 key]
  by (auto simp: bsearch_def binary_search_def in_set_conv_nth split: option.splits)

theorem bsearch_correct_witness:
  "\<exists>i. bsearch (\<lambda>x y. x - y) 5 [1, 5, 7 :: int] = Some i \<and> [1, 5, 7 :: int] ! i = 5"
  using bsearch_correct [OF by_number.comparison_axioms [of "\<lambda>x. x"], of "[1, 5, 7]" 5]
  by (auto split: option.splits)

text \<open>
  C31. \<open>atoi\<close> of a string of white space, an optional sign and decimal digits up to the first
  other character is the number the digits denote, for every number that an \<open>int\<close> holds,
  the smallest one included.
\<close>

theorem atoi_correct:
  assumes "cstr m p (sp @ sg @ ds @ rest)" and "p \<noteq> NULL" and "\<forall>c \<in> set sp. isspace c"
    and "sg \<in> {[], [43], [45]}" and "\<forall>c \<in> set ds. isdigit c" and "ds \<noteq> []"
    and "rest = [] \<or> \<not> isdigit (hd rest)"
    and "dec_value 0 ds \<le> (if sg = [45] then 2147483648 else 2147483647)"
  shows "atoi m p = Some (if sg = [45] then - dec_value 0 ds else dec_value 0 ds)"
proof -
  let ?t = "sg @ ds @ rest" and ?q = "p + length sp"
  obtain d ds' where d: "ds = d # ds'" "isdigit d" using assms(5,6) by (cases ds) auto
  have dc: "d \<noteq> 43" "d \<noteq> 45" "\<not> isspace d" using d(2) by (auto simp: isdigit_def isspace_def)
  have "\<not> isspace (hd ?t)" using assms(4) d(1) dc by (auto simp: isspace_def)
  then have sk: "skip_spaces m p = Some ?q" using skip_spaces_cstr [OF assms(1,3)] by blast
  have q: "cstr m ?q ?t" using cstr_drop [OF assms(1)] .
  have ds: "cstr m (?q + length sg) (ds @ rest)" using cstr_drop [OF q] .
  have "dec_value 0 ds \<le> 2147483648" using assms(8) by (simp split: if_splits)
  then have dl: "digits_loop m (?q + length sg) 0 = Some (- dec_value 0 ds)"
    using digits_loop_value [OF ds assms(5,7), of 0] by simp
  have "0 \<le> dec_value 0 ds" using dec_value_ge [of 0 ds] assms(5) by simp
  then have w: "sg \<noteq> [45] \<Longrightarrow> wrap_s32 (dec_value 0 ds) = dec_value 0 ds" using assms(8) by (simp add: wrap_s32_id)
  show ?thesis using assms(2,4) sk dl w q d(1) dc by (auto simp: atoi_def Let_def)
qed

theorem atoi_correct_witness:
  "atoi (mem_of [(10, [32, 45, 52, 50])]) 10 = Some (- 42)"
  using atoi_correct [of "mem_of [(10, [32, 45, 52, 50])]" 10 "[32]" "[45]" "[52, 50]" "[]"]
  by (simp add: isspace_def isdigit_def dec_value_def)

end
