(* ===== verification/Arith64.thy ===== *)
theory Arith64
  imports Prelude
begin

text \<open>
  The 64-bit division routines of \<open>lib/arithmetic.c\<close>, built on the processor's division of a 64-bit
  by a 32-bit number. \<open>uint64_t\<close> and \<open>uint32_t\<close> values are natural numbers, with the reduction
  modulo the word size written out; \<open>None\<close> is the divide-error trap.
\<close>

definition divl :: "nat \<Rightarrow> nat \<Rightarrow> nat option" where
  "divl n d = (if d = 0 \<or> n div d \<ge> 2 ^ 32 then None else Some (n div d))"

definition nlz :: "nat \<Rightarrow> nat" where
  "nlz x =
     (let (n, x) = (if x \<le> 0x0000FFFF then (16, x * 2 ^ 16 mod 2 ^ 32) else (0, x));
          (n, x) = (if x \<le> 0x00FFFFFF then (n + 8, x * 2 ^ 8 mod 2 ^ 32) else (n, x));
          (n, x) = (if x \<le> 0x0FFFFFFF then (n + 4, x * 2 ^ 4 mod 2 ^ 32) else (n, x));
          (n, x) = (if x \<le> 0x3FFFFFFF then (n + 2, x * 2 ^ 2 mod 2 ^ 32) else (n, x))
      in if x \<le> 0x7FFFFFFF then n + 1 else n)"

definition udiv64 :: "nat \<Rightarrow> nat \<Rightarrow> nat option" where
  "udiv64 n d =
     (if d div 2 ^ 32 = 0 then do {
        let b = 2 ^ 32;
        let n1 = n div 2 ^ 32;
        let n0 = n mod 2 ^ 32;
        let d0 = d mod 2 ^ 32;
        ASSERT (d0 \<noteq> 0);
        q \<leftarrow> divl (b * (n1 mod d0) + n0) d0;
        Some ((q + b * (n1 div d0)) mod 2 ^ 64) }
      else if n < d then Some 0
      else do {
        let d1 = d div 2 ^ 32;
        let s = nlz d1;
        q0 \<leftarrow> divl (n div 2) ((d * 2 ^ s mod 2 ^ 64) div 2 ^ 32);
        let q = q0 div 2 ^ (31 - s);
        let q1 = (q + 2 ^ 64 - 1) mod 2 ^ 64;
        Some (if (n + 2 ^ 64 - q1 * d mod 2 ^ 64) mod 2 ^ 64 < d then q1 else q) })"

definition umod64 :: "nat \<Rightarrow> nat \<Rightarrow> nat option" where
  "umod64 n d = do {
     q \<leftarrow> udiv64 n d;
     Some ((n + 2 ^ 64 - d * q mod 2 ^ 64) mod 2 ^ 64 mod 2 ^ 32) }"

definition sdiv64 :: "int \<Rightarrow> int \<Rightarrow> int option" where
  "sdiv64 n d = do {
     let n_abs = nat \<bar>n\<bar>;
     let d_abs = nat \<bar>d\<bar>;
     q_abs \<leftarrow> udiv64 n_abs d_abs;
     Some (if (n < 0) = (d < 0) then wrap_s64 (int q_abs) else wrap_s64 (- wrap_s64 (int q_abs))) }"

definition smod64 :: "int \<Rightarrow> int \<Rightarrow> int option" where
  "smod64 n d = do {
     q \<leftarrow> sdiv64 n d;
     Some (wrap_s32 (wrap_s64 (n - d * q))) }"

definition divdi3 :: "int \<Rightarrow> int \<Rightarrow> int option" where "divdi3 n d = sdiv64 n d"
definition moddi3 :: "int \<Rightarrow> int \<Rightarrow> int option" where "moddi3 n d = smod64 n d"
definition udivdi3 :: "nat \<Rightarrow> nat \<Rightarrow> nat option" where "udivdi3 n d = udiv64 n d"
definition umoddi3 :: "nat \<Rightarrow> nat \<Rightarrow> nat option" where "umoddi3 n d = umod64 n d"

section \<open>Leading zeros\<close>

text \<open>Every step of the binary search keeps the product of \<open>x\<close> and \<open>2 ^ s\<close> below \<open>2 ^ 32\<close>.\<close>

lemma nlz_bounds:
  assumes "0 < x" and "x < 2 ^ 32"
  shows "nlz x \<le> 31 \<and> 2 ^ 31 \<le> x * 2 ^ nlz x \<and> x * 2 ^ nlz x < 2 ^ 32"
  using assms unfolding nlz_def by (simp add: Let_def power_add)

section \<open>Division\<close>

lemma split_division:
  fixes b d n :: nat
  assumes "0 < d" and "0 < b"
  shows "n div d = (b * (n div b mod d) + n mod b) div d + b * (n div b div d)"
    and "(b * (n div b mod d) + n mod b) div d < b"
proof -
  let ?n1 = "n div b"
  have "n = b * ?n1 + n mod b" "?n1 = d * (?n1 div d) + ?n1 mod d" by simp_all
  then have "n = b * (?n1 mod d) + n mod b + d * (b * (?n1 div d))"
    by (metis add.assoc add.commute distrib_left mult.left_commute)
  then show "n div d = (b * (n div b mod d) + n mod b) div d + b * (n div b div d)"
    using assms(1) by (metis div_mult_self2 add.commute less_not_refl2)
  have "b * (?n1 mod d) \<le> b * (d - 1)"
    using assms(1) mod_less_divisor [of d ?n1] by (intro mult_le_mono2) linarith
  moreover have "b * (d - 1) + b = b * d" using assms(1) by (cases d) simp_all
  moreover have "n mod b < b" using assms(2) by simp
  ultimately have "b * (?n1 mod d) + n mod b < b * d" by linarith
  then show "(b * (n div b mod d) + n mod b) div d < b" by (rule less_mult_imp_div_less)
qed

lemma udiv64_small:
  assumes "0 < d" and "d < 2 ^ 32" and "n < 2 ^ 64"
  shows "udiv64 n d = Some (n div d)"
proof -
  note sd = split_division [OF assms(1), of "2 ^ 32" n]
  have "n div d < 2 ^ 64" using assms(3) by (rule le_less_trans [OF div_le_dividend])
  moreover have "d div 2 ^ 32 = 0" "d mod 2 ^ 32 = d" using assms(2) by simp_all
  ultimately show ?thesis using assms(1) sd
    unfolding udiv64_def divl_def Let_def by (simp only: if_True bind_ASSERT) auto
qed

text \<open>The estimate of the quotient for large divisors, after Hacker's Delight: with \<open>d\<close> rounded down
  to a multiple of \<open>M = 2 ^ (32 - s)\<close>, the quotient is right or one too big.\<close>

lemma quotient_estimate:
  fixes n d D M Q :: nat
  assumes "0 < D" "D \<le> d" "d < D + M" "Q = n div d" "(Q + 1) * (M - 1) \<le> D"
  shows "n div D = Q \<or> n div D = Q + 1"
proof -
  have d0: "0 < d" using assms(1,2) by simp
  have lo: "Q \<le> n div D" unfolding assms(4) using assms(1,2) by (simp add: div_le_mono2)
  have "n < (Q + 1) * d" unfolding assms(4) using dividend_less_div_times [OF d0, of n] by (simp add: algebra_simps)
  also have "\<dots> \<le> (Q + 1) * (D + (M - 1))" using assms(3) by (intro mult_le_mono2) linarith
  also have "\<dots> \<le> (Q + 1) * D + D" using assms(5) by (simp add: distrib_left)
  finally have "n < (Q + 2) * D" by (simp add: algebra_simps)
  then have "n div D < Q + 2" by (simp add: less_mult_imp_div_less)
  then show ?thesis using lo by linarith
qed

lemma normalised_divisor:
  fixes b d d1 M p :: nat
  assumes "b = p * M" "0 < p" "d1 * p < b" "d < (d1 + 1) * b"
  shows "d * p < b * b" "d * p div b = d div M"
proof -
  have "d1 < M" using assms(1,3) by (metis mult.commute mult_less_cancel2)
  then have "(d1 + 1) * p \<le> M * p" by (intro mult_le_mono1) simp
  then have "b * ((d1 + 1) * p) \<le> b * b" using assms(1) by (intro mult_le_mono2) (simp add: mult.commute)
  moreover have "d * p < (d1 + 1) * b * p" using assms(2,4) by simp
  ultimately show "d * p < b * b" by (simp add: algebra_simps)
  show "d * p div b = d div M" using assms(1,2) by (simp add: mult.commute)
qed

lemma estimate_bound:
  fixes p M Q D :: nat
  assumes "p * M = 4294967296" "2147483648 * M \<le> D" "Q < 2 * p" "M = 2 \<or> 4 \<le> M"
  shows "(Q + 1) * (M - 1) \<le> D"
proof -
  have "(Q + 1) * (M - 1) \<le> 2 * p * (M - 1)" using assms(3) by (intro mult_le_mono1) simp
  also have "2 * p * (M - 1) = 8589934592 - 2 * p" using assms(1) by (simp add: diff_mult_distrib2)
  also have "\<dots> \<le> D" using assms(4)
  proof
    assume "M = 2"
    then show ?thesis using assms(1,2) by simp
  qed (use assms(2) in simp)
  finally show ?thesis .
qed

lemma quotient_bound:
  fixes n d M p :: nat
  assumes "p * M = 4294967296" "2147483648 * M \<le> d" "n < 18446744073709551616" "0 < M"
  shows "n div d < 2 * p"
proof -
  have "(2147483648 * M) * (2 * p) = 18446744073709551616" using assms(1) by (simp add: algebra_simps)
  moreover have "(2147483648 * M) * (2 * p) \<le> d * (2 * p)" using assms(2) by (rule mult_le_mono1)
  ultimately have "n < 2 * p * d" using assms(3) by (simp add: mult.commute)
  then show ?thesis by (rule less_mult_imp_div_less)
qed


lemma quotient_correction:
  fixes n d q W :: nat
  assumes "n < W" "0 < d" "q = n div d \<or> q = n div d + 1" "1 \<le> q"
  shows "(if (n + W - (q + W - 1) mod W * d mod W) mod W < d then (q + W - 1) mod W else q) = n div d"
proof -
  have le: "q - 1 \<le> n div d" using assms(3) by linarith
  then have "q - 1 < W" using assms(1) div_le_dividend [of n d] by linarith
  moreover have "q + W - 1 = (q - 1) + W" using assms(4) by simp
  ultimately have q1: "(q + W - 1) mod W = q - 1" by (simp only: mod_add_self2 mod_less)
  have qd: "(q - 1) * d \<le> n" using le by (meson div_times_less_eq_dividend le_trans mult_le_mono1)
  define x where "x = (q - 1) * d"
  have x: "x \<le> n" using qd by (simp only: x_def)
  then have "x mod W = x" "n + W - x = (n - x) + W" "(n - x) mod W = n - x" using assms(1) by (simp, linarith, simp)
  then have m: "(n + W - x mod W) mod W = n - x" by (simp only: mod_add_self2)
  have n: "n div d * d + n mod d = n" "n mod d < d" using assms(2) by (simp_all only: div_mult_mod_eq mod_less_divisor)
  have "(if n - x < d then q - 1 else q) = n div d" using assms(3)
  proof
    assume q: "q = n div d + 1"
    then have "n - x = n mod d" by (simp add: x_def minus_div_mult_eq_mod)
    then show ?thesis using n(2) q by simp
  next
    assume q: "q = n div d"
    have "q = (q - 1) + 1" using assms(4) by simp
    then have "q * d = x + d" unfolding x_def by (metis distrib_right mult_1)
    moreover have "q * d \<le> n" unfolding q by (rule div_times_less_eq_dividend)
    ultimately have "\<not> n - x < d" by linarith
    then show ?thesis using q by simp
  qed
  then show ?thesis unfolding q1 x_def [symmetric] m .
qed

lemma udiv64_large:
  assumes "2 ^ 32 \<le> d" and "d < 2 ^ 64" and "n < 2 ^ 64" and "d \<le> n"
  shows "udiv64 n d = Some (n div d)"
proof -
  define d1 s where "d1 = d div 2 ^ 32" and "s = nlz d1"
  have d1: "0 < d1" "d1 < 2 ^ 32" using assms(1,2) by (simp_all add: d1_def div_greater_zero_iff less_mult_imp_div_less)
  have s: "s \<le> 31" "2 ^ 31 \<le> d1 * 2 ^ s" "d1 * 2 ^ s < 2 ^ 32" using nlz_bounds [OF d1] by (simp_all add: s_def)
  define p M where "p = (2 :: nat) ^ s" and "M = (2 :: nat) ^ (32 - s)"
  have pM: "2 ^ 32 = p * M" and p: "0 < p" and M: "0 < M" using s(1) by (simp_all add: p_def M_def flip: power_add)
  have M4: "M = 2 \<or> 4 \<le> M"
  proof (cases "s = 31")
    case False
    then have "2 ^ 2 \<le> M" unfolding M_def using s(1) by (intro power_increasing) simp_all
    then show ?thesis by simp
  qed (simp add: M_def)
  define v D where "v = d div M" and "D = v * M"
  have "d < (d1 + 1) * 2 ^ 32" unfolding d1_def using dividend_less_div_times [of "2 ^ 32" d] by simp
  note norm = normalised_divisor [OF pM p s(3) [folded p_def] this]
  have v': "(d * 2 ^ s mod 2 ^ 64) div 2 ^ 32 = v" using norm unfolding v_def p_def by simp
  have D: "D \<le> d" "d < D + M" unfolding D_def v_def using M
    by (simp_all add: div_times_less_eq_dividend dividend_less_div_times add.commute)
  have "d1 * 2 ^ 32 \<le> d" by (simp add: d1_def div_times_less_eq_dividend)
  then have "d1 * p * M \<le> d" unfolding pM by (simp add: mult.assoc)
  then have "d1 * p \<le> v" unfolding v_def using M by (simp add: less_eq_div_iff_mult_less_eq)
  then have v31: "2147483648 \<le> v" using s(2) unfolding p_def by simp
  then have D31: "2147483648 * M \<le> D" unfolding D_def by (rule mult_le_mono1)
  then have "n div d < 2 * p" using quotient_bound [of p M d n] pM D(1) assms(3) M by simp
  then have est: "(n div d + 1) * (M - 1) \<le> D" using estimate_bound [OF _ D31 _ M4] pM by simp
  let ?q = "n div 2 div v div 2 ^ (31 - s)"
  have D0: "0 < D" using v31 M unfolding D_def by simp
  have "M = 2 * 2 ^ (31 - s)" unfolding M_def using s(1) by (simp flip: power_Suc add: Suc_diff_le)
  then have "?q = n div D" unfolding D_def by (simp add: div_mult2_eq [symmetric] ac_simps)
  then have q: "?q = n div d \<or> ?q = n div d + 1" using quotient_estimate [OF D0 D refl est] by simp
  have "1 \<le> n div d" using assms(1,4) by (simp add: Suc_le_eq div_greater_zero_iff)
  then have q1: "1 \<le> ?q" using q by linarith
  have "n div 2 < 4294967296 * v" using assms(3) v31 by simp
  then have t: "n div 2 div v < 2 ^ 32" by (simp add: less_mult_imp_div_less)
  have "divl (n div 2) ((d * 2 ^ s mod 2 ^ 64) div 2 ^ 32) = Some (n div 2 div v)"
    unfolding v' divl_def using t v31 by simp
  moreover have "(d1 = 0) = False" "(n < d) = False" using d1(1) assms(4) by simp_all
  ultimately have "udiv64 n d = Some (if (n + 2 ^ 64 - (?q + 2 ^ 64 - 1) mod 2 ^ 64 * d mod 2 ^ 64) mod 2 ^ 64 < d
      then (?q + 2 ^ 64 - 1) mod 2 ^ 64 else ?q)"
    unfolding udiv64_def Let_def d1_def [symmetric] s_def [symmetric] by (simp only: if_False bind.bind_lunit)
  also have "\<dots> = Some (n div d)"
    using D0 D(1) by (intro arg_cong [where f = Some] quotient_correction [OF assms(3) _ q q1]) linarith
  finally show ?thesis .
qed

lemma udiv64_div: "0 < d \<Longrightarrow> d < 2 ^ 64 \<Longrightarrow> n < 2 ^ 64 \<Longrightarrow> udiv64 n d = Some (n div d)"
proof (cases "d < 2 ^ 32")
  case False
  assume h: "0 < d" "d < 2 ^ 64" "n < 2 ^ 64"
  show ?thesis
  proof (cases "n < d")
    case True
    moreover have "d div 2 ^ 32 \<noteq> 0" using False by (simp add: div_eq_0_iff)
    ultimately show ?thesis by (simp add: udiv64_def)
  qed (use udiv64_large h False in simp)
qed (simp add: udiv64_small)

lemma umod64_trunc:
  assumes "0 < d" "d < 2 ^ 64" "n < 2 ^ 64"
  shows "umod64 n d = Some (n mod d mod 2 ^ 32)"
proof -
  define x where "x = d * (n div d)"
  have x: "x + n mod d = n" unfolding x_def by (rule mult_div_mod_eq)
  then have "x mod 2 ^ 64 = x" "n + 2 ^ 64 - x = n mod d + 2 ^ 64" "n mod d mod 2 ^ 64 = n mod d"
    using assms(3) by (simp, linarith, simp)
  then have "(n + 2 ^ 64 - x mod 2 ^ 64) mod 2 ^ 64 = n mod d" by (simp only: mod_add_self2)
  then show ?thesis unfolding umod64_def udiv64_div [OF assms] x_def by simp
qed

abbreviation is_int64 :: "int \<Rightarrow> bool" where
  "is_int64 x \<equiv> - 9223372036854775808 \<le> x \<and> x < 9223372036854775808"

lemma c_div_abs_le: "\<bar>c_div n d\<bar> \<le> \<bar>n\<bar>"
proof (cases "d = 0")
  case False
  have "\<bar>n\<bar> div \<bar>d\<bar> \<le> \<bar>n\<bar>" using zdiv_mono2 [of "\<bar>n\<bar>" 1 "\<bar>d\<bar>"] False by simp
  moreover have "0 \<le> \<bar>n\<bar> div \<bar>d\<bar>" using False by (simp add: pos_imp_zdiv_nonneg_iff)
  ultimately show ?thesis by (auto simp: c_div_def abs_mult sgn_if)
qed (simp add: c_div_def)

lemma sdiv64_quotient:
  assumes "is_int64 n" "is_int64 d" "d \<noteq> 0"
  shows "sdiv64 n d = Some (wrap_s64 (c_div n d))"
proof -
  let ?q = "nat \<bar>n\<bar> div nat \<bar>d\<bar>"
  have u: "udiv64 (nat \<bar>n\<bar>) (nat \<bar>d\<bar>) = Some ?q" using assms by (intro udiv64_div) auto
  have q: "int ?q = \<bar>n\<bar> div \<bar>d\<bar>" by (simp add: zdiv_int)
  have same: "c_div n d = int ?q" if "(n < 0) = (d < 0)" using that assms(3) unfolding c_div_def q by (auto simp: sgn_if)
  have diff: "c_div n d = - int ?q" if "(n < 0) \<noteq> (d < 0)" using that assms(3) unfolding c_div_def q by (auto simp: sgn_if)
  have r: "\<bar>c_div n d\<bar> \<le> \<bar>n\<bar>" by (rule c_div_abs_le)
  show ?thesis
  proof (cases "(n < 0) = (d < 0)")
    case True
    then show ?thesis using u same by (simp add: sdiv64_def Let_def)
  next
    case False
    have "int ?q < 9223372036854775808 \<or> int ?q = 9223372036854775808" using r diff [OF False] assms(1) by linarith
    then have "wrap_s64 (- wrap_s64 (int ?q)) = wrap_s64 (- int ?q)"
      by (elim disjE) (simp add: wrap_s64_id, simp add: wrap_s64_def)
    then show ?thesis using u diff [OF False] False by (simp add: sdiv64_def Let_def)
  qed
qed

lemma c_div_overflow:
  assumes "is_int64 n" "d \<noteq> 0" and "\<not> (n = - 9223372036854775808 \<and> d = - 1)"
  shows "is_int64 (c_div n d)"
proof (cases "\<bar>d\<bar> = 1")
  case True
  then have "c_div n d = n \<or> c_div n d = - n" by (auto simp: c_div_def abs_if sgn_if split: if_splits)
  then show ?thesis using assms True c_div_abs_le [of n d] by (auto simp: c_div_def sgn_if split: if_splits)
next
  case False
  have "\<bar>n\<bar> div \<bar>d\<bar> \<le> \<bar>n\<bar> div 2" using False assms(2) by (intro zdiv_mono2) auto
  moreover have "\<bar>c_div n d\<bar> \<le> \<bar>n\<bar> div \<bar>d\<bar>"
    using assms(2) by (auto simp: c_div_def abs_mult sgn_if pos_imp_zdiv_nonneg_iff)
  ultimately show ?thesis using assms(1) by linarith
qed

section \<open>Properties\<close>

text \<open>
  C26. Unsigned 64-bit division, as the compiler calls it, is exact for every dividend and every
  divisor but zero: neither branch makes the division instruction trap, and the estimate
  of the second branch is corrected to the true quotient.
\<close>

theorem udivdi3_correct:
  assumes "0 < d" and "d < 2 ^ 64" and "n < 2 ^ 64"
  shows "udivdi3 n d = Some (n div d)"
  using udiv64_div [OF assms] by (simp add: udivdi3_def)

theorem udivdi3_correct_witness:
  "udivdi3 18446744073709551615 4294967297 = Some 4294967295"
  using udivdi3_correct [of 4294967297 18446744073709551615] by simp

text \<open>
  C27. Signed 64-bit division truncates toward zero, as C requires, for all arguments but the
  two whose quotient is undefined: division by zero and the smallest number divided by -1.
\<close>

theorem divdi3_correct:
  assumes "is_int64 n" and "is_int64 d" and "d \<noteq> 0" and "\<not> (n = - 9223372036854775808 \<and> d = - 1)"
  shows "divdi3 n d = Some (c_div n d)"
  using sdiv64_quotient [OF assms(1-3)] c_div_overflow [OF assms(1,3,4)] by (simp add: divdi3_def wrap_s64_id)

theorem divdi3_correct_witness: "divdi3 (- 7) 2 = Some (- 3)"
  using divdi3_correct [of "- 7" 2] by (simp add: c_div_def)

text \<open>
  C28. The unsigned 64-bit remainder is the remainder reduced to 32 bits, because \<open>umod64\<close>
  returns \<open>uint32_t\<close>: it is the true remainder exactly when that is below \<open>2 ^ 32\<close>.
\<close>

theorem umoddi3_truncates:
  assumes "0 < d" and "d < 2 ^ 64" and "n < 2 ^ 64"
  shows "umoddi3 n d = Some (n mod d mod 2 ^ 32) \<and> (umoddi3 n d = Some (n mod d) \<longleftrightarrow> n mod d < 2 ^ 32)"
proof -
  have "n mod d mod 2 ^ 32 = n mod d \<longleftrightarrow> n mod d < 2 ^ 32"
    using mod_less_divisor [of "2 ^ 32" "n mod d"] by (auto intro: mod_less)
  then show ?thesis using umod64_trunc [OF assms] by (simp add: umoddi3_def)
qed

theorem umoddi3_truncates_witness:
  "umoddi3 4294967296 8589934592 = Some 0 \<and> (4294967296 :: nat) mod 8589934592 = 4294967296"
  using umoddi3_truncates [of 8589934592 4294967296] by simp

end
