(* ===== verification/Bitmap.thy ===== *)
theory Bitmap
  imports Prelude
begin

text \<open>
  \<^verbatim>\<open>lib/kernel/bitmap.c\<close>: a bit array packed into 32-bit elements (\<open>elem_type\<close> is
  \<open>unsigned long\<close> on the 32-bit x86 target). \<open>size_t\<close> values are natural numbers below \<open>2 ^ 32\<close>
  with the wrap-around of the C expressions written out. \<open>None\<close> is a failed \<open>ASSERT\<close> or an access
  outside the \<open>bits\<close> array. The abstraction \<open>bm_bits\<close> is the list of booleans the bitmap simulates.
\<close>

unbundle bit_operations_syntax

section \<open>Representation\<close>

type_synonym elem_type = "32 word"

record bitmap =
  bit_cnt :: nat
  bits :: "elem_type list"

definition SIZE_MAX :: nat where "SIZE_MAX = 4294967295"

definition BITMAP_ERROR :: nat where "BITMAP_ERROR = SIZE_MAX"

definition ELEM_BITS :: nat where "ELEM_BITS = 32"

definition elem_idx :: "nat \<Rightarrow> nat" where
  "elem_idx bit_idx = bit_idx div ELEM_BITS"

definition bit_mask :: "nat \<Rightarrow> elem_type" where
  "bit_mask bit_idx = push_bit (bit_idx mod ELEM_BITS) 1"

definition elem_cnt :: "nat \<Rightarrow> nat" where
  "elem_cnt n = size_add n (ELEM_BITS - 1) div ELEM_BITS"

definition byte_cnt :: "nat \<Rightarrow> nat" where
  "byte_cnt n = (4 * elem_cnt n) mod 4294967296"

definition last_mask :: "bitmap \<Rightarrow> elem_type" where
  "last_mask b = (let last_bits = bit_cnt b mod ELEM_BITS in
     if last_bits \<noteq> 0 then push_bit last_bits 1 - 1 else - 1)"

section \<open>Single bits\<close>

definition bitmap_size :: "bitmap \<Rightarrow> nat" where
  "bitmap_size b = bit_cnt b"

definition bitmap_mark :: "bitmap \<Rightarrow> nat \<Rightarrow> bitmap option" where
  "bitmap_mark b bit_idx = (let idx = elem_idx bit_idx; mask = bit_mask bit_idx in do {
     ASSERT (idx < length (bits b));
     Some (b\<lparr>bits := (bits b)[idx := bits b ! idx OR mask]\<rparr>) })"

definition bitmap_reset :: "bitmap \<Rightarrow> nat \<Rightarrow> bitmap option" where
  "bitmap_reset b bit_idx = (let idx = elem_idx bit_idx; mask = bit_mask bit_idx in do {
     ASSERT (idx < length (bits b));
     Some (b\<lparr>bits := (bits b)[idx := bits b ! idx AND NOT mask]\<rparr>) })"

definition bitmap_flip :: "bitmap \<Rightarrow> nat \<Rightarrow> bitmap option" where
  "bitmap_flip b bit_idx = (let idx = elem_idx bit_idx; mask = bit_mask bit_idx in do {
     ASSERT (idx < length (bits b));
     Some (b\<lparr>bits := (bits b)[idx := bits b ! idx XOR mask]\<rparr>) })"

definition bitmap_set :: "bitmap \<Rightarrow> nat \<Rightarrow> bool \<Rightarrow> bitmap option" where
  "bitmap_set b idx value = do {
     ASSERT (idx < bit_cnt b);
     if value then bitmap_mark b idx else bitmap_reset b idx }"

definition bitmap_test :: "bitmap \<Rightarrow> nat \<Rightarrow> bool option" where
  "bitmap_test b idx = do {
     ASSERT (idx < bit_cnt b);
     ASSERT (elem_idx idx < length (bits b));
     Some ((bits b ! elem_idx idx) AND bit_mask idx \<noteq> 0) }"

section \<open>Ranges of bits\<close>

fun set_loop :: "bitmap \<Rightarrow> nat \<Rightarrow> nat \<Rightarrow> bool \<Rightarrow> bitmap option" where
  "set_loop b i 0 value = Some b"
| "set_loop b i (Suc n) value = do { b \<leftarrow> bitmap_set b i value; set_loop b (size_add i 1) n value }"

definition bitmap_set_multiple :: "bitmap \<Rightarrow> nat \<Rightarrow> nat \<Rightarrow> bool \<Rightarrow> bitmap option" where
  "bitmap_set_multiple b start cnt value = do {
     ASSERT (start \<le> bit_cnt b);
     ASSERT (size_add start cnt \<le> bit_cnt b);
     set_loop b start cnt value }"

definition bitmap_set_all :: "bitmap \<Rightarrow> bool \<Rightarrow> bitmap option" where
  "bitmap_set_all b value = bitmap_set_multiple b 0 (bitmap_size b) value"

fun count_loop :: "bitmap \<Rightarrow> nat \<Rightarrow> nat \<Rightarrow> bool \<Rightarrow> nat \<Rightarrow> nat option" where
  "count_loop b i 0 value value_cnt = Some value_cnt"
| "count_loop b i (Suc n) value value_cnt = do {
     t \<leftarrow> bitmap_test b i;
     count_loop b (size_add i 1) n value (if t = value then value_cnt + 1 else value_cnt) }"

definition bitmap_count :: "bitmap \<Rightarrow> nat \<Rightarrow> nat \<Rightarrow> bool \<Rightarrow> nat option" where
  "bitmap_count b start cnt value = do {
     ASSERT (start \<le> bit_cnt b);
     ASSERT (size_add start cnt \<le> bit_cnt b);
     count_loop b start cnt value 0 }"

fun contains_loop :: "bitmap \<Rightarrow> nat \<Rightarrow> nat \<Rightarrow> bool \<Rightarrow> bool option" where
  "contains_loop b i 0 value = Some False"
| "contains_loop b i (Suc n) value = do {
     t \<leftarrow> bitmap_test b i;
     if t = value then Some True else contains_loop b (size_add i 1) n value }"

definition bitmap_contains :: "bitmap \<Rightarrow> nat \<Rightarrow> nat \<Rightarrow> bool \<Rightarrow> bool option" where
  "bitmap_contains b start cnt value = do {
     ASSERT (start \<le> bit_cnt b);
     ASSERT (size_add start cnt \<le> bit_cnt b);
     contains_loop b start cnt value }"

definition bitmap_any :: "bitmap \<Rightarrow> nat \<Rightarrow> nat \<Rightarrow> bool option" where
  "bitmap_any b start cnt = bitmap_contains b start cnt True"

definition bitmap_none :: "bitmap \<Rightarrow> nat \<Rightarrow> nat \<Rightarrow> bool option" where
  "bitmap_none b start cnt = map_option Not (bitmap_contains b start cnt True)"

definition bitmap_all :: "bitmap \<Rightarrow> nat \<Rightarrow> nat \<Rightarrow> bool option" where
  "bitmap_all b start cnt = map_option Not (bitmap_contains b start cnt False)"

section \<open>Scanning\<close>

partial_function (option) scan_loop :: "bitmap \<Rightarrow> nat \<Rightarrow> nat \<Rightarrow> nat \<Rightarrow> bool \<Rightarrow> nat option" where
  "scan_loop b i last' cnt value =
     (if i \<le> last' then do {
        c \<leftarrow> bitmap_contains b i cnt (\<not> value);
        if \<not> c then Some i else scan_loop b (size_add i 1) last' cnt value }
      else Some BITMAP_ERROR)"

definition bitmap_scan :: "bitmap \<Rightarrow> nat \<Rightarrow> nat \<Rightarrow> bool \<Rightarrow> nat option" where
  "bitmap_scan b start cnt value = do {
     ASSERT (start \<le> bit_cnt b);
     if cnt \<le> bit_cnt b then scan_loop b start (bit_cnt b - cnt) cnt value
     else Some BITMAP_ERROR }"

definition bitmap_scan_and_flip :: "bitmap \<Rightarrow> nat \<Rightarrow> nat \<Rightarrow> bool \<Rightarrow> (nat \<times> bitmap) option" where
  "bitmap_scan_and_flip b start cnt value = do {
     idx \<leftarrow> bitmap_scan b start cnt value;
     b \<leftarrow> (if idx \<noteq> BITMAP_ERROR then bitmap_set_multiple b idx cnt (\<not> value) else Some b);
     Some (idx, b) }"

section \<open>Creation\<close>

text \<open>
  \<open>malloc\<close> may fail, and the memory it returns holds unspecified data: both are arguments. The
  first is whether the allocation of the \<open>struct bitmap\<close> succeeds, the second the contents of the
  element array, or \<open>None\<close> where that allocation fails. \<open>malloc (0)\<close> returns a null pointer.
  The outer \<open>option\<close> is a kernel panic, the inner one the null pointer \<open>bitmap_create\<close> returns.
\<close>

definition bitmap_create :: "bool \<Rightarrow> elem_type list option \<Rightarrow> nat \<Rightarrow> bitmap option option" where
  "bitmap_create struct_ok arr n =
     (if struct_ok then
        (case (if byte_cnt n = 0 then None else arr) of
           Some ws \<Rightarrow> do { b \<leftarrow> bitmap_set_all \<lparr>bit_cnt = n, bits = ws\<rparr> False; Some (Some b) }
         | None \<Rightarrow> if n = 0 then do { b \<leftarrow> bitmap_set_all \<lparr>bit_cnt = n, bits = []\<rparr> False; Some (Some b) }
                   else Some None)
      else Some None)"

definition bitmap_buf_size :: "nat \<Rightarrow> nat" where
  "bitmap_buf_size n = size_add 8 (byte_cnt n)"

definition bitmap_create_in_buf :: "nat \<Rightarrow> elem_type list \<Rightarrow> nat \<Rightarrow> bitmap option" where
  "bitmap_create_in_buf n block block_size = do {
     ASSERT (block_size \<ge> bitmap_buf_size n);
     bitmap_set_all \<lparr>bit_cnt = n, bits = block\<rparr> False }"

definition bitmap_file_size :: "bitmap \<Rightarrow> nat" where
  "bitmap_file_size b = byte_cnt (bit_cnt b)"

section \<open>Invariant and abstraction\<close>

definition bm_inv :: "bitmap \<Rightarrow> bool" where
  "bm_inv b \<longleftrightarrow> bit_cnt b \<le> ELEM_BITS * length (bits b) \<and> bit_cnt b < 4294967295"

definition bm_bit :: "bitmap \<Rightarrow> nat \<Rightarrow> bool" where
  "bm_bit b i = bit (bits b ! elem_idx i) (i mod ELEM_BITS)"

definition bm_bits :: "bitmap \<Rightarrow> bool list" where
  "bm_bits b = map (bm_bit b) [0 ..< bit_cnt b]"

lemma length_bm_bits [simp]: "length (bm_bits b) = bit_cnt b"
  by (simp add: bm_bits_def)

lemma bm_bits_nth: "i < bit_cnt b \<Longrightarrow> bm_bits b ! i = bm_bit b i"
  by (simp add: bm_bits_def)

lemma bm_inv_idx: "bm_inv b \<Longrightarrow> i < bit_cnt b \<Longrightarrow> elem_idx i < length (bits b)"
  by (auto simp: bm_inv_def elem_idx_def ELEM_BITS_def less_mult_imp_div_less)

lemma test_mask: "(w AND bit_mask i \<noteq> 0) = bit w (i mod 32)" for w :: elem_type
  using and_exp_eq_0_iff_not_bit [of w "i mod 32"]
  by (simp add: bit_mask_def ELEM_BITS_def push_bit_of_1)

lemma bit_bit_mask: "n < 32 \<Longrightarrow> bit (bit_mask i) n \<longleftrightarrow> n = i mod 32"
  by (auto simp: bit_mask_def ELEM_BITS_def bit_simps)

lemma bitmap_test_bm: "bm_inv b \<Longrightarrow> i < bit_cnt b \<Longrightarrow> bitmap_test b i = Some (bm_bit b i)"
  by (simp add: bitmap_test_def bm_inv_idx test_mask bm_bit_def ELEM_BITS_def)

lemma bm_bit_update:
  assumes "elem_idx i < length (bits b)"
    and "\<And>n. n < 32 \<Longrightarrow> bit w n = (if n = i mod 32 then v else bit (bits b ! elem_idx i) n)"
  shows "bm_bit (b\<lparr>bits := (bits b)[elem_idx i := w]\<rparr>) j = (if j = i then v else bm_bit b j)"
proof (cases "elem_idx j = elem_idx i")
  case True
  have "j mod 32 = i mod 32 \<longleftrightarrow> j = i"
    using True unfolding elem_idx_def ELEM_BITS_def by (metis div_mult_mod_eq)
  then show ?thesis using assms True by (simp add: bm_bit_def ELEM_BITS_def)
next
  case False
  then show ?thesis by (auto simp: bm_bit_def)
qed

lemma bitmap_mark_bm:
  assumes "elem_idx i < length (bits b)"
  shows "\<exists>b'. bitmap_mark b i = Some b' \<and> bit_cnt b' = bit_cnt b \<and> length (bits b') = length (bits b)
    \<and> (\<forall>j. bm_bit b' j = (if j = i then True else bm_bit b j))"
  using assms bm_bit_update [OF assms, of "bits b ! elem_idx i OR bit_mask i" True]
  by (auto simp: bitmap_mark_def Let_def bit_simps bit_bit_mask)

lemma bitmap_reset_bm:
  assumes "elem_idx i < length (bits b)"
  shows "\<exists>b'. bitmap_reset b i = Some b' \<and> bit_cnt b' = bit_cnt b \<and> length (bits b') = length (bits b)
    \<and> (\<forall>j. bm_bit b' j = (if j = i then False else bm_bit b j))"
  using assms bm_bit_update [OF assms, of "bits b ! elem_idx i AND NOT (bit_mask i)" False]
  by (auto simp: bitmap_reset_def Let_def bit_simps bit_bit_mask)

lemma bitmap_flip_bm:
  assumes "elem_idx i < length (bits b)"
  shows "\<exists>b'. bitmap_flip b i = Some b' \<and> bit_cnt b' = bit_cnt b \<and> length (bits b') = length (bits b)
    \<and> (\<forall>j. bm_bit b' j = (if j = i then \<not> bm_bit b i else bm_bit b j))"
  using assms bm_bit_update [OF assms, of "bits b ! elem_idx i XOR bit_mask i" "\<not> bm_bit b i"]
  by (auto simp: bitmap_flip_def Let_def bit_simps bit_bit_mask bm_bit_def ELEM_BITS_def)

lemma bitmap_set_bm:
  assumes "bm_inv b" and "i < bit_cnt b"
  shows "\<exists>b'. bitmap_set b i v = Some b' \<and> bit_cnt b' = bit_cnt b \<and> bm_inv b'
    \<and> (\<forall>j. bm_bit b' j = (if j = i then v else bm_bit b j))"
  using bitmap_mark_bm [OF bm_inv_idx [OF assms]] bitmap_reset_bm [OF bm_inv_idx [OF assms]] assms
  by (cases v) (auto simp: bitmap_set_def bm_inv_def)

section \<open>Ranges\<close>

lemma size_add_small: "a + b < 4294967296 \<Longrightarrow> size_add a b = a + b"
  by (simp add: size_add_def)

lemma bm_range:
  assumes "bm_inv b" and "i + n \<le> bit_cnt b"
  shows "size_add i n = i + n" "i \<le> bit_cnt b"
  using assms by (auto simp: bm_inv_def intro!: size_add_small)

lemma set_loop_bm:
  "bm_inv b \<Longrightarrow> i + n \<le> bit_cnt b \<Longrightarrow>
   \<exists>b'. set_loop b i n v = Some b' \<and> bit_cnt b' = bit_cnt b \<and> bm_inv b'
     \<and> (\<forall>j. bm_bit b' j = (if i \<le> j \<and> j < i + n then v else bm_bit b j))"
proof (induction n arbitrary: b i)
  case (Suc n)
  then obtain b1 where b1: "bitmap_set b i v = Some b1" "bit_cnt b1 = bit_cnt b" "bm_inv b1"
    "\<forall>j. bm_bit b1 j = (if j = i then v else bm_bit b j)"
    using bitmap_set_bm [of b i v] by auto
  have "size_add i 1 = i + 1" using Suc.prems by (intro size_add_small) (simp add: bm_inv_def)
  moreover obtain b2 where b2: "set_loop b1 (i + 1) n v = Some b2" "bit_cnt b2 = bit_cnt b1" "bm_inv b2"
    "\<forall>j. bm_bit b2 j = (if i + 1 \<le> j \<and> j < i + 1 + n then v else bm_bit b1 j)"
    using Suc.IH [of b1 "i + 1"] Suc.prems b1(2,3) by auto
  moreover have "bm_bit b2 j = (if i \<le> j \<and> j < i + Suc n then v else bm_bit b j)" for j
    using b1(4) b2(4) by (cases "j = i") auto
  ultimately show ?case using b1(1,2) by simp
qed auto

lemma contains_loop_bm:
  "bm_inv b \<Longrightarrow> i + n \<le> bit_cnt b \<Longrightarrow>
   contains_loop b i n v = Some (\<exists>j \<in> {i ..< i + n}. bm_bit b j = v)"
proof (induction n arbitrary: i)
  case (Suc n)
  have "size_add i 1 = i + 1" using Suc.prems by (intro size_add_small) (simp add: bm_inv_def)
  moreover have "{i ..< i + Suc n} = insert i {i + 1 ..< i + 1 + n}" by auto
  moreover have "contains_loop b (i + 1) n v = Some (\<exists>j \<in> {i + 1 ..< i + 1 + n}. bm_bit b j = v)"
    using Suc.IH [of "i + 1"] Suc.prems by simp
  ultimately show ?case using Suc.prems by (simp add: bitmap_test_bm)
qed simp

lemma count_loop_bm:
  "bm_inv b \<Longrightarrow> i + n \<le> bit_cnt b \<Longrightarrow>
   count_loop b i n v c = Some (c + length (filter (\<lambda>j. bm_bit b j = v) [i ..< i + n]))"
proof (induction n arbitrary: i c)
  case (Suc n)
  have "size_add i 1 = i + 1" using Suc.prems by (intro size_add_small) (simp add: bm_inv_def)
  moreover have "[i ..< i + Suc n] = i # [i + 1 ..< i + 1 + n]" by (simp add: upt_conv_Cons)
  ultimately show ?case using Suc.IH [of "i + 1"] Suc.prems by (simp add: bitmap_test_bm)
qed auto

lemma bitmap_set_multiple_bm:
  assumes "bm_inv b" and "i + n \<le> bit_cnt b"
  shows "\<exists>b'. bitmap_set_multiple b i n v = Some b' \<and> bit_cnt b' = bit_cnt b \<and> bm_inv b'
     \<and> (\<forall>j. bm_bit b' j = (if i \<le> j \<and> j < i + n then v else bm_bit b j))"
  using set_loop_bm [OF assms] bm_range [OF assms] assms by (simp add: bitmap_set_multiple_def)

lemma bitmap_contains_bm:
  assumes "bm_inv b" and "i + n \<le> bit_cnt b"
  shows "bitmap_contains b i n v = Some (\<exists>j \<in> {i ..< i + n}. bm_bit b j = v)"
  using contains_loop_bm [OF assms] bm_range [OF assms] assms by (simp add: bitmap_contains_def)

lemma bitmap_count_bm:
  assumes "bm_inv b" and "i + n \<le> bit_cnt b"
  shows "bitmap_count b i n v = Some (length (filter (\<lambda>j. bm_bit b j = v) [i ..< i + n]))"
  using count_loop_bm [OF assms] bm_range [OF assms] assms by (simp add: bitmap_count_def)

lemma bitmap_all_bm:
  assumes "bm_inv b" and "i + n \<le> bit_cnt b"
  shows "bitmap_all b i n = Some (\<forall>j \<in> {i ..< i + n}. bm_bit b j)"
  by (auto simp: bitmap_all_def bitmap_contains_bm [OF assms])

text \<open>A run: \<open>n\<close> consecutive bits with value \<open>v\<close> starting at \<open>i\<close>.\<close>

definition bm_run :: "bitmap \<Rightarrow> nat \<Rightarrow> nat \<Rightarrow> bool \<Rightarrow> bool" where
  "bm_run b i n v \<longleftrightarrow> i + n \<le> bit_cnt b \<and> (\<forall>j \<in> {i ..< i + n}. bm_bit b j = v)"

lemma scan_loop_bm:
  assumes "bm_inv b" and "n \<le> bit_cnt b"
  shows "\<exists>r. scan_loop b i (bit_cnt b - n) n v = Some r \<and>
    (if r = BITMAP_ERROR then (\<forall>k \<ge> i. \<not> bm_run b k n v)
     else i \<le> r \<and> bm_run b r n v \<and> (\<forall>k. i \<le> k \<and> k < r \<longrightarrow> \<not> bm_run b k n v))"
proof (induction "Suc (bit_cnt b - n) - i" arbitrary: i)
  case 0
  then have "\<not> bm_run b k n v" if "k \<ge> i" for k using that assms by (auto simp: bm_run_def)
  then show ?case using 0 by (subst scan_loop.simps) auto
next
  case (Suc d)
  then have i: "i + n \<le> bit_cnt b" using assms by auto
  have d: "d = Suc (bit_cnt b - n) - (i + 1)" using Suc.hyps(2) by simp
  have c: "bitmap_contains b i n (\<not> v) = Some (\<not> bm_run b i n v)"
    using bitmap_contains_bm [OF assms(1) i] i by (auto simp: bm_run_def)
  show ?case
  proof (cases "bm_run b i n v")
    case True
    have "i \<noteq> BITMAP_ERROR" using i assms by (auto simp: bm_inv_def BITMAP_ERROR_def SIZE_MAX_def)
    then show ?thesis using True c Suc.hyps(2) by (subst scan_loop.simps) auto
  next
    case False
    obtain r where r: "scan_loop b (i + 1) (bit_cnt b - n) n v = Some r"
      "if r = BITMAP_ERROR then (\<forall>k \<ge> i + 1. \<not> bm_run b k n v)
       else i + 1 \<le> r \<and> bm_run b r n v \<and> (\<forall>k. i + 1 \<le> k \<and> k < r \<longrightarrow> \<not> bm_run b k n v)"
      using Suc.hyps(1) [of "i + 1"] d by blast
    have "size_add i 1 = i + 1" using i assms(1) by (simp add: size_add_def bm_inv_def)
    then have "scan_loop b i (bit_cnt b - n) n v = Some r"
      using c False r(1) Suc.hyps(2) by (subst scan_loop.simps) auto
    moreover have "\<not> bm_run b k n v \<longleftrightarrow> i + 1 \<le> k \<longrightarrow> \<not> bm_run b k n v" if "i \<le> k" for k
      using that False by (cases "k = i") auto
    ultimately show ?thesis using r(2) by (cases "r = BITMAP_ERROR") auto
  qed
qed

lemma bitmap_scan_bm:
  assumes "bm_inv b" and "start \<le> bit_cnt b"
  shows "\<exists>r. bitmap_scan b start n v = Some r \<and>
    (if r = BITMAP_ERROR then (\<forall>k \<ge> start. \<not> bm_run b k n v)
     else start \<le> r \<and> bm_run b r n v \<and> (\<forall>k. start \<le> k \<and> k < r \<longrightarrow> \<not> bm_run b k n v))"
proof (cases "n \<le> bit_cnt b")
  case True
  then show ?thesis using scan_loop_bm [OF assms(1) True] assms(2) by (simp add: bitmap_scan_def)
next
  case False
  then show ?thesis using assms(2) by (auto simp: bitmap_scan_def bm_run_def)
qed

section \<open>The allocator interface\<close>

text \<open>
  What the free map (\<^verbatim>\<open>filesys/free-map.c\<close>) and the page allocator (\<^verbatim>\<open>threads/palloc.c\<close>)
  rely on: a set of numbered slots from which runs of consecutive free slots are taken and
  to which they are given back. \<open>err\<close> is the index that reports failure.
\<close>

locale slot_allocator =
  fixes alloc :: "'s \<Rightarrow> nat \<Rightarrow> (nat \<times> 's) option"
    and release :: "'s \<Rightarrow> nat \<Rightarrow> nat \<Rightarrow> 's option"
    and used :: "'s \<Rightarrow> nat set"
    and cap :: "'s \<Rightarrow> nat"
    and inv :: "'s \<Rightarrow> bool"
    and err :: nat
  assumes alloc_total: "inv s \<Longrightarrow> \<exists>i s'. alloc s n = Some (i, s')"
    and alloc_inv: "inv s \<Longrightarrow> alloc s n = Some (i, s') \<Longrightarrow> inv s' \<and> cap s' = cap s"
    and alloc_run: "inv s \<Longrightarrow> alloc s n = Some (i, s') \<Longrightarrow> i \<noteq> err \<Longrightarrow>
      i + n \<le> cap s \<and> {i ..< i + n} \<inter> used s = {} \<and> used s' = used s \<union> {i ..< i + n}"
    and alloc_fail: "inv s \<Longrightarrow> alloc s n = Some (err, s') \<Longrightarrow>
      s' = s \<and> (\<forall>k. k + n \<le> cap s \<longrightarrow> {k ..< k + n} \<inter> used s \<noteq> {})"
    and release_run: "inv s \<Longrightarrow> i + n \<le> cap s \<Longrightarrow> {i ..< i + n} \<subseteq> used s \<Longrightarrow>
      \<exists>s'. release s i n = Some s' \<and> inv s' \<and> cap s' = cap s \<and> used s' = used s - {i ..< i + n}"
begin

lemma alloc_disjoint:
  assumes "inv s" and "alloc s n = Some (i, s1)" "i \<noteq> err" and "alloc s1 m = Some (j, s2)" "j \<noteq> err"
  shows "{i ..< i + n} \<inter> {j ..< j + m} = {}"
proof -
  have "inv s1" using alloc_inv [OF assms(1,2)] by simp
  then have "{j ..< j + m} \<inter> used s1 = {}" using alloc_run assms(4,5) by blast
  moreover have "{i ..< i + n} \<subseteq> used s1" using alloc_run [OF assms(1,2,3)] by simp
  ultimately show ?thesis by blast
qed

lemma alloc_release:
  assumes "inv s" and "alloc s n = Some (i, s1)" "i \<noteq> err"
  shows "\<exists>s2. release s1 i n = Some s2 \<and> inv s2 \<and> used s2 = used s \<and> cap s2 = cap s"
proof -
  note r = alloc_run [OF assms] and v = alloc_inv [OF assms(1,2)]
  obtain s2 where "release s1 i n = Some s2" "inv s2" "cap s2 = cap s1" "used s2 = used s1 - {i ..< i + n}"
    using release_run [of s1 i n] r v by auto
  then show ?thesis using r v by auto
qed

end

definition bm_used :: "bitmap \<Rightarrow> nat set" where
  "bm_used b = {i. i < bit_cnt b \<and> bm_bit b i}"

lemma bm_run_free: "bm_run b i n False \<longleftrightarrow> i + n \<le> bit_cnt b \<and> {i ..< i + n} \<inter> bm_used b = {}"
  by (auto simp: bm_run_def bm_used_def)

lemma bitmap_scan_and_flip_bm:
  assumes "bm_inv b" and "start \<le> bit_cnt b"
  shows "\<exists>r b'. bitmap_scan_and_flip b start n v = Some (r, b') \<and> bm_inv b' \<and> bit_cnt b' = bit_cnt b \<and>
    (if r = BITMAP_ERROR then b' = b \<and> (\<forall>k \<ge> start. \<not> bm_run b k n v)
     else start \<le> r \<and> bm_run b r n v \<and> (\<forall>k. start \<le> k \<and> k < r \<longrightarrow> \<not> bm_run b k n v)
       \<and> (\<forall>j. bm_bit b' j = (if j \<in> {r ..< r + n} then \<not> v else bm_bit b j)))"
proof -
  obtain r where r: "bitmap_scan b start n v = Some r"
    "if r = BITMAP_ERROR then (\<forall>k \<ge> start. \<not> bm_run b k n v)
     else start \<le> r \<and> bm_run b r n v \<and> (\<forall>k. start \<le> k \<and> k < r \<longrightarrow> \<not> bm_run b k n v)"
    using bitmap_scan_bm [OF assms] by blast
  show ?thesis
  proof (cases "r = BITMAP_ERROR")
    case True
    then show ?thesis using r assms(1) by (simp add: bitmap_scan_and_flip_def)
  next
    case False
    then have "r + n \<le> bit_cnt b" using r(2) by (simp add: bm_run_def)
    from bitmap_set_multiple_bm [OF assms(1) this, of "\<not> v"] show ?thesis
      using r False by (auto simp: bitmap_scan_and_flip_def)
  qed
qed

lemma bm_alloc_cases:
  assumes "bm_inv b" and "bitmap_scan_and_flip b 0 n False = Some (r, b')"
  shows "bm_inv b' \<and> bit_cnt b' = bit_cnt b" and
    "r \<noteq> BITMAP_ERROR \<Longrightarrow> bm_run b r n False \<and> bm_used b' = bm_used b \<union> {r ..< r + n}" and
    "r = BITMAP_ERROR \<Longrightarrow> b' = b \<and> (\<forall>k. \<not> bm_run b k n False)"
  using bitmap_scan_and_flip_bm [OF assms(1), of 0 n False] assms(2)
  by (auto simp: bm_used_def bm_run_def split: if_splits)

lemma bm_release:
  assumes "bm_inv b" and "i + n \<le> bit_cnt b"
  shows "\<exists>b'. bitmap_set_multiple b i n False = Some b' \<and> bm_inv b' \<and> bit_cnt b' = bit_cnt b
    \<and> bm_used b' = bm_used b - {i ..< i + n}"
proof -
  obtain b' where "bitmap_set_multiple b i n False = Some b'" "bit_cnt b' = bit_cnt b" "bm_inv b'"
    "\<forall>j. bm_bit b' j = (if i \<le> j \<and> j < i + n then False else bm_bit b j)"
    using bitmap_set_multiple_bm [OF assms, of False] by blast
  then show ?thesis by (auto simp: bm_used_def)
qed

interpretation bm: slot_allocator
  "\<lambda>b n. bitmap_scan_and_flip b 0 n False" "\<lambda>b i n. bitmap_set_multiple b i n False"
  bm_used bit_cnt bm_inv BITMAP_ERROR
proof unfold_locales
  fix b n
  assume "bm_inv b"
  then show "\<exists>i b'. bitmap_scan_and_flip b 0 n False = Some (i, b')"
    using bitmap_scan_and_flip_bm [of b 0 n False] by blast
next
  fix b n i b'
  assume a: "bm_inv b" "bitmap_scan_and_flip b 0 n False = Some (i, b')"
  then show "bm_inv b' \<and> bit_cnt b' = bit_cnt b" by (rule bm_alloc_cases(1))
  assume "i \<noteq> BITMAP_ERROR"
  then show "i + n \<le> bit_cnt b \<and> {i ..< i + n} \<inter> bm_used b = {} \<and> bm_used b' = bm_used b \<union> {i ..< i + n}"
    using bm_alloc_cases(2) [OF a] by (simp add: bm_run_free)
next
  fix b n b'
  assume a: "bm_inv b" "bitmap_scan_and_flip b 0 n False = Some (BITMAP_ERROR, b')"
  then show "b' = b \<and> (\<forall>k. k + n \<le> bit_cnt b \<longrightarrow> {k ..< k + n} \<inter> bm_used b \<noteq> {})"
    using bm_alloc_cases(3) [OF a] by (auto simp: bm_run_free)
qed (rule bm_release)

section \<open>Properties\<close>

text \<open>A scan for zero bits returns \<open>start\<close> and flips nothing, whatever the bitmap holds.\<close>

lemma bitmap_scan_zero:
  assumes "bm_inv b" and "start \<le> bit_cnt b"
  shows "bitmap_scan_and_flip b start 0 v = Some (start, b)"
proof -
  have "bitmap_contains b start 0 (\<not> v) = Some False"
    using bitmap_contains_bm [OF assms(1), of start 0] assms(2) by simp
  moreover have "start \<noteq> BITMAP_ERROR" "size_add start 0 = start"
    using assms by (simp_all add: bm_inv_def BITMAP_ERROR_def SIZE_MAX_def size_add_def)
  ultimately show ?thesis
    using assms(2) by (simp add: bitmap_scan_and_flip_def bitmap_scan_def scan_loop.simps [of b start]
        bitmap_set_multiple_def)
qed

text \<open>
  C16. \<open>bitmap_scan_and_flip\<close> never panics on a well-formed bitmap. It returns the first index at
  or after \<open>start\<close> where \<open>cnt\<close> consecutive bits have the value, and flips exactly these bits;
  it returns \<open>BITMAP_ERROR\<close> exactly when there is no such group, and then changes nothing. For
  \<open>cnt = 0\<close> this means that it returns \<open>start\<close> and changes nothing; the comment above the function
  says that it returns 0 then, which holds only for \<open>start = 0\<close>.
\<close>

theorem bitmap_scan_and_flip_correct:
  assumes "bm_inv b" and "start \<le> bit_cnt b"
  shows "\<exists>r b'. bitmap_scan_and_flip b start cnt v = Some (r, b') \<and> bm_inv b'
    \<and> (r = BITMAP_ERROR \<longleftrightarrow> (\<forall>k \<ge> start. \<not> bm_run b k cnt v))
    \<and> (r = BITMAP_ERROR \<longrightarrow> b' = b)
    \<and> (r \<noteq> BITMAP_ERROR \<longrightarrow> start \<le> r \<and> bm_run b r cnt v \<and> (\<forall>k. start \<le> k \<and> k < r \<longrightarrow> \<not> bm_run b k cnt v)
        \<and> bm_bits b' = take r (bm_bits b) @ replicate cnt (\<not> v) @ drop (r + cnt) (bm_bits b))
    \<and> (cnt = 0 \<longrightarrow> r = start \<and> b' = b)"
proof -
  obtain r b' where r: "bitmap_scan_and_flip b start cnt v = Some (r, b')" "bm_inv b'" "bit_cnt b' = bit_cnt b"
    "if r = BITMAP_ERROR then b' = b \<and> (\<forall>k \<ge> start. \<not> bm_run b k cnt v)
     else start \<le> r \<and> bm_run b r cnt v \<and> (\<forall>k. start \<le> k \<and> k < r \<longrightarrow> \<not> bm_run b k cnt v)
       \<and> (\<forall>j. bm_bit b' j = (if j \<in> {r ..< r + cnt} then \<not> v else bm_bit b j))"
    using bitmap_scan_and_flip_bm [OF assms] by blast
  have "bm_bits b' = take r (bm_bits b) @ replicate cnt (\<not> v) @ drop (r + cnt) (bm_bits b)" if "r \<noteq> BITMAP_ERROR"
    using that r by (intro nth_equalityI) (auto simp: bm_run_def bm_bits_nth nth_append)
  moreover have "r = start \<and> b' = b" if "cnt = 0" using r(1) bitmap_scan_zero [OF assms, of v] that by simp
  ultimately show ?thesis using r by (auto split: if_splits)
qed

definition bm_of :: "nat \<Rightarrow> elem_type list \<Rightarrow> bitmap" where
  "bm_of n ws = \<lparr>bit_cnt = n, bits = ws\<rparr>"

theorem bitmap_scan_and_flip_correct_witness:
  "bm_inv (bm_of 8 [7]) \<and> bit_cnt (bm_of 8 [7]) = 8 \<and>
   (\<exists>b'. bitmap_scan_and_flip (bm_of 8 [7]) 1 2 False = Some (3, b') \<and> bm_inv b'
     \<and> bm_bits b' = [True, True, True, True, True] @ replicate 3 False)"
proof -
  let ?b = "bm_of 8 [7]"
  have h: "bm_inv ?b" "1 \<le> bit_cnt ?b" by (simp_all add: bm_inv_def bm_of_def ELEM_BITS_def)
  obtain r b' where r: "bitmap_scan_and_flip ?b 1 2 False = Some (r, b')" "bm_inv b'"
    "r = BITMAP_ERROR \<longleftrightarrow> (\<forall>k \<ge> 1. \<not> bm_run ?b k 2 False)"
    "r \<noteq> BITMAP_ERROR \<longrightarrow> 1 \<le> r \<and> bm_run ?b r 2 False \<and> (\<forall>k. 1 \<le> k \<and> k < r \<longrightarrow> \<not> bm_run ?b k 2 False)
        \<and> bm_bits b' = take r (bm_bits ?b) @ replicate 2 True @ drop (r + 2) (bm_bits ?b)"
    using bitmap_scan_and_flip_correct [OF h, of 2 False] unfolding simp_thms by blast
  have bits: "bm_bits ?b = [True, True, True] @ replicate 5 False" by code_simp
  have runs: "bm_run ?b 3 2 False" "\<not> bm_run ?b 1 2 False" "\<not> bm_run ?b 2 2 False" by code_simp+
  have "r \<noteq> BITMAP_ERROR"
  proof
    assume "r = BITMAP_ERROR"
    then have "\<not> bm_run ?b 3 2 False" using r(3) by simp
    then show False using runs(1) by simp
  qed
  then have m: "1 \<le> r" "bm_run ?b r 2 False" "\<forall>k. 1 \<le> k \<and> k < r \<longrightarrow> \<not> bm_run ?b k 2 False"
    "bm_bits b' = take r (bm_bits ?b) @ replicate 2 True @ drop (r + 2) (bm_bits ?b)"
    using r(4) by blast+
  have "r \<le> 3" using m(3) [rule_format, of 3] runs(1) by (cases "r \<le> 3") simp_all
  moreover have "r \<noteq> 1" "r \<noteq> 2" using m(2) runs(2,3) by auto
  ultimately have e: "r = 3" using m(1) by linarith
  have "bm_bits b' = [True, True, True, True, True] @ replicate 3 False" unfolding m(4) bits e by (simp add: numeral_2_eq_2)
  moreover have "bit_cnt ?b = 8" by (simp add: bm_of_def)
  ultimately show ?thesis using r(1,2) h(1) e by blast
qed

text \<open>
  \<open>bitmap_set_multiple\<close> on a range inside the bitmap sets exactly the bits of the range:
  the simulated bit array is the old one with the range overwritten, and \<open>bitmap_count\<close> and
  \<open>bitmap_test\<close> then read the new value in the range and the old value outside.
\<close>

theorem bitmap_set_multiple_correct:
  assumes "bm_inv b" and "start + cnt \<le> bit_cnt b"
  shows "\<exists>b'. bitmap_set_multiple b start cnt v = Some b' \<and> bm_inv b'
    \<and> bm_bits b' = take start (bm_bits b) @ replicate cnt v @ drop (start + cnt) (bm_bits b)
    \<and> bitmap_count b' start cnt v = Some cnt
    \<and> (\<forall>i < bit_cnt b. bitmap_test b' i = (if start \<le> i \<and> i < start + cnt then Some v else bitmap_test b i))"
proof -
  obtain b' where b': "bitmap_set_multiple b start cnt v = Some b'" "bit_cnt b' = bit_cnt b" "bm_inv b'"
    "\<forall>j. bm_bit b' j = (if start \<le> j \<and> j < start + cnt then v else bm_bit b j)"
    using bitmap_set_multiple_bm [OF assms] by blast
  have "bm_bits b' = take start (bm_bits b) @ replicate cnt v @ drop (start + cnt) (bm_bits b)"
    using b' assms by (intro nth_equalityI) (auto simp: bm_bits_nth nth_append)
  moreover have "filter (\<lambda>j. bm_bit b' j = v) [start ..< start + cnt] = [start ..< start + cnt]"
    using b'(4) by (auto simp: filter_id_conv)
  then have "bitmap_count b' start cnt v = Some cnt"
    using bitmap_count_bm [OF b'(3), of start cnt v] b'(2) assms(2) by simp
  ultimately show ?thesis using b' assms(1) by (auto simp: bitmap_test_bm)
qed

theorem bitmap_set_multiple_correct_witness:
  "\<exists>b'. bitmap_set_multiple (bm_of 40 [7, 0]) 30 6 True = Some b' \<and> bm_inv b'
     \<and> bitmap_count b' 30 6 True = Some 6 \<and> bitmap_test b' 33 = Some True"
proof -
  have h: "bm_inv (bm_of 40 [7, 0])" "30 + 6 \<le> bit_cnt (bm_of 40 [7, 0])"
    by (simp_all add: bm_inv_def bm_of_def ELEM_BITS_def)
  have "33 < bit_cnt (bm_of 40 [7, 0])" by (simp add: bm_of_def)
  with bitmap_set_multiple_correct [OF h, of True] show ?thesis by fastforce
qed

end
