(* ===== verification/Block.thy ===== *)
theory Block
  imports Bitmap C_String
begin

text \<open>
  Block devices (\<^verbatim>\<open>devices/block.c\<close>), with the transfer routines of partitions
  (\<^verbatim>\<open>partition_read\<close>, \<^verbatim>\<open>partition_write\<close> of \<^verbatim>\<open>devices/partition.c\<close>). A device has the structure of the code; its driver is either an IDE disk, of which the model has the medium, the
  sequence of its sectors, or a partition of another device. The register protocol by which
  \<^verbatim>\<open>devices/ide.c\<close> moves a sector is hardware and stays below the model.

  Whether a call of \<open>malloc\<close> succeeds is an input of the model: \<open>allocs\<close> lists the outcomes of
  the calls to come; once it is used up they succeed. \<open>next_ptr\<close> is the address of the next object.
\<close>

section \<open>Memory allocation\<close>

record heap_state =
  allocs :: "bool list"
  next_ptr :: addr

definition malloc :: "'a heap_state_scheme \<Rightarrow> addr \<times> 'a heap_state_scheme" where
  "malloc s = (let s' = s\<lparr>allocs := tl (allocs s)\<rparr> in
     if allocs s \<noteq> [] \<and> \<not> hd (allocs s) then (NULL, s')
     else (next_ptr s, s'\<lparr>next_ptr := next_ptr s + 1\<rparr>))"

section \<open>Integers in memory\<close>

text \<open>The processor stores integers with the least significant byte first.\<close>

fun to_le :: "nat \<Rightarrow> nat \<Rightarrow> byte list" where
  "to_le 0 n = []"
| "to_le (Suc k) n = word_of_nat (n mod 256) # to_le k (n div 256)"

fun of_le :: "byte list \<Rightarrow> nat" where
  "of_le [] = 0"
| "of_le (b # bs) = unat b + 256 * of_le bs"

definition field :: "byte list \<Rightarrow> nat \<Rightarrow> nat \<Rightarrow> nat" where
  "field bs ofs n = of_le (take n (drop ofs bs))"

lemma to_le_4: "to_le 4 n = [word_of_nat (n mod 256), word_of_nat (n div 256 mod 256),
    word_of_nat (n div 256 div 256 mod 256), word_of_nat (n div 256 div 256 div 256 mod 256)]"
proof -
  have "(4 :: nat) = Suc (Suc (Suc (Suc 0)))" by simp
  then show ?thesis by (simp only: to_le.simps)
qed

section \<open>Block devices\<close>

definition BLOCK_SECTOR_SIZE :: nat where "BLOCK_SECTOR_SIZE = 512"

datatype block_type = BLOCK_KERNEL | BLOCK_FILESYS | BLOCK_SCRATCH | BLOCK_SWAP | BLOCK_RAW | BLOCK_FOREIGN

datatype driver = Ide_disk "byte list list" | Partition addr nat

record block =
  blk_name :: "byte list"
  blk_type :: block_type
  blk_size :: nat
  ops :: driver
  read_cnt :: "64 word"
  write_cnt :: "64 word"

record devices = heap_state +
  blocks :: "addr \<rightharpoonup> block"
  all_blocks :: "addr list"
  block_by_role :: "block_type \<Rightarrow> addr"

definition is_role :: "block_type \<Rightarrow> bool" where
  "is_role ty \<longleftrightarrow> ty \<noteq> BLOCK_RAW \<and> ty \<noteq> BLOCK_FOREIGN"

definition block_get_role :: "block_type \<Rightarrow> 'a devices_scheme \<Rightarrow> addr option" where
  "block_get_role role s = do { ASSERT (is_role role); Some (block_by_role s role) }"

definition block_set_role :: "block_type \<Rightarrow> addr \<Rightarrow> 'a devices_scheme \<Rightarrow> 'a devices_scheme option" where
  "block_set_role role p s = do {
     ASSERT (is_role role);
     Some (s\<lparr>block_by_role := (block_by_role s)(role := p)\<rparr>) }"

definition block_first :: "'a devices_scheme \<Rightarrow> addr" where
  "block_first s = (case all_blocks s of [] \<Rightarrow> NULL | p # _ \<Rightarrow> p)"

fun after :: "addr \<Rightarrow> addr list \<Rightarrow> addr option" where
  "after p [] = None"
| "after p (q # qs) = (if p = q then Some (case qs of [] \<Rightarrow> NULL | r # _ \<Rightarrow> r) else after p qs)"

definition block_next :: "addr \<Rightarrow> 'a devices_scheme \<Rightarrow> addr option" where
  "block_next p s = after p (all_blocks s)"

fun find_named :: "byte list \<Rightarrow> addr list \<Rightarrow> (addr \<rightharpoonup> block) \<Rightarrow> addr option" where
  "find_named nm [] bs = Some NULL"
| "find_named nm (p # ps) bs = do {
     b \<leftarrow> bs p;
     if nm = blk_name b then Some p else find_named nm ps bs }"

definition block_get_by_name :: "byte list \<Rightarrow> 'a devices_scheme \<Rightarrow> addr option" where
  "block_get_by_name nm s = find_named nm (all_blocks s) (blocks s)"

definition block_size :: "addr \<Rightarrow> 'a devices_scheme \<Rightarrow> nat option" where
  "block_size p s = map_option blk_size (blocks s p)"

definition block_name :: "addr \<Rightarrow> 'a devices_scheme \<Rightarrow> byte list option" where
  "block_name p s = map_option blk_name (blocks s p)"

definition block_type_of :: "addr \<Rightarrow> 'a devices_scheme \<Rightarrow> block_type option" where
  "block_type_of p s = map_option blk_type (blocks s p)"

definition check_sector :: "block \<Rightarrow> nat \<Rightarrow> unit option" where
  "check_sector b sector = (if sector \<ge> blk_size b then None else Some ())"

text \<open>A sector number on an IDE disk has 28 bits.\<close>

definition on_medium :: "byte list list \<Rightarrow> nat \<Rightarrow> unit option" where
  "on_medium ss sector = ASSERT (sector < 268435456 \<and> sector < length ss)"

definition upd_block :: "addr \<Rightarrow> (block \<Rightarrow> block) \<Rightarrow> 'a devices_scheme \<Rightarrow> 'a devices_scheme" where
  "upd_block p f s = s\<lparr>blocks := (blocks s)(p := map_option f (blocks s p))\<rparr>"

partial_function (option) block_read :: "addr \<Rightarrow> nat \<Rightarrow> 'a devices_scheme \<Rightarrow> (byte list \<times> 'a devices_scheme) option" where
  "block_read p sector s = do {
     b \<leftarrow> blocks s p;
     check_sector b sector;
     (data, s1) \<leftarrow> (case ops b of
        Ide_disk ss \<Rightarrow> do { on_medium ss sector; Some (ss ! sector, s) }
      | Partition blk start \<Rightarrow> block_read blk (size_add start sector) s);
     Some (data, upd_block p (read_cnt_update (\<lambda>n. n + 1)) s1) }"

partial_function (option) block_write :: "addr \<Rightarrow> nat \<Rightarrow> byte list \<Rightarrow> 'a devices_scheme \<Rightarrow> 'a devices_scheme option" where
  "block_write p sector data s = do {
     b \<leftarrow> blocks s p;
     check_sector b sector;
     ASSERT (blk_type b \<noteq> BLOCK_FOREIGN);
     s1 \<leftarrow> (case ops b of
        Ide_disk ss \<Rightarrow> do {
          on_medium ss sector;
          Some (upd_block p (ops_update (\<lambda>_. Ide_disk (ss[sector := data]))) s) }
      | Partition blk start \<Rightarrow> block_write blk (size_add start sector) data s);
     Some (upd_block p (write_cnt_update (\<lambda>n. n + 1)) s1) }"

definition block_register ::
  "byte list \<Rightarrow> block_type \<Rightarrow> nat \<Rightarrow> driver \<Rightarrow> 'a devices_scheme \<Rightarrow> (addr \<times> 'a devices_scheme) option" where
  "block_register nm ty sz drv s = (case malloc s of (p, s1) \<Rightarrow> do {
     ASSERT (p \<noteq> NULL);
     Some (p, s1\<lparr>all_blocks := all_blocks s1 @ [p],
       blocks := (blocks s1)(p \<mapsto> \<lparr>blk_name = take 15 nm, blk_type = ty, blk_size = sz, ops = drv,
         read_cnt = 0, write_cnt = 0\<rparr>)\<rparr>) })"

section \<open>The sectors a device gives access to\<close>

definition disk_ok :: "block \<Rightarrow> byte list list \<Rightarrow> bool" where
  "disk_ok b ss \<longleftrightarrow> blk_type b \<noteq> BLOCK_FOREIGN \<and> length ss = blk_size b \<and> length ss \<le> 268435456
     \<and> (\<forall>d \<in> set ss. length d = BLOCK_SECTOR_SIZE)"

definition medium :: "(addr \<rightharpoonup> block) \<Rightarrow> addr \<Rightarrow> byte list list option" where
  "medium B p = do {
     b \<leftarrow> B p;
     (case ops b of
        Ide_disk ss \<Rightarrow> if disk_ok b ss then Some ss else None
      | Partition q st \<Rightarrow> do {
          d \<leftarrow> B q;
          (case ops d of
             Ide_disk ss \<Rightarrow> if disk_ok d ss \<and> blk_type b \<noteq> BLOCK_FOREIGN \<and> st + blk_size b \<le> length ss
               then Some (take (blk_size b) (drop st ss)) else None
           | Partition _ _ \<Rightarrow> None) }) }"

definition geometry :: "(addr \<rightharpoonup> block) \<Rightarrow> addr \<rightharpoonup> byte list \<times> block_type \<times> nat" where
  "geometry B p = map_option (\<lambda>b. (blk_name b, blk_type b, blk_size b)) (B p)"

text \<open>Counting an access changes nothing a reader can see.\<close>

definition counted :: "(block \<Rightarrow> block) \<Rightarrow> bool" where
  "counted f \<longleftrightarrow> (\<forall>b. ops (f b) = ops b \<and> blk_name (f b) = blk_name b \<and> blk_size (f b) = blk_size b \<and> blk_type (f b) = blk_type b)"

lemma counted_cnt [simp]: "counted (read_cnt_update g)" "counted (write_cnt_update g)"
  by (simp_all add: counted_def)

lemma medium_counted:
  assumes "counted f"
  shows "medium (B(p := map_option f (B p))) = medium B" "geometry (B(p := map_option f (B p))) = geometry B"
proof -
  have f: "ops (f b) = ops b" "blk_name (f b) = blk_name b" "blk_size (f b) = blk_size b" "blk_type (f b) = blk_type b" for b
    using assms by (simp_all add: counted_def)
  have d: "disk_ok (f b) ss = disk_ok b ss" for b ss by (simp add: disk_ok_def f)
  have "medium (B(p := map_option f (B p))) q = medium B q" for q
    by (cases "B q"; cases "B p") (auto simp: medium_def f d split: driver.splits bind_splits)
  then show "medium (B(p := map_option f (B p))) = medium B" by blast
  show "geometry (B(p := map_option f (B p))) = geometry B"
    by (auto simp: geometry_def fun_eq_iff option.map_comp comp_def f)
qed

lemma medium_disk:
  assumes "medium B p = Some ss" and "B p = Some b" and "ops b = Ide_disk xs"
  shows "xs = ss" "disk_ok b ss"
  using assms by (auto simp: medium_def split: if_splits)

lemma medium_partition:
  assumes "medium B p = Some ss" and "B p = Some b" and "ops b = Partition q st"
  obtains d xs where "B q = Some d" "ops d = Ide_disk xs" "disk_ok d xs" "medium B q = Some xs"
    "blk_type b \<noteq> BLOCK_FOREIGN" "st + blk_size b \<le> length xs" "ss = take (blk_size b) (drop st xs)" "q \<noteq> p"
proof -
  obtain d where d: "B q = Some d" using assms by (auto simp: medium_def bind_eq_Some_conv)
  then obtain xs where x: "ops d = Ide_disk xs"
    using assms by (cases "ops d") (auto simp: medium_def)
  show ?thesis
    using assms d x by (intro that [of d xs]) (auto simp: medium_def split: if_splits)
qed

lemma medium_lengths:
  assumes "medium B p = Some ss"
  shows "map_option blk_size (B p) = Some (length ss)" "\<forall>d \<in> set ss. length d = BLOCK_SECTOR_SIZE"
    "length ss \<le> 268435456"
proof -
  obtain b where b: "B p = Some b" using assms by (auto simp: medium_def bind_eq_Some_conv)
  have "length ss = blk_size b \<and> (\<forall>d \<in> set ss. length d = BLOCK_SECTOR_SIZE) \<and> length ss \<le> 268435456"
  proof (cases "ops b")
    case (Ide_disk xs)
    then show ?thesis using medium_disk [OF assms b] by (simp add: disk_ok_def)
  next
    case (Partition q st)
    from medium_partition [OF assms b this] obtain d xs where "disk_ok d xs" "st + blk_size b \<le> length xs"
      "ss = take (blk_size b) (drop st xs)" by metis
    then show ?thesis by (auto simp: disk_ok_def dest: in_set_takeD in_set_dropD)
  qed
  then show "map_option blk_size (B p) = Some (length ss)" "\<forall>d \<in> set ss. length d = BLOCK_SECTOR_SIZE"
    "length ss \<le> 268435456" using b by simp_all
qed

lemma block_read_disk:
  assumes "blocks s p = Some b" "ops b = Ide_disk ss" "disk_ok b ss" and "i < length ss"
  shows "block_read p i s = Some (ss ! i, upd_block p (read_cnt_update (\<lambda>n. n + 1)) s)"
  using assms by (subst block_read.simps) (simp add: check_sector_def on_medium_def disk_ok_def)

lemma block_write_disk:
  assumes "blocks s p = Some b" "ops b = Ide_disk ss" "disk_ok b ss" and "i < length ss"
  shows "block_write p i d s = Some (upd_block p (write_cnt_update (\<lambda>n. n + 1))
    (upd_block p (ops_update (\<lambda>_. Ide_disk (ss[i := d]))) s))"
  using assms by (subst block_write.simps) (simp add: check_sector_def on_medium_def disk_ok_def)

lemma block_read_medium:
  assumes m: "medium (blocks s) p = Some ss" and i: "i < length ss"
  shows "\<exists>B. block_read p i s = Some (ss ! i, s\<lparr>blocks := B\<rparr>) \<and> medium B = medium (blocks s) \<and> geometry B = geometry (blocks s)"
proof -
  obtain b where b: "blocks s p = Some b" using m by (auto simp: medium_def bind_eq_Some_conv)
  show ?thesis
  proof (cases "ops b")
    case (Ide_disk xs)
    with block_read_disk [OF b, of ss i] medium_disk [OF m b Ide_disk] i show ?thesis
      by (auto simp: upd_block_def intro!: exI medium_counted)
  next
    case (Partition q st)
    from medium_partition [OF m b Partition] obtain d xs where d: "blocks s q = Some d" "ops d = Ide_disk xs"
      "disk_ok d xs" "st + blk_size b \<le> length xs" "ss = take (blk_size b) (drop st xs)" by metis
    have il: "i < blk_size b" "st + i < length xs" using i d(4,5) by auto
    have "size_add st i = st + i" using il d(3) by (auto simp: size_add_def disk_ok_def)
    then have "block_read p i s = Some (xs ! (st + i), upd_block p (read_cnt_update (\<lambda>n. n + 1))
        (upd_block q (read_cnt_update (\<lambda>n. n + 1)) s))"
      using b Partition il block_read_disk [OF d(1,2,3) il(2)]
      by (subst block_read.simps) (simp add: check_sector_def)
    moreover have "xs ! (st + i) = ss ! i" using il d(4,5) by simp
    ultimately show ?thesis by (simp add: upd_block_def medium_counted del: fun_upd_apply) (metis counted_cnt(1) medium_counted)
  qed
qed

text \<open>Where a sector of a device lies: the disk that holds it, and its number there.\<close>

definition place :: "(addr \<rightharpoonup> block) \<Rightarrow> addr \<Rightarrow> nat \<Rightarrow> addr \<times> nat" where
  "place B p i = (case B p of
     Some b \<Rightarrow> (case ops b of Ide_disk _ \<Rightarrow> (p, i) | Partition q st \<Rightarrow> (q, st + i))
   | None \<Rightarrow> (p, i))"

lemma place_counted: "counted f \<Longrightarrow> place (B(p := map_option f (B p))) = place B"
  by (auto simp: place_def counted_def fun_eq_iff split: option.splits driver.splits)

lemma take_drop_update:
  "take n (drop st (xs[j := d])) = (if st \<le> j then (take n (drop st xs))[j - st := d] else take n (drop st xs))"
  by (simp add: drop_update_swap take_update_swap)

lemma disk_update:
  fixes B q b xs j d
  defines "B' \<equiv> B(q \<mapsto> b\<lparr>ops := Ide_disk (xs[j := d])\<rparr>)"
  assumes q: "B q = Some b" "ops b = Ide_disk xs" "disk_ok b xs" and j: "j < length xs" and d: "length d = BLOCK_SECTOR_SIZE"
  shows "geometry B' = geometry B" "place B' = place B"
    "medium B p = Some ss \<Longrightarrow> medium B' p = Some (map (\<lambda>k. if place B p k = (q, j) then d else ss ! k) [0..<length ss])"
proof -
  show "geometry B' = geometry B" by (auto simp: geometry_def B'_def q fun_eq_iff)
  show "place B' = place B" by (auto simp: place_def B'_def q fun_eq_iff)
  let ?b = "b\<lparr>ops := Ide_disk (xs[j := d])\<rparr>"
  have ok: "disk_ok ?b (xs[j := d])" using q(3) d by (auto simp: disk_ok_def dest: set_update_subset_insert [THEN subsetD])
  assume m: "medium B p = Some ss"
  then obtain e where e: "B p = Some e" by (auto simp: medium_def bind_eq_Some_conv)
  show "medium B' p = Some (map (\<lambda>k. if place B p k = (q, j) then d else ss ! k) [0..<length ss])"
  proof (cases "ops e")
    case (Ide_disk ys)
    note md = medium_disk [OF m e Ide_disk]
    show ?thesis
    proof (cases "p = q")
      case True
      then have "ss = xs" "e = b" using md e q Ide_disk by auto
      then have "map (\<lambda>k. if place B p k = (q, j) then d else ss ! k) [0..<length ss] = xs[j := d]"
        using e Ide_disk True by (intro nth_equalityI) (auto simp: place_def nth_list_update)
      then show ?thesis using True ok by (simp add: medium_def B'_def)
    next
      case False
      then have "map (\<lambda>k. if place B p k = (q, j) then d else ss ! k) [0..<length ss] = ss"
        using e Ide_disk by (intro nth_equalityI) (auto simp: place_def)
      then show ?thesis using False md e Ide_disk by (simp add: medium_def B'_def)
    qed
  next
    case (Partition r st)
    from medium_partition [OF m e Partition] obtain f ys where f: "B r = Some f" "ops f = Ide_disk ys" "disk_ok f ys"
      "blk_type e \<noteq> BLOCK_FOREIGN" "st + blk_size e \<le> length ys" "ss = take (blk_size e) (drop st ys)" by metis
    have pq: "p \<noteq> q" using e q(1,2) Partition by auto
    show ?thesis
    proof (cases "r = q")
      case True
      then have "ys = xs" "f = b" using f q by auto
      have "map (\<lambda>k. if place B p k = (q, j) then d else ss ! k) [0..<length ss] = take (blk_size e) (drop st (xs[j := d]))"
        using e Partition True f(5,6) \<open>ys = xs\<close> j
        by (intro nth_equalityI) (auto simp: place_def nth_list_update)
      then show ?thesis
        using pq e Partition True ok f(4,5) \<open>ys = xs\<close> \<open>f = b\<close> by (simp add: medium_def B'_def)
    next
      case False
      then have "map (\<lambda>k. if place B p k = (q, j) then d else ss ! k) [0..<length ss] = ss"
        using e Partition by (intro nth_equalityI) (auto simp: place_def)
      then show ?thesis using False pq e Partition f by (simp add: medium_def B'_def)
    qed
  qed
qed

lemma block_write_medium:
  assumes m: "medium (blocks s) p = Some ss" and i: "i < length ss" and d: "length d = BLOCK_SECTOR_SIZE"
  shows "\<exists>B. block_write p i d s = Some (s\<lparr>blocks := B\<rparr>) \<and> geometry B = geometry (blocks s) \<and> place B = place (blocks s)
    \<and> (\<forall>r rs. medium (blocks s) r = Some rs
        \<longrightarrow> medium B r = Some (map (\<lambda>k. if place (blocks s) r k = place (blocks s) p i then d else rs ! k) [0..<length rs]))"
proof -
  obtain b where b: "blocks s p = Some b" using m by (auto simp: medium_def bind_eq_Some_conv)
  let ?w = "write_cnt_update (\<lambda>n. n + 1)"
  show ?thesis
  proof (cases "ops b")
    case (Ide_disk xs)
    note md = medium_disk [OF m b Ide_disk]
    then have o: "ops b = Ide_disk ss" using Ide_disk by simp
    let ?B = "(blocks s)(p \<mapsto> b\<lparr>ops := Ide_disk (ss[i := d])\<rparr>)"
    note u = disk_update [of "blocks s" p, OF b o md(2) i d]
    have "block_write p i d s = Some (s\<lparr>blocks := ?B(p := map_option ?w (?B p))\<rparr>)"
      using block_write_disk [OF b o md(2) i, of d] b by (simp add: upd_block_def)
    moreover have "place (blocks s) p i = (p, i)" using b o by (simp add: place_def)
    ultimately show ?thesis
      using u medium_counted [of ?w ?B p] place_counted [of ?w ?B p] by (intro exI) (auto simp del: fun_upd_apply)
  next
    case (Partition q st)
    from medium_partition [OF m b Partition] obtain e xs where e: "blocks s q = Some e" "ops e = Ide_disk xs"
      "disk_ok e xs" "blk_type b \<noteq> BLOCK_FOREIGN" "st + blk_size b \<le> length xs" "ss = take (blk_size b) (drop st xs)" "q \<noteq> p"
      by metis
    have il: "i < blk_size b" "st + i < length xs" using i e(5,6) by auto
    have sa: "size_add st i = st + i" using il e(3) by (auto simp: size_add_def disk_ok_def)
    let ?B = "(blocks s)(q \<mapsto> e\<lparr>ops := Ide_disk (xs[st + i := d])\<rparr>)"
    let ?B1 = "?B(q := map_option ?w (?B q))"
    note u = disk_update [of "blocks s" q, OF e(1,2,3) il(2) d]
    have "block_write p i d s = Some (s\<lparr>blocks := ?B1(p := map_option ?w (?B1 p))\<rparr>)"
      using b Partition il e(1,4) sa block_write_disk [OF e(1,2,3) il(2), of d]
      by (subst block_write.simps) (simp add: check_sector_def upd_block_def)
    moreover have "place (blocks s) p i = (q, st + i)" using b Partition by (simp add: place_def)
    ultimately show ?thesis
      using u medium_counted [of ?w ?B q] place_counted [of ?w ?B q] medium_counted [of ?w ?B1 p] place_counted [of ?w ?B1 p]
      by (intro exI) (auto simp del: fun_upd_apply)
  qed
qed

lemma block_write_medium_self:
  assumes "medium (blocks s) p = Some ss" and "i < length ss" and "length d = BLOCK_SECTOR_SIZE"
  shows "\<exists>B. block_write p i d s = Some (s\<lparr>blocks := B\<rparr>) \<and> medium B p = Some (ss[i := d]) \<and> geometry B = geometry (blocks s)"
proof -
  have "map (\<lambda>k. if place (blocks s) p k = place (blocks s) p i then d else ss ! k) [0..<length ss] = ss[i := d]"
    by (intro nth_equalityI) (auto simp: place_def nth_list_update split: option.splits driver.splits)
  then show ?thesis using block_write_medium [OF assms] assms(1) by auto
qed

section \<open>Example devices\<close>

definition one_disk :: "byte list list \<Rightarrow> devices" where
  "one_disk ss = \<lparr>allocs = [], next_ptr = 10,
     blocks = [5 \<mapsto> \<lparr>blk_name = [104, 100, 97], blk_type = BLOCK_RAW, blk_size = length ss, ops = Ide_disk ss,
       read_cnt = 0, write_cnt = 0\<rparr>], all_blocks = [5], block_by_role = (\<lambda>_. NULL)\<rparr>"

definition two_parts :: devices where
  "two_parts = (one_disk (replicate 8 (replicate 512 0)))\<lparr>blocks := (blocks (one_disk (replicate 8 (replicate 512 0))))
     (6 \<mapsto> \<lparr>blk_name = [104, 100, 97, 49], blk_type = BLOCK_FILESYS, blk_size = 3, ops = Partition 5 1, read_cnt = 0, write_cnt = 0\<rparr>,
      7 \<mapsto> \<lparr>blk_name = [104, 100, 97, 50], blk_type = BLOCK_SWAP, blk_size = 2, ops = Partition 5 4, read_cnt = 0, write_cnt = 0\<rparr>)\<rparr>"

section \<open>Properties\<close>

text \<open>
  C32. Writes to a device stay inside it. \<open>block_write\<close> of one sector returns, its effect is visible
  at exactly that sector of the device, and on every other device, whether it shares the disk or
  not, exactly those sectors change that lie at the same place of the same disk. So a write to one
  partition never changes a partition that does not overlap it.
\<close>

theorem block_write_isolated:
  assumes "medium (blocks s) p = Some ss" and "i < length ss" and "length d = BLOCK_SECTOR_SIZE"
  shows "\<exists>s'. block_write p i d s = Some s' \<and> medium (blocks s') p = Some (ss[i := d])
    \<and> (\<forall>r rs. medium (blocks s) r = Some rs \<and> (\<forall>k < length rs. place (blocks s) r k \<noteq> place (blocks s) p i)
        \<longrightarrow> medium (blocks s') r = Some rs)
    \<and> (\<exists>s''. block_read p i s' = Some (d, s''))"
proof -
  obtain B where B: "block_write p i d s = Some (s\<lparr>blocks := B\<rparr>)"
    "\<forall>r rs. medium (blocks s) r = Some rs
        \<longrightarrow> medium B r = Some (map (\<lambda>k. if place (blocks s) r k = place (blocks s) p i then d else rs ! k) [0..<length rs])"
    using block_write_medium [OF assms] by blast
  have p: "medium B p = Some (ss[i := d])" using block_write_medium_self [OF assms] B(1)
    by (auto dest: arg_cong [of _ _ blocks])
  have "medium B r = Some rs" if "medium (blocks s) r = Some rs" "\<forall>k < length rs. place (blocks s) r k \<noteq> place (blocks s) p i" for r rs
  proof -
    have "map (\<lambda>k. if place (blocks s) r k = place (blocks s) p i then d else rs ! k) [0..<length rs] = rs"
      using that(2) by (intro nth_equalityI) auto
    then show ?thesis using B(2) that(1) by simp
  qed
  moreover have "\<exists>s''. block_read p i (s\<lparr>blocks := B\<rparr>) = Some (d, s'')"
    using block_read_medium [of "s\<lparr>blocks := B\<rparr>" p "ss[i := d]" i] p assms(2) by auto
  ultimately show ?thesis using B(1) p by auto
qed

theorem block_write_isolated_witness:
  "\<exists>s'. block_write 6 2 (replicate 512 9) two_parts = Some s' \<and> (\<exists>s''. block_read 6 2 s' = Some (replicate 512 9, s''))
     \<and> medium (blocks s') 7 = Some (replicate 2 (replicate 512 0))"
proof -
  have m: "medium (blocks two_parts) 6 = Some (replicate 3 (replicate 512 0))"
    "medium (blocks two_parts) 7 = Some (replicate 2 (replicate 512 0))"
    by (simp_all add: medium_def two_parts_def one_disk_def disk_ok_def BLOCK_SECTOR_SIZE_def)
  have "\<forall>k < 2. place (blocks two_parts) 7 k \<noteq> place (blocks two_parts) 6 2"
    by (simp add: place_def two_parts_def)
  then show ?thesis
    using block_write_isolated [OF m(1), of 2 "replicate 512 9"] m(2) by (fastforce simp: BLOCK_SECTOR_SIZE_def)
qed

end
