(* ===== verification/Partition.thy ===== *)
theory Partition
  imports Block
begin

text \<open>
  \<^verbatim>\<open>devices/partition.c\<close>: scanning the partition table of a disk and registering its partitions as
  block devices. Messages are not modelled. \<open>None\<close> is a panic or a scan that does not return.
\<close>

section \<open>Partition tables\<close>

record partition_table_entry =
  part_type :: nat
  part_offset :: nat
  part_size :: nat

definition table_entry :: "byte list \<Rightarrow> nat \<Rightarrow> partition_table_entry" where
  "table_entry pt i = (let e = drop (446 + 16 * i) pt in
     \<lparr>part_type = field e 4 1, part_offset = field e 8 4, part_size = field e 12 4\<rparr>)"

definition table_signature :: "byte list \<Rightarrow> nat" where
  "table_signature pt = field pt 510 2"

definition is_extended :: "nat \<Rightarrow> bool" where
  "is_extended ty \<longleftrightarrow> ty = 5 \<or> ty = 15 \<or> ty = 133 \<or> ty = 197"

definition role_of_type :: "nat \<Rightarrow> block_type" where
  "role_of_type ty =
     (if ty = 32 then BLOCK_KERNEL else if ty = 33 then BLOCK_FILESYS else if ty = 34 then BLOCK_SCRATCH
      else if ty = 35 then BLOCK_SWAP else BLOCK_FOREIGN)"

fun decimal :: "nat \<Rightarrow> byte list" where
  "decimal n = (if n < 10 then [] else decimal (n div 10)) @ [word_of_nat (48 + n mod 10)]"

declare decimal.simps [simp del]

definition found_partition ::
  "addr \<Rightarrow> nat \<Rightarrow> nat \<Rightarrow> nat \<Rightarrow> nat \<Rightarrow> 'a devices_scheme \<Rightarrow> 'a devices_scheme option" where
  "found_partition blk ty start sz part_nr s = do {
     b \<leftarrow> blocks s blk;
     if start \<ge> blk_size b then Some s
     else if size_add start sz < start \<or> size_add start sz > blk_size b then Some s
     else (case malloc s of (p, s1) \<Rightarrow> do {
       ASSERT (p \<noteq> NULL);
       (_, s2) \<leftarrow> block_register (take 15 (blk_name b @ decimal part_nr)) (role_of_type ty) sz (Partition blk start) s1;
       Some s2 }) }"

text \<open>
  \<open>read_partition_table\<close> calls itself for every extended partition in the middle of its loop over
  the four entries of a table. The pending work is a list: tables still to be read, and entries
  still to be looked at, each with the sector of its table and of the primary extended table.
\<close>

datatype scan_item = Table nat nat | Entry partition_table_entry nat nat

partial_function (option) read_partition_table ::
  "addr \<Rightarrow> scan_item list \<Rightarrow> nat \<Rightarrow> 'a devices_scheme \<Rightarrow> (nat \<times> 'a devices_scheme) option" where
  "read_partition_table blk todo part_nr s = (case todo of
     [] \<Rightarrow> Some (part_nr, s)
   | Table sector primary_extended_sector # rest \<Rightarrow> do {
       b \<leftarrow> blocks s blk;
       if sector \<ge> blk_size b then read_partition_table blk rest part_nr s
       else (case malloc s of (p, s1) \<Rightarrow> do {
         ASSERT (p \<noteq> NULL);
         (pt, s2) \<leftarrow> block_read blk 0 s1;
         if table_signature pt \<noteq> 43605 then read_partition_table blk rest part_nr s2
         else read_partition_table blk
                (map (\<lambda>i. Entry (table_entry pt i) sector primary_extended_sector) [0, 1, 2, 3] @ rest) part_nr s2 }) }
   | Entry e sector primary_extended_sector # rest \<Rightarrow>
       if part_size e = 0 \<or> part_type e = 0 then read_partition_table blk rest part_nr s
       else if is_extended (part_type e) then
         (if sector = 0
          then read_partition_table blk (Table (part_offset e) (part_offset e) # rest) part_nr s
          else read_partition_table blk
                 (Table (size_add (part_offset e) primary_extended_sector) primary_extended_sector # rest) part_nr s)
       else do {
         s1 \<leftarrow> found_partition blk (part_type e) (size_add (part_offset e) sector) (part_size e) (part_nr + 1) s;
         read_partition_table blk rest (part_nr + 1) s1 })"

definition partition_scan :: "addr \<Rightarrow> 'a devices_scheme \<Rightarrow> 'a devices_scheme option" where
  "partition_scan blk s = map_option snd (read_partition_table blk [Table 0 0] 0 s)"

section \<open>Scanning a disk for partitions\<close>

lemma of_le_bound: "of_le bs < 256 ^ length bs"
proof (induction bs)
  case (Cons b bs)
  have "unat b < 256" using unsigned_less [of b] by simp
  with Cons show ?case by simp
qed simp

lemma field_bound: "field bs ofs n < 256 ^ n"
  unfolding field_def by (rule less_le_trans [OF of_le_bound]) (simp add: power_increasing)

lemma table_entry_bound: "part_size (table_entry pt i) < 4294967296" "part_offset (table_entry pt i) < 4294967296"
  using field_bound [where n = 4] by (simp_all add: table_entry_def Let_def)

definition the_disk :: "addr \<Rightarrow> byte list list \<Rightarrow> 'a devices_scheme \<Rightarrow> bool" where
  "the_disk p ss s \<longleftrightarrow> 0 < p \<and> p < next_ptr s
     \<and> (\<exists>b. blocks s p = Some b \<and> ops b = Ide_disk ss \<and> disk_ok b ss)"

lemma the_disk_malloc: "the_disk p ss s \<Longrightarrow> malloc s = (q, s1) \<Longrightarrow> the_disk p ss s1 \<and> q \<noteq> p \<and> (q = NULL \<or> q < next_ptr s1)"
  by (auto simp: malloc_def Let_def the_disk_def split: if_splits)

lemma the_disk_read:
  assumes "the_disk p ss s" and "i < length ss"
  shows "\<exists>s'. block_read p i s = Some (ss ! i, s') \<and> the_disk p ss s' \<and> s' = upd_block p (read_cnt_update (\<lambda>n. n + 1)) s"
proof -
  obtain b where b: "blocks s p = Some b" "ops b = Ide_disk ss" "disk_ok b ss" using assms(1) by (auto simp: the_disk_def)
  show ?thesis
    using block_read_disk [OF b assms(2)] assms(1) b by (auto simp: the_disk_def upd_block_def disk_ok_def)
qed

lemma the_disk_found:
  assumes "the_disk p ss s" and "found_partition p ty start sz nr s = Some s'"
  shows "the_disk p ss s'"
  using assms
  by (auto simp: found_partition_def bind_eq_Some_conv block_register_def malloc_def Let_def the_disk_def split: if_splits)

definition stuck :: "byte list list \<Rightarrow> partition_table_entry \<Rightarrow> scan_item \<Rightarrow> bool" where
  "stuck ss e item \<longleftrightarrow> (case item of
     Table t pr \<Rightarrow> t < length ss \<and> (t = 0 \<or> pr = part_offset e)
   | Entry e' t pr \<Rightarrow> e' = e \<and> (t = 0 \<or> pr = part_offset e))"

lemma read_partition_table_stuck:
  assumes sig: "table_signature (ss ! 0) = 43605" and e: "e = table_entry (ss ! 0) i" "i < 4"
    and x: "part_size e \<noteq> 0" "is_extended (part_type e)" and o: "2 * part_offset e < length ss"
    and r: "read_partition_table blk todo nr s = Some r"
  shows "the_disk blk ss s \<longrightarrow> \<not> (\<exists>x \<in> set todo. stuck ss e x)"
proof (rule read_partition_table.raw_induct
    [where P = "\<lambda>blk todo nr s r. the_disk blk ss s \<longrightarrow> \<not> (\<exists>x \<in> set todo. stuck ss e x)", OF _ r], intro impI)
  fix rpt blk todo nr s and r :: "nat \<times> 'a devices_scheme"
  assume IH': "\<And>blk todo nr s r. rpt blk todo nr s = Some r \<Longrightarrow> the_disk blk ss s \<longrightarrow> \<not> (\<exists>x \<in> set todo. stuck ss e x)"
    and R: "(case todo of
     [] \<Rightarrow> Some (nr, s)
   | Table sector primary_extended_sector # rest \<Rightarrow> do {
       b \<leftarrow> blocks s blk;
       if sector \<ge> blk_size b then rpt blk rest nr s
       else (case malloc s of (p, s1) \<Rightarrow> do {
         ASSERT (p \<noteq> NULL);
         (pt, s2) \<leftarrow> block_read blk 0 s1;
         if table_signature pt \<noteq> 43605 then rpt blk rest nr s2
         else rpt blk
                (map (\<lambda>i. Entry (table_entry pt i) sector primary_extended_sector) [0, 1, 2, 3] @ rest) nr s2 }) }
   | Entry e sector primary_extended_sector # rest \<Rightarrow>
       if part_size e = 0 \<or> part_type e = 0 then rpt blk rest nr s
       else if is_extended (part_type e) then
         (if sector = 0
          then rpt blk (Table (part_offset e) (part_offset e) # rest) nr s
          else rpt blk
                 (Table (size_add (part_offset e) primary_extended_sector) primary_extended_sector # rest) nr s)
       else do {
         s1 \<leftarrow> found_partition blk (part_type e) (size_add (part_offset e) sector) (part_size e) (nr + 1) s;
         rpt blk rest (nr + 1) s1 }) = Some r"
    and D: "the_disk blk ss s"
  note IH = IH' [rule_format]
  have len: "length ss \<le> 268435456" using D by (auto simp: the_disk_def disk_ok_def)
  have sa: "size_add (part_offset e) (part_offset e) = 2 * part_offset e" using o len by (simp add: size_add_def)
  have i: "i = 0 \<or> i = 1 \<or> i = 2 \<or> i = 3" using e(2) by arith
  show "\<not> (\<exists>x \<in> set todo. stuck ss e x)"
  proof (cases todo)
    case (Cons x rest)
    show ?thesis
    proof (cases x)
      case (Table t pr)
      obtain b where b: "blocks s blk = Some b" "blk_size b = length ss" using D by (auto simp: the_disk_def disk_ok_def)
      show ?thesis
      proof (cases "t \<ge> length ss")
        case True
        then show ?thesis using IH [OF _ D] R b Cons Table by (auto simp: stuck_def)
      next
        case False
        obtain q s1 where q: "malloc s = (q, s1)" by fastforce
        have "0 < length ss" using False by (cases ss) simp_all
        then obtain s2 where s2: "block_read blk 0 s1 = Some (ss ! 0, s2)" "the_disk blk ss s2"
          using the_disk_read [of blk ss s1 0] the_disk_malloc [OF D q] False by auto
        have "rpt blk (map (\<lambda>i. Entry (table_entry (ss ! 0) i) t pr) [0, 1, 2, 3] @ rest) nr s2 = Some r"
          using R b Cons Table False q s2(1) sig by (simp add: bind_eq_Some_conv)
        from IH [OF this s2(2)] show ?thesis using Cons Table e i by (auto simp: stuck_def)
      qed
    next
      case (Entry e' t pr)
      consider "part_size e' = 0 \<or> part_type e' = 0" | "part_size e' \<noteq> 0" "part_type e' \<noteq> 0" "is_extended (part_type e')"
        | "part_size e' \<noteq> 0" "part_type e' \<noteq> 0" "\<not> is_extended (part_type e')" by blast
      then show ?thesis
      proof cases
        case 1
        then have "e' \<noteq> e" using x by (auto simp: is_extended_def)
        moreover have "rpt blk rest nr s = Some r" using R Cons Entry 1 by simp
        ultimately show ?thesis using IH [OF _ D] Cons Entry by (auto simp: stuck_def)
      next
        case 2
        let ?t = "if t = 0 then Table (part_offset e') (part_offset e') else Table (size_add (part_offset e') pr) pr"
        have "rpt blk (?t # rest) nr s = Some r" using R Cons Entry 2 by (simp split: if_splits)
        from IH [OF this D] show ?thesis using Cons Entry o sa by (auto simp: stuck_def split: if_splits)
      next
        case 3
        then obtain s1 where "found_partition blk (part_type e') (size_add (part_offset e') t) (part_size e') (nr + 1) s = Some s1"
          "rpt blk rest (nr + 1) s1 = Some r" using R Cons Entry by (auto simp: bind_eq_Some_conv)
        moreover have "e' \<noteq> e" using 3 x by auto
        ultimately show ?thesis using IH the_disk_found [OF D] Cons Entry by (auto simp: stuck_def)
      qed
    qed
  qed simp
qed

text \<open>The devices in probe order, without their names and counters.\<close>

definition registered :: "'a devices_scheme \<Rightarrow> (block_type \<times> nat \<times> driver) option list" where
  "registered s = map (\<lambda>q. map_option (\<lambda>b. (blk_type b, blk_size b, ops b)) (blocks s q)) (all_blocks s)"

definition probed :: "'a devices_scheme \<Rightarrow> bool" where
  "probed s \<longleftrightarrow> allocs s = [] \<and> (\<forall>q \<in> set (all_blocks s). q < next_ptr s)"

definition wanted :: "addr \<Rightarrow> nat \<Rightarrow> partition_table_entry list \<Rightarrow> (block_type \<times> nat \<times> driver) option list" where
  "wanted p n es = map (\<lambda>e. Some (role_of_type (part_type e), part_size e, Partition p (part_offset e)))
     (filter (\<lambda>e. part_size e \<noteq> 0 \<and> part_type e \<noteq> 0 \<and> part_offset e + part_size e \<le> n) es)"

lemma probed_next:
  assumes "probed s" and "q \<in> set (all_blocks s)"
  shows "q \<noteq> Suc (next_ptr s)" "q < Suc (next_ptr s)" "q < Suc (Suc (next_ptr s))"
  using assms by (auto simp: probed_def)

lemma found_partition_registered:
  assumes d: "the_disk p ss s" "probed s" and b: "start < 4294967296" "sz < 4294967296" "sz \<noteq> 0"
  shows "\<exists>s'. found_partition p ty start sz nr s = Some s' \<and> the_disk p ss s' \<and> probed s'
    \<and> registered s' = registered s @ (if start + sz \<le> length ss then [Some (role_of_type ty, sz, Partition p start)] else [])"
proof -
  obtain b where p: "blocks s p = Some b" "blk_size b = length ss" "length ss \<le> 268435456" "0 < next_ptr s"
    using d(1) by (auto simp: the_disk_def disk_ok_def)
  show ?thesis
  proof (cases "start + sz \<le> length ss")
    case True
    then have "size_add start sz = start + sz" "start < length ss" using p(3) b by (simp_all add: size_add_def)
    then obtain s' where s': "found_partition p ty start sz nr s = Some s'"
      and r: "registered s' = registered s @ [Some (role_of_type ty, sz, Partition p start)]" "probed s'"
      using p d True probed_next [OF d(2)]
      by (auto simp: found_partition_def malloc_def block_register_def probed_def registered_def Let_def)
    then show ?thesis using True the_disk_found [OF d(1) s'] by simp
  next
    case False
    have "size_add start sz < start \<or> size_add start sz > length ss" if "start < length ss"
      using that False b p(3) by (auto simp: size_add_def mod_if)
    then have "found_partition p ty start sz nr s = Some s" using p by (auto simp: found_partition_def not_le)
    then show ?thesis using False d by simp
  qed
qed

lemma scan_entries:
  assumes "the_disk p ss s" and "probed s"
    and "\<forall>e \<in> set es. part_size e < 4294967296 \<and> part_offset e < 4294967296 \<and> \<not> is_extended (part_type e)"
  shows "\<exists>nr' s'. read_partition_table p (map (\<lambda>e. Entry e 0 0) es) nr s = Some (nr', s')
    \<and> registered s' = registered s @ wanted p (length ss) es"
  using assms
proof (induction es arbitrary: nr s)
  case Nil
  then show ?case by (subst read_partition_table.simps) (simp add: wanted_def)
next
  case (Cons e es)
  show ?case
  proof (cases "part_size e = 0 \<or> part_type e = 0")
    case True
    obtain nr' s' where "read_partition_table p (map (\<lambda>e. Entry e 0 0) es) nr s = Some (nr', s')"
      "registered s' = registered s @ wanted p (length ss) es"
      using Cons.IH [OF Cons.prems(1,2), of nr] Cons.prems(3) by auto
    then show ?thesis using True by (subst read_partition_table.simps) (auto simp: wanted_def)
  next
    case False
    have z: "size_add (part_offset e) 0 = part_offset e" using Cons.prems(3) by (simp add: size_add_def)
    obtain s1 where s1: "found_partition p (part_type e) (part_offset e) (part_size e) (nr + 1) s = Some s1"
      "the_disk p ss s1" "probed s1" "registered s1 = registered s @
        (if part_offset e + part_size e \<le> length ss
         then [Some (role_of_type (part_type e), part_size e, Partition p (part_offset e))] else [])"
      using found_partition_registered [OF Cons.prems(1,2), of "part_offset e" "part_size e" "part_type e" "nr + 1"]
        Cons.prems(3) False by auto
    obtain nr' s' where "read_partition_table p (map (\<lambda>e. Entry e 0 0) es) (nr + 1) s1 = Some (nr', s')"
      "registered s' = registered s1 @ wanted p (length ss) es"
      using Cons.IH [OF s1(2,3), of "nr + 1"] Cons.prems(3) by auto
    moreover have "\<not> is_extended (part_type e)" using Cons.prems(3) by simp
    ultimately show ?thesis using False s1(1,4) z by (subst read_partition_table.simps) (auto simp: wanted_def)
  qed
qed

section \<open>Example disks\<close>

definition entry_bytes :: "byte \<Rightarrow> nat \<Rightarrow> nat \<Rightarrow> byte list" where
  "entry_bytes ty ofs sz = [0, 0, 0, 0, ty, 0, 0, 0] @ to_le 4 ofs @ to_le 4 sz"

definition boot_record :: "byte list list \<Rightarrow> byte list" where
  "boot_record es = replicate 446 0 @ concat es @ [85, 170]"

definition disk_image :: "byte list list \<Rightarrow> byte list list" where
  "disk_image es = boot_record es # replicate 7 (replicate 512 0)"

lemma all_less_4: "(\<forall>i < (4 :: nat). P i) \<longleftrightarrow> P 0 \<and> P 1 \<and> P 2 \<and> P 3"
  by (simp add: numeral_eq_Suc All_less_Suc) blast

lemmas disk_simps = entry_bytes_def boot_record_def disk_image_def one_disk_def the_disk_def probed_def disk_ok_def
  BLOCK_SECTOR_SIZE_def table_signature_def table_entry_def field_def Let_def is_extended_def to_le_4 all_less_4

section \<open>Properties\<close>

text \<open>
  C34. On a disk whose partition table has a valid signature and no extended partition,
  \<open>partition_scan\<close> returns and registers, in table order, one device for each nonempty entry that
  lies inside the disk, with the role of its type; the check for the end of the partition is right
  although the 32-bit sum may wrap around.
\<close>

theorem partition_scan_correct:
  assumes "the_disk p ss s" and "probed s" and "0 < length ss" and "table_signature (ss ! 0) = 43605"
    and "\<forall>i < 4. \<not> is_extended (part_type (table_entry (ss ! 0) i))"
  shows "\<exists>s'. partition_scan p s = Some s'
    \<and> registered s' = registered s @ wanted p (length ss) (map (table_entry (ss ! 0)) [0, 1, 2, 3])"
proof -
  obtain b where b: "blocks s p = Some b" "blk_size b = length ss" "ops b = Ide_disk ss" using assms(1) by (auto simp: the_disk_def disk_ok_def)
  obtain q s1 where q: "malloc s = (q, s1)" by fastforce
  then have s1: "the_disk p ss s1" "q \<noteq> NULL" "probed s1" "registered s1 = registered s"
    using the_disk_malloc [OF assms(1) q] assms(1,2) probed_next [OF assms(2)]
    by (auto simp: malloc_def probed_def registered_def Let_def the_disk_def)
  obtain s2 where s2: "block_read p 0 s1 = Some (ss ! 0, s2)" "the_disk p ss s2"
    "s2 = upd_block p (read_cnt_update (\<lambda>n. n + 1)) s1" using the_disk_read [OF s1(1) assms(3)] by blast
  have "registered s2 = registered s1"
    unfolding registered_def s2(3) by (rule map_cong) (auto simp: upd_block_def option.map_comp comp_def)
  then have r2: "probed s2" "registered s2 = registered s"
    using s1 s2(3) by (simp_all add: upd_block_def probed_def)
  have "\<forall>e \<in> set (map (table_entry (ss ! 0)) [0, 1, 2, 3]). part_size e < 4294967296 \<and> part_offset e < 4294967296
      \<and> \<not> is_extended (part_type e)"
    using assms(5) table_entry_bound by simp
  from scan_entries [OF s2(2) r2(1) this, of 0] obtain nr' s' where
    "read_partition_table p (map (\<lambda>e. Entry e 0 0) (map (table_entry (ss ! 0)) [0, 1, 2, 3])) 0 s2 = Some (nr', s')"
    "registered s' = registered s @ wanted p (length ss) (map (table_entry (ss ! 0)) [0, 1, 2, 3])"
    using r2(2) by auto
  moreover have "read_partition_table p [Table 0 0] 0 s
    = read_partition_table p (map (\<lambda>e. Entry e 0 0) (map (table_entry (ss ! 0)) [0, 1, 2, 3])) 0 s2"
    using b q s1(2) s2(1) assms(3,4) by (subst read_partition_table.simps) (simp add: comp_def)
  ultimately show ?thesis by (auto simp: partition_scan_def)
qed

theorem partition_scan_correct_witness:
  "let ss = disk_image [entry_bytes 33 2 4, entry_bytes 0 0 0, entry_bytes 131 5 9, entry_bytes 35 1 1] in
   \<exists>s'. partition_scan 5 (one_disk ss) = Some s'
     \<and> registered s' = registered (one_disk ss) @ [Some (BLOCK_FILESYS, 4, Partition 5 2), Some (BLOCK_SWAP, 1, Partition 5 1)]"
proof -
  let ?ss = "disk_image [entry_bytes 33 2 4, entry_bytes 0 0 0, entry_bytes 131 5 9, entry_bytes 35 1 1]"
  have h: "the_disk 5 ?ss (one_disk ?ss)" "probed (one_disk ?ss)" "0 < length ?ss" "table_signature (?ss ! 0) = 43605"
    by (simp_all add: disk_simps)
  have e: "table_entry (?ss ! 0) 0 = \<lparr>part_type = 33, part_offset = 2, part_size = 4\<rparr>"
    "table_entry (?ss ! 0) 1 = \<lparr>part_type = 0, part_offset = 0, part_size = 0\<rparr>"
    "table_entry (?ss ! 0) 2 = \<lparr>part_type = 131, part_offset = 5, part_size = 9\<rparr>"
    "table_entry (?ss ! 0) 3 = \<lparr>part_type = 35, part_offset = 1, part_size = 1\<rparr>"
    by (simp_all add: disk_simps)
  have x: "\<forall>i < 4. \<not> is_extended (part_type (table_entry (?ss ! 0) i))"
    unfolding all_less_4 e by (simp add: is_extended_def)
  have l: "length ?ss = 8" by (simp add: disk_image_def)
  show ?thesis
    using partition_scan_correct [OF h x] e l by (simp add: Let_def wanted_def role_of_type_def)
qed

text \<open>
  C35. \<open>read_partition_table\<close> reads sector 0 for every table it is asked to read. On a disk whose
  partition table has an extended partition in its first half, it finds the same extended partition
  again in every table it opens, and \<open>partition_scan\<close> does not return, whatever else is on the disk.
\<close>

theorem partition_scan_extended_diverges:
  assumes "the_disk p ss s" and "table_signature (ss ! 0) = 43605" and "i < 4" and "e = table_entry (ss ! 0) i"
    and "part_size e \<noteq> 0" and "is_extended (part_type e)" and "2 * part_offset e < length ss"
  shows "partition_scan p s = None"
proof (rule ccontr)
  assume "partition_scan p s \<noteq> None"
  then obtain r where "read_partition_table p [Table 0 0] 0 s = Some r" by (auto simp: partition_scan_def)
  from read_partition_table_stuck [OF assms(2,4,3,5-7) this] show False
    using assms(1,7) by (auto simp: stuck_def)
qed

theorem partition_scan_extended_diverges_witness:
  "let ss = disk_image [entry_bytes 33 2 1, entry_bytes 5 3 4, entry_bytes 0 0 0, entry_bytes 0 0 0] in
   partition_scan 5 (one_disk ss) = None"
proof -
  let ?ss = "disk_image [entry_bytes 33 2 1, entry_bytes 5 3 4, entry_bytes 0 0 0, entry_bytes 0 0 0]"
  have h: "the_disk 5 ?ss (one_disk ?ss)" "table_signature (?ss ! 0) = 43605" by (simp_all add: disk_simps)
  have e: "table_entry (?ss ! 0) 1 = \<lparr>part_type = 5, part_offset = 3, part_size = 4\<rparr>" and l: "length ?ss = 8"
    by (simp_all add: disk_simps)
  show ?thesis
    using partition_scan_extended_diverges [OF h, of 1] e l by (simp add: is_extended_def)
qed

end
