(* ===== verification/Inode.thy ===== *)
theory Inode
  imports Block
begin

text \<open>
  The state of the file system and the input and output half of \<^verbatim>\<open>filesys/inode.c\<close>: the format of
  inodes, opening them, and reading and writing their data.

  The state extends the state of the block devices. In-memory inodes, files and directories are
  objects at addresses; an access to an address that holds no object is \<open>None\<close>. \<open>off_t\<close> values are
  integers, \<open>block_sector_t\<close> values natural numbers, with the wrap-around of the code's expressions
  written out. Buffers are sequences of bytes: a read returns the bytes it stores into the buffer of
  the caller, a write takes the buffer. \<open>scratch\<close> is what an uninitialised \<open>struct dir_entry\<close> on
  the stack happens to hold, \<open>heap_junk\<close> what the words of a fresh allocation hold.
\<close>

section \<open>State\<close>

record inode_disk =
  i_start :: nat
  i_length :: int
  i_magic :: nat

record inode =
  i_sector :: nat
  open_cnt :: int
  removed :: bool
  deny_write_cnt :: int
  i_data :: inode_disk

record open_file =
  f_inode :: addr
  f_pos :: int
  deny_write :: bool

record dir =
  d_inode :: addr
  d_pos :: int

record fs = devices +
  fs_device :: addr
  inodes :: "addr \<rightharpoonup> inode"
  open_inodes :: "addr list"
  free_map :: bitmap
  free_map_file :: addr
  files :: "addr \<rightharpoonup> open_file"
  dirs :: "addr \<rightharpoonup> dir"
  scratch :: "byte list"
  heap_junk :: "nat \<Rightarrow> elem_type"

section \<open>The format of an inode on disk\<close>

definition INODE_MAGIC :: nat where "INODE_MAGIC = 1229868868"

definition inode_encode :: "inode_disk \<Rightarrow> byte list" where
  "inode_encode d = to_le 4 (i_start d) @ to_le 4 (nat (wrap_u32 (i_length d))) @ to_le 4 (i_magic d) @ replicate 500 0"

definition inode_decode :: "byte list \<Rightarrow> inode_disk" where
  "inode_decode bs = \<lparr>i_start = field bs 0 4, i_length = wrap_s32 (int (field bs 4 4)), i_magic = field bs 8 4\<rparr>"

definition bytes_to_sectors :: "int \<Rightarrow> nat" where
  "bytes_to_sectors sz = nat (wrap_u32 (c_div (wrap_s32 (sz + 512 - 1)) 512))"

definition byte_to_sector :: "inode \<Rightarrow> int \<Rightarrow> nat" where
  "byte_to_sector ino pos =
     (if pos < i_length (i_data ino) then nat (wrap_u32 (int (i_start (i_data ino)) + c_div pos 512))
      else 4294967295)"

definition inode_length :: "inode \<Rightarrow> int" where
  "inode_length ino = i_length (i_data ino)"

section \<open>Opening\<close>

definition inode_init :: "fs \<Rightarrow> fs" where
  "inode_init s = s\<lparr>open_inodes := []\<rparr>"

definition upd_inode :: "addr \<Rightarrow> (inode \<Rightarrow> inode) \<Rightarrow> fs \<Rightarrow> fs option" where
  "upd_inode p f s = do { ino \<leftarrow> inodes s p; Some (s\<lparr>inodes := (inodes s)(p \<mapsto> f ino)\<rparr>) }"

definition inode_reopen :: "addr \<Rightarrow> fs \<Rightarrow> (addr \<times> fs) option" where
  "inode_reopen p s =
     (if p \<noteq> NULL then do { s1 \<leftarrow> upd_inode p (open_cnt_update (\<lambda>n. n + 1)) s; Some (p, s1) }
      else Some (p, s))"

fun find_open :: "nat \<Rightarrow> addr list \<Rightarrow> (addr \<rightharpoonup> inode) \<Rightarrow> addr option" where
  "find_open sec [] is = Some NULL"
| "find_open sec (p # ps) is = do {
     ino \<leftarrow> is p;
     if i_sector ino = sec then Some p else find_open sec ps is }"

definition inode_open :: "nat \<Rightarrow> fs \<Rightarrow> (addr \<times> fs) option" where
  "inode_open sec s = do {
     q \<leftarrow> find_open sec (open_inodes s) (inodes s);
     if q \<noteq> NULL then inode_reopen q s
     else (case malloc s of (p, s1) \<Rightarrow>
       if p = NULL then Some (NULL, s1)
       else do {
         (bs, s2) \<leftarrow> block_read (fs_device s1) sec s1;
         Some (p, s2\<lparr>open_inodes := p # open_inodes s2,
           inodes := (inodes s2)(p \<mapsto> \<lparr>i_sector = sec, open_cnt = 1, removed = False, deny_write_cnt = 0,
             i_data = inode_decode bs\<rparr>)\<rparr>) }) }"

definition inode_get_inumber :: "addr \<Rightarrow> fs \<Rightarrow> nat option" where
  "inode_get_inumber p s = map_option i_sector (inodes s p)"

definition inode_remove :: "addr \<Rightarrow> fs \<Rightarrow> fs option" where
  "inode_remove p s = do { ASSERT (p \<noteq> NULL); upd_inode p (removed_update (\<lambda>_. True)) s }"

definition inode_deny_write :: "addr \<Rightarrow> fs \<Rightarrow> fs option" where
  "inode_deny_write p s = do {
     s1 \<leftarrow> upd_inode p (deny_write_cnt_update (\<lambda>n. n + 1)) s;
     ino \<leftarrow> inodes s1 p;
     ASSERT (deny_write_cnt ino \<le> open_cnt ino);
     Some s1 }"

definition inode_allow_write :: "addr \<Rightarrow> fs \<Rightarrow> fs option" where
  "inode_allow_write p s = do {
     ino \<leftarrow> inodes s p;
     ASSERT (deny_write_cnt ino > 0);
     ASSERT (deny_write_cnt ino \<le> open_cnt ino);
     upd_inode p (deny_write_cnt_update (\<lambda>n. n - 1)) s }"

section \<open>Reading and writing\<close>

text \<open>The part of the request that lies in one sector, from the offset \<open>ofs\<close> on.\<close>

definition chunk_size :: "inode \<Rightarrow> int \<Rightarrow> int \<Rightarrow> int" where
  "chunk_size ino sz ofs =
     (let sector_ofs = c_mod ofs 512;
          inode_left = wrap_s32 (inode_length ino - ofs);
          sector_left = 512 - sector_ofs;
          min_left = (if inode_left < sector_left then inode_left else sector_left)
      in if sz < min_left then sz else min_left)"

text \<open>\<open>bounce\<close> says whether the bounce buffer is already allocated, \<open>acc\<close> is what has been read.\<close>

function read_loop :: "addr \<Rightarrow> int \<Rightarrow> int \<Rightarrow> bool \<Rightarrow> byte list \<Rightarrow> fs \<Rightarrow> (byte list \<times> fs) option" where
  "read_loop p sz ofs bounce acc s =
     (if 0 < sz then do {
        ino \<leftarrow> inodes s p;
        (let sector_idx = byte_to_sector ino ofs; sector_ofs = c_mod ofs 512; chunk = chunk_size ino sz ofs in
         if chunk \<le> 0 then Some (acc, s)
         else if sector_ofs = 0 \<and> chunk = 512 then do {
           (bs, s1) \<leftarrow> block_read (fs_device s) sector_idx s;
           read_loop p (sz - chunk) (ofs + chunk) bounce (acc @ bs) s1 }
         else (case (if bounce then (1, s) else malloc s) of (b, s1) \<Rightarrow>
           if b = NULL then Some (acc, s1)
           else do {
             (bs, s2) \<leftarrow> block_read (fs_device s1) sector_idx s1;
             ASSERT (0 \<le> sector_ofs \<and> sector_ofs + chunk \<le> 512);
             read_loop p (sz - chunk) (ofs + chunk) True
               (acc @ take (nat chunk) (drop (nat sector_ofs) bs)) s2 })) }
      else Some (acc, s))"
  by pat_completeness auto
termination
  by (relation "measure (\<lambda>(p, sz, ofs, bounce, acc, s). nat sz)") auto

declare read_loop.simps [simp del]

definition inode_read_at :: "addr \<Rightarrow> int \<Rightarrow> int \<Rightarrow> fs \<Rightarrow> (byte list \<times> fs) option" where
  "inode_read_at p sz ofs s = read_loop p sz ofs False [] s"

function write_loop :: "addr \<Rightarrow> byte list \<Rightarrow> int \<Rightarrow> int \<Rightarrow> bool \<Rightarrow> int \<Rightarrow> fs \<Rightarrow> (int \<times> fs) option" where
  "write_loop p buf sz ofs bounce bytes_written s =
     (if 0 < sz then do {
        ino \<leftarrow> inodes s p;
        (let sector_idx = byte_to_sector ino ofs; sector_ofs = c_mod ofs 512; chunk = chunk_size ino sz ofs;
             piece = take (nat chunk) (drop (nat bytes_written) buf) in
         if chunk \<le> 0 then Some (bytes_written, s)
         else if sector_ofs = 0 \<and> chunk = 512 then do {
           ASSERT (bytes_written + chunk \<le> int (length buf));
           s1 \<leftarrow> block_write (fs_device s) sector_idx piece s;
           write_loop p buf (sz - chunk) (ofs + chunk) bounce (bytes_written + chunk) s1 }
         else (case (if bounce then (1, s) else malloc s) of (b, s1) \<Rightarrow>
           if b = NULL then Some (bytes_written, s1)
           else do {
             (bs, s2) \<leftarrow> (if sector_ofs > 0 \<or> chunk < 512 - sector_ofs then block_read (fs_device s1) sector_idx s1
                          else Some (replicate 512 0, s1));
             ASSERT (0 \<le> sector_ofs \<and> sector_ofs + chunk \<le> 512);
             ASSERT (bytes_written + chunk \<le> int (length buf));
             s3 \<leftarrow> block_write (fs_device s2) sector_idx
               (take (nat sector_ofs) bs @ piece @ drop (nat (sector_ofs + chunk)) bs) s2;
             write_loop p buf (sz - chunk) (ofs + chunk) True (bytes_written + chunk) s3 })) }
      else Some (bytes_written, s))"
  by pat_completeness auto
termination
  by (relation "measure (\<lambda>(p, buf, sz, ofs, bounce, bw, s). nat sz)") auto

declare write_loop.simps [simp del]

definition inode_write_at :: "addr \<Rightarrow> byte list \<Rightarrow> int \<Rightarrow> int \<Rightarrow> fs \<Rightarrow> (int \<times> fs) option" where
  "inode_write_at p buf sz ofs s = do {
     ino \<leftarrow> inodes s p;
     if deny_write_cnt ino \<noteq> 0 then Some (0, s)
     else write_loop p buf sz ofs False 0 s }"

end
