(* ===== verification/Byte_Seq.thy ===== *)
theory Byte_Seq
  imports Prelude
begin

text \<open>
  Sequences of bytes: overwriting a range, and a disk of equal sectors seen as one sequence.
\<close>

section \<open>Overwriting\<close>

text \<open>\<open>overwrite bs ofs v\<close> is \<open>bs\<close> with \<open>v\<close> written at position \<open>ofs\<close>.\<close>

definition overwrite :: "'a list \<Rightarrow> nat \<Rightarrow> 'a list \<Rightarrow> 'a list" where
  "overwrite bs ofs v = take ofs bs @ v @ drop (ofs + length v) bs"

lemma length_overwrite [simp]: "ofs + length v \<le> length bs \<Longrightarrow> length (overwrite bs ofs v) = length bs"
  by (simp add: overwrite_def)

lemma overwrite_Nil [simp]: "overwrite bs ofs [] = bs"
  by (simp add: overwrite_def)

lemma nth_overwrite:
  "ofs + length v \<le> length bs \<Longrightarrow> i < length bs \<Longrightarrow>
   overwrite bs ofs v ! i = (if ofs \<le> i \<and> i < ofs + length v then v ! (i - ofs) else bs ! i)"
  by (auto simp: overwrite_def nth_append)

lemma overwrite_append:
  assumes "ofs + length v + length w \<le> length bs"
  shows "overwrite (overwrite bs ofs v) (ofs + length v) w = overwrite bs ofs (v @ w)"
  using assms by (intro nth_equalityI) (auto simp: nth_overwrite nth_append)

lemma overwrite_nested:
  assumes "n + k \<le> length bs" and "a + length v \<le> k"
  shows "overwrite bs n (overwrite (take k (drop n bs)) a v) = overwrite bs (n + a) v"
proof -
  have l: "length (take k (drop n bs)) = k" using assms by simp
  then have "length (overwrite (take k (drop n bs)) a v) = k" using assms by simp
  then show ?thesis using assms l by (intro nth_equalityI) (auto simp: nth_overwrite)
qed

lemma range_overwrite:
  assumes "ofs + length v \<le> length bs"
  shows "n + m \<le> ofs \<Longrightarrow> take m (drop n (overwrite bs ofs v)) = take m (drop n bs)"
    and "ofs + length v \<le> n \<Longrightarrow> take m (drop n (overwrite bs ofs v)) = take m (drop n bs)"
  using assms by (auto intro!: nth_equalityI simp: nth_overwrite)

lemma range_overwrite_inside:
  assumes "n + m \<le> length bs" and "a + length v \<le> m"
  shows "take m (drop n (overwrite bs (n + a) v)) = overwrite (take m (drop n bs)) a v"
proof -
  have l: "length (take m (drop n bs)) = m" using assms by simp
  then have "length (overwrite (take m (drop n bs)) a v) = m" using assms by simp
  then show ?thesis using assms l by (intro nth_equalityI) (auto simp: nth_overwrite)
qed

section \<open>A disk as one sequence\<close>

lemma flat_length: "\<forall>d \<in> set ss. length d = k \<Longrightarrow> length (concat ss) = k * length ss"
  by (induction ss) auto

lemma flat_sector:
  assumes "\<forall>d \<in> set ss. length d = k" and "i < length ss"
  shows "ss ! i = take k (drop (k * i) (concat ss))"
proof -
  have s: "ss = take i ss @ ss ! i # drop (Suc i) ss" using assms(2) by (rule id_take_nth_drop)
  have "length (concat (take i ss)) = k * i" using flat_length [of "take i ss" k] assms by (auto dest: in_set_takeD)
  moreover have "length (ss ! i) = k" using assms by simp
  ultimately show ?thesis using arg_cong [OF s, of concat] by simp
qed

lemma flat_update:
  assumes "\<forall>d \<in> set ss. length d = k" and "i < length ss" and "length d = k"
  shows "concat (ss[i := d]) = overwrite (concat ss) (k * i) d"
proof -
  have l: "length (concat (take i ss)) = k * i" using flat_length [of "take i ss" k] assms by (auto dest: in_set_takeD)
  have "concat ss = concat (take i ss) @ ss ! i @ concat (drop (Suc i) ss)"
    using id_take_nth_drop [OF assms(2)] by (metis concat.simps(2) concat_append)
  moreover have "length (ss ! i) = k" using assms by simp
  moreover have "concat (ss[i := d]) = concat (take i ss) @ d @ concat (drop (Suc i) ss)"
    using assms(2) by (simp add: upd_conv_take_nth_drop)
  ultimately show ?thesis using l assms(3) by (simp add: overwrite_def)
qed

lemma flat_piece:
  assumes "\<forall>d \<in> set ss. length d = k" and "i < length ss" and "a + c \<le> k"
  shows "take c (drop a (ss ! i)) = take c (drop (k * i + a) (concat ss))"
proof -
  have "k * i + k \<le> length (concat ss)"
    using assms(2) flat_length [OF assms(1)] by (metis Suc_leI mult_Suc_right mult_le_mono2 add.commute)
  then show ?thesis using assms(3) by (subst flat_sector [OF assms(1,2)]) (simp add: add.commute drop_take min_def)
qed

lemma flat_write:
  assumes "\<forall>d \<in> set ss. length d = k" and "i < length ss" and "a + length v \<le> k"
  shows "concat (ss[i := overwrite (ss ! i) a v]) = overwrite (concat ss) (k * i + a) v"
proof -
  have b: "k * i + k \<le> length (concat ss)"
    using assms(2) flat_length [OF assms(1)] by (metis Suc_leI mult_Suc_right mult_le_mono2 add.commute)
  have l: "length (ss ! i) = k" using assms by simp
  have "concat (ss[i := overwrite (ss ! i) a v]) = overwrite (concat ss) (k * i) (overwrite (ss ! i) a v)"
    using flat_update [OF assms(1,2)] l assms(3) by simp
  also have "\<dots> = overwrite (concat ss) (k * i + a) v"
    unfolding flat_sector [OF assms(1,2)] by (rule overwrite_nested [OF b assms(3)])
  finally show ?thesis .
qed

end
