(* ===== verification/Inode_IO.thy ===== *)
theory Inode_IO
  imports Inode Byte_Seq
begin

text \<open>
  What \<open>inode_read_at\<close> and \<open>inode_write_at\<close> compute: the data of an inode is a range of the disk,
  read and overwritten as a sequence of bytes, whatever the position of the request in the sectors.
\<close>

section \<open>The data of an inode\<close>

definition disk :: "fs \<Rightarrow> byte list list option" where
  "disk s = medium (blocks s) (fs_device s)"

definition nsec :: "int \<Rightarrow> nat" where
  "nsec len = (nat len + 511) div 512"

definition disk_inode_ok :: "nat \<Rightarrow> inode_disk \<Rightarrow> bool" where
  "disk_inode_ok n d \<longleftrightarrow> 0 \<le> i_length d \<and> i_length d < 2147483648 - 511 \<and> i_start d + nsec (i_length d) \<le> n"

definition contents :: "byte list list \<Rightarrow> inode_disk \<Rightarrow> byte list" where
  "contents ss d = take (nat (i_length d)) (drop (512 * i_start d) (concat ss))"

text \<open>Steps that change nothing but the devices and the supply of memory.\<close>

definition quiet :: "fs \<Rightarrow> fs \<Rightarrow> bool" where
  "quiet s s' \<longleftrightarrow> (\<exists>B k n. s' = s\<lparr>blocks := B, allocs := drop k (allocs s), next_ptr := n\<rparr>
     \<and> geometry B = geometry (blocks s) \<and> next_ptr s \<le> n)"

lemma quietI:
  "s' = s\<lparr>blocks := B, allocs := drop k (allocs s), next_ptr := n\<rparr> \<Longrightarrow> geometry B = geometry (blocks s) \<Longrightarrow>
   next_ptr s \<le> n \<Longrightarrow> quiet s s'"
  unfolding quiet_def by blast

lemma quiet_refl [simp]: "quiet s s"
  by (rule quietI [where B = "blocks s" and k = 0 and n = "next_ptr s"]) simp_all

lemma quiet_trans [trans]: "quiet s s1 \<Longrightarrow> quiet s1 s2 \<Longrightarrow> quiet s s2"
  by (fastforce simp: quiet_def)

lemma quiet_fields:
  assumes "quiet s s'"
  shows "fs_device s' = fs_device s" "inodes s' = inodes s" "open_inodes s' = open_inodes s" "free_map s' = free_map s"
    "free_map_file s' = free_map_file s" "files s' = files s" "dirs s' = dirs s" "scratch s' = scratch s"
    "geometry (blocks s') = geometry (blocks s)" "next_ptr s \<le> next_ptr s'" "allocs s = [] \<Longrightarrow> allocs s' = []"
    "all_blocks s' = all_blocks s" "block_by_role s' = block_by_role s"
  using assms by (auto simp: quiet_def)

lemma quiet_malloc:
  assumes "malloc s = (p, s')"
  shows "quiet s s'" "disk s' = disk s" "allocs s = [] \<Longrightarrow> p = next_ptr s" "p = NULL \<or> p = next_ptr s \<and> next_ptr s' = next_ptr s + 1"
  using assms
  by (auto simp: malloc_def disk_def Let_def drop_Suc split: if_splits
      intro!: quietI [where B = "blocks s" and k = 1 and n = "next_ptr s'"])

lemma disk_lengths:
  assumes "disk s = Some ss"
  shows "\<forall>d \<in> set ss. length d = 512" "length ss \<le> 268435456" "length (concat ss) = 512 * length ss"
  using medium_lengths(2,3) [OF assms [unfolded disk_def]] flat_length [of ss 512] by (auto simp: BLOCK_SECTOR_SIZE_def)

lemma disk_read:
  assumes "disk s = Some ss" and "i < length ss"
  shows "\<exists>s'. block_read (fs_device s) i s = Some (ss ! i, s') \<and> quiet s s' \<and> disk s' = Some ss"
proof -
  obtain B where B: "block_read (fs_device s) i s = Some (ss ! i, s\<lparr>blocks := B\<rparr>)" "medium B = medium (blocks s)"
    "geometry B = geometry (blocks s)" using block_read_medium [OF assms [unfolded disk_def]] by blast
  have "quiet s (s\<lparr>blocks := B\<rparr>)" by (rule quietI [where B = B and k = 0 and n = "next_ptr s"]) (simp_all add: B(3))
  then show ?thesis using B assms by (auto simp: disk_def)
qed

lemma disk_write:
  assumes "disk s = Some ss" and "i < length ss" and "length d = 512"
  shows "\<exists>s'. block_write (fs_device s) i d s = Some s' \<and> quiet s s' \<and> disk s' = Some (ss[i := d])"
proof -
  obtain B where B: "block_write (fs_device s) i d s = Some (s\<lparr>blocks := B\<rparr>)" "medium B (fs_device s) = Some (ss[i := d])"
    "geometry B = geometry (blocks s)"
    using block_write_medium_self [OF assms(1,2) [unfolded disk_def], of d] assms(3) by (auto simp: BLOCK_SECTOR_SIZE_def)
  have "quiet s (s\<lparr>blocks := B\<rparr>)" by (rule quietI [where B = B and k = 0 and n = "next_ptr s"]) (simp_all add: B(3))
  then show ?thesis using B assms by (auto simp: disk_def)
qed

lemma nsec_covers:
  assumes "disk_inode_ok n d" and "0 \<le> ofs" "ofs < i_length d"
  shows "i_start d + nat ofs div 512 < n"
proof -
  have "nat ofs div 512 < nsec (i_length d)" using assms(2,3) unfolding nsec_def by linarith
  then show ?thesis using assms(1) by (simp add: disk_inode_ok_def)
qed

lemma contents_bound:
  assumes "disk s = Some ss" and "disk_inode_ok (length ss) d"
  shows "512 * i_start d + nat (i_length d) \<le> length (concat ss)" "length (contents ss d) = nat (i_length d)"
proof -
  have "nat (i_length d) \<le> 512 * nsec (i_length d)" unfolding nsec_def by linarith
  moreover have "512 * i_start d + 512 * nsec (i_length d) \<le> 512 * length ss" using assms(2) by (simp add: disk_inode_ok_def)
  ultimately show "512 * i_start d + nat (i_length d) \<le> length (concat ss)" using disk_lengths(3) [OF assms(1)] by linarith
  then show "length (contents ss d) = nat (i_length d)" by (simp add: contents_def)
qed

text \<open>The integer arithmetic of the loops, on the offsets that occur.\<close>

lemma chunk_at:
  assumes "disk_inode_ok n (i_data ino)" and "n \<le> 268435456" and "0 \<le> ofs" "ofs < 2147483648"
  shows "ofs < i_length (i_data ino) \<Longrightarrow> byte_to_sector ino ofs = i_start (i_data ino) + nat ofs div 512"
    and "c_mod ofs 512 = int (nat ofs mod 512)"
    and "ofs < i_length (i_data ino) \<Longrightarrow> chunk_size ino sz ofs
      = min sz (min (i_length (i_data ino) - ofs) (512 - int (nat ofs mod 512)))"
    and "i_length (i_data ino) \<le> ofs \<Longrightarrow> chunk_size ino sz ofs \<le> 0"
proof -
  show m: "c_mod ofs 512 = int (nat ofs mod 512)" using assms(3) by (simp add: c_mod_nonneg nat_mod_distrib zmod_int)
  have w: "wrap_s32 (i_length (i_data ino) - ofs) = i_length (i_data ino) - ofs"
    using assms by (intro wrap_s32_id) (auto simp: disk_inode_ok_def)
  show "ofs < i_length (i_data ino) \<Longrightarrow> chunk_size ino sz ofs
      = min sz (min (i_length (i_data ino) - ofs) (512 - int (nat ofs mod 512)))"
    by (auto simp: chunk_size_def inode_length_def w m Let_def min_def)
  show "i_length (i_data ino) \<le> ofs \<Longrightarrow> chunk_size ino sz ofs \<le> 0"
    by (auto simp: chunk_size_def inode_length_def w m Let_def)
  assume "ofs < i_length (i_data ino)"
  then have "i_start (i_data ino) + nat ofs div 512 < n" using nsec_covers [OF assms(1,3)] by simp
  moreover have "c_div ofs 512 = int (nat ofs div 512)" using assms(3) by (simp add: c_div_nonneg nat_div_distrib zdiv_int)
  ultimately show "byte_to_sector ino ofs = i_start (i_data ino) + nat ofs div 512"
    using \<open>ofs < i_length (i_data ino)\<close> assms(2) by (simp add: byte_to_sector_def wrap_u32_id nat_add_distrib)
qed

section \<open>Reading\<close>

text \<open>
  What a read may return: a range of the contents. It is short of the request at the end of the
  data, or when no bounce buffer could be allocated.
\<close>

definition read_range :: "byte list \<Rightarrow> int \<Rightarrow> int \<Rightarrow> bool \<Rightarrow> byte list \<Rightarrow> bool" where
  "read_range c sz ofs exact bs \<longleftrightarrow> bs = take (length bs) (drop (nat ofs) c) \<and> length bs \<le> nat sz
     \<and> (exact \<longrightarrow> bs = take (nat sz) (drop (nat ofs) c))"

lemma read_range_Nil: "sz \<le> 0 \<or> int (length c) \<le> ofs \<or> \<not> exact \<Longrightarrow> read_range c sz ofs exact []"
  by (auto simp: read_range_def)

lemma read_range_step:
  assumes "read_range c (sz - int n) (ofs + int n) exact bs" and "0 \<le> ofs" and "int n \<le> sz" and "nat ofs + n \<le> length c"
  shows "read_range c sz ofs exact (take n (drop (nat ofs) c) @ bs)"
proof -
  have o: "nat (ofs + int n) = n + nat ofs" "nat (sz - int n) = nat sz - n" using assms(2,3) by auto
  have l: "length (take n (drop (nat ofs) c)) = n" using assms(4) by simp
  have t: "take n (drop (nat ofs) c) @ take m (drop (n + nat ofs) c) = take (n + m) (drop (nat ofs) c)" for m
    by (simp add: take_add)
  have z: "n + (nat sz - n) = nat sz" using assms(3) by auto
  have r: "bs = take (length bs) (drop (n + nat ofs) c)" "length bs \<le> nat sz - n"
    "exact \<Longrightarrow> bs = take (nat sz - n) (drop (n + nat ofs) c)"
    using assms(1) unfolding read_range_def o by auto
  have lb: "length (take n (drop (nat ofs) c) @ bs) = n + length bs" using l by (simp del: length_take)
  have "take n (drop (nat ofs) c) @ bs = take (n + length bs) (drop (nat ofs) c)" using t [of "length bs"] r(1) by simp
  moreover have "take n (drop (nat ofs) c) @ bs = take (nat sz) (drop (nat ofs) c)" if "exact"
    using t [of "nat sz - n"] r(3) [OF that] z by simp
  moreover have "n + length bs \<le> nat sz" using r(2) z by linarith
  ultimately show ?thesis unfolding read_range_def lb by blast
qed

lemma read_loop_range:
  assumes "disk s = Some ss" and "inodes s p = Some ino" and "disk_inode_ok (length ss) (i_data ino)" and "0 \<le> ofs" "ofs < 2147483648"
    and "0 < next_ptr s"
  shows "\<exists>bs s'. read_loop p sz ofs bounce acc s = Some (acc @ bs, s') \<and> quiet s s' \<and> disk s' = Some ss
    \<and> read_range (contents ss (i_data ino)) sz ofs (allocs s = []) bs"
  using assms
proof (induction "nat sz" arbitrary: sz ofs bounce acc s rule: less_induct)
  case less
  let ?d = "i_data ino" and ?c = "contents ss (i_data ino)"
  note len = disk_lengths [OF less.prems(1)] and cb = contents_bound [OF less.prems(1,3)]
  note ch = chunk_at [OF less.prems(3) len(2) less.prems(4,5)]
  show ?case
  proof (cases "0 < sz \<and> ofs < i_length ?d")
    case False
    then have "read_range ?c sz ofs (allocs s = []) []" using cb(2) less.prems(4) by (intro read_range_Nil) auto
    moreover have "read_loop p sz ofs bounce acc s = Some (acc, s)"
    proof (cases "0 < sz")
      case True
      then have "chunk_size ino sz ofs \<le> 0" using False ch(4) by simp
      then show ?thesis using less.prems(2) by (subst read_loop.simps) (simp add: Let_def)
    qed (subst read_loop.simps, simp)
    ultimately show ?thesis using less.prems(1) by auto
  next
    case True
    define n where "n = nat (chunk_size ino sz ofs)"
    define i where "i = i_start ?d + nat ofs div 512"
    define a where "a = nat ofs mod 512"
    have "a < 512" by (simp add: a_def)
    then have n: "chunk_size ino sz ofs = int n" "0 < n" "int n \<le> sz" "a + n \<le> 512" "ofs + int n \<le> i_length ?d"
      using ch(3) True by (auto simp: n_def a_def [symmetric])
    have i: "byte_to_sector ino ofs = i" "i < length ss" using ch(1) True nsec_covers [OF less.prems(3,4)] by (auto simp: i_def)
    have pos: "512 * i + a = 512 * i_start ?d + nat ofs" by (simp add: i_def a_def)
    have on: "nat ofs + n \<le> nat (i_length ?d)" using n(5) less.prems(4) by linarith
    have piece: "take n (drop a (ss ! i)) = take n (drop (nat ofs) ?c)"
      using flat_piece [OF len(1) i(2) n(4)] on unfolding contents_def pos
      by (simp add: drop_take add.commute min_def)
    have IH: "\<exists>bs s'. read_loop p (sz - int n) (ofs + int n) b (acc @ take n (drop (nat ofs) ?c)) s1
        = Some (acc @ take n (drop (nat ofs) ?c) @ bs, s') \<and> quiet s s' \<and> disk s' = Some ss
        \<and> read_range ?c sz ofs (allocs s = []) (take n (drop (nat ofs) ?c) @ bs)"
      if s1: "quiet s s1" "disk s1 = Some ss" for b s1
    proof -
      have "nat (sz - int n) < nat sz" using n(2,3) by linarith
      moreover have "inodes s1 p = Some ino" using quiet_fields(2) [OF s1(1)] less.prems(2) by simp
      moreover have "0 \<le> ofs + int n" "ofs + int n < 2147483648" using n(5) less.prems(3,4) by (auto simp: disk_inode_ok_def)
      moreover have "0 < next_ptr s1" using less.prems(6) quiet_fields(10) [OF s1(1)] by simp
      ultimately obtain bs s' where b: "read_loop p (sz - int n) (ofs + int n) b (acc @ take n (drop (nat ofs) ?c)) s1
          = Some ((acc @ take n (drop (nat ofs) ?c)) @ bs, s')" "quiet s1 s'" "disk s' = Some ss"
        "read_range ?c (sz - int n) (ofs + int n) (allocs s1 = []) bs"
        using less.hyps [of "sz - int n" s1 "ofs + int n"] s1(2) less.prems(3) by blast
      have "read_range ?c (sz - int n) (ofs + int n) (allocs s = []) bs"
        using b(4) quiet_fields(11) [OF s1(1)] by (auto simp: read_range_def)
      from read_range_step [OF this less.prems(4) n(3)] on cb(2) show ?thesis
        using b quiet_trans [OF s1(1) b(2)] by auto
    qed
    show ?thesis
    proof (cases "a = 0 \<and> n = 512")
      case full: True
      obtain s1 where s1: "block_read (fs_device s) i s = Some (ss ! i, s1)" "quiet s s1" "disk s1 = Some ss"
        using disk_read [OF less.prems(1) i(2)] by blast
      have "ss ! i = take n (drop (nat ofs) ?c)" using piece full len(1) i(2) by simp
      then have "read_loop p sz ofs bounce acc s
          = read_loop p (sz - int n) (ofs + int n) bounce (acc @ take n (drop (nat ofs) ?c)) s1"
        using True n(1,2) i(1) ch(2) less.prems(2) s1(1) full
        by (subst read_loop.simps) (simp add: Let_def a_def [symmetric])
      then show ?thesis using IH [OF s1(2,3), of bounce] by auto
    next
      case False
      obtain b s1 where b: "(if bounce then (1, s) else malloc s) = (b, s1)" by fastforce
      have s1: "quiet s s1" "disk s1 = Some ss" "b = NULL \<Longrightarrow> allocs s \<noteq> []"
        using b quiet_malloc [of s b s1] less.prems(1,6) by (auto split: if_splits)
      show ?thesis
      proof (cases "b = NULL")
        case True
        have "read_loop p sz ofs bounce acc s = Some (acc, s1)"
          using True \<open>0 < sz \<and> ofs < i_length ?d\<close> False n(1,2) i(1) ch(2) less.prems(2) b
          by (subst read_loop.simps) (auto simp: Let_def a_def [symmetric])
        then show ?thesis using s1 True read_range_Nil [of sz ?c ofs False] by auto
      next
        case nz: False
        obtain s2 where s2: "block_read (fs_device s1) i s1 = Some (ss ! i, s2)" "quiet s1 s2" "disk s2 = Some ss"
          using disk_read [OF s1(2) i(2)] by blast
        have "read_loop p sz ofs bounce acc s
            = read_loop p (sz - int n) (ofs + int n) True (acc @ take n (drop (nat ofs) ?c)) s2"
          using nz True False n(1,2,4) i(1) ch(2) less.prems(2) b s2(1) piece
          by (subst read_loop.simps) (auto simp: Let_def a_def [symmetric])
        then show ?thesis using IH [OF quiet_trans [OF s1(1) s2(2)] s2(3), of True] by auto
      qed
    qed
  qed
qed

lemma inode_read_at_range:
  assumes "disk s = Some ss" and "inodes s p = Some ino" and "disk_inode_ok (length ss) (i_data ino)" and "0 \<le> ofs" "ofs < 2147483648"
    and "0 < next_ptr s"
  shows "\<exists>bs s'. inode_read_at p sz ofs s = Some (bs, s') \<and> quiet s s' \<and> disk s' = Some ss
    \<and> read_range (contents ss (i_data ino)) sz ofs (allocs s = []) bs"
  using read_loop_range [OF assms, of sz False "[]"] by (simp add: inode_read_at_def)

section \<open>Writing\<close>

text \<open>How many bytes a write may store: as many as fit, or fewer when there is no bounce buffer.\<close>

definition write_count :: "int \<Rightarrow> int \<Rightarrow> int \<Rightarrow> bool \<Rightarrow> nat \<Rightarrow> bool" where
  "write_count len sz ofs exact w \<longleftrightarrow> int w \<le> max 0 sz \<and> (w = 0 \<or> ofs + int w \<le> len)
     \<and> (exact \<longrightarrow> int w = max 0 (min sz (len - ofs)))"

lemma write_loop_range:
  assumes "disk s = Some ss" and "inodes s p = Some ino" and "disk_inode_ok (length ss) (i_data ino)" and "0 \<le> ofs" "ofs < 2147483648"
    and "0 < next_ptr s" and "0 \<le> bw" "bw + sz \<le> int (length buf)"
  shows "\<exists>w s' ss'. write_loop p buf sz ofs bounce bw s = Some (bw + int w, s') \<and> quiet s s' \<and> disk s' = Some ss'
    \<and> length ss' = length ss \<and> write_count (i_length (i_data ino)) sz ofs (allocs s = []) w
    \<and> concat ss' = overwrite (concat ss) (512 * i_start (i_data ino) + nat ofs) (take w (drop (nat bw) buf))"
  using assms
proof (induction "nat sz" arbitrary: sz ofs bounce bw s ss rule: less_induct)
  case less
  let ?d = "i_data ino"
  let ?P = "512 * i_start ?d + nat ofs"
  note len = disk_lengths [OF less.prems(1)] and cb = contents_bound [OF less.prems(1,3)]
  note ch = chunk_at [OF less.prems(3) len(2) less.prems(4,5)]
  show ?case
  proof (cases "0 < sz \<and> ofs < i_length ?d")
    case False
    then have "write_count (i_length ?d) sz ofs (allocs s = []) 0" by (auto simp: write_count_def)
    moreover have "write_loop p buf sz ofs bounce bw s = Some (bw, s)"
    proof (cases "0 < sz")
      case True
      then have "chunk_size ino sz ofs \<le> 0" using False ch(4) by simp
      then show ?thesis using less.prems(2) by (subst write_loop.simps) (simp add: Let_def)
    qed (subst write_loop.simps, simp)
    ultimately show ?thesis using less.prems(1) by (intro exI [of _ 0]) auto
  next
    case True
    define n where "n = nat (chunk_size ino sz ofs)"
    define i where "i = i_start ?d + nat ofs div 512"
    define a where "a = nat ofs mod 512"
    define v where "v = take n (drop (nat bw) buf)"
    have "a < 512" by (simp add: a_def)
    then have n: "chunk_size ino sz ofs = int n" "0 < n" "int n \<le> sz" "a + n \<le> 512" "ofs + int n \<le> i_length ?d"
      using ch(3) True by (auto simp: n_def a_def [symmetric])
    have i: "byte_to_sector ino ofs = i" "i < length ss" using ch(1) True nsec_covers [OF less.prems(3,4)] by (auto simp: i_def)
    have pos: "512 * i + a = ?P" by (simp add: i_def a_def)
    have bn: "nat bw + n \<le> length buf" "bw + int n \<le> int (length buf)" using n(3) less.prems(7,8) by linarith+
    have v: "length v = n" using bn(1) by (simp add: v_def)
    have li: "length (ss ! i) = 512" using len(1) i(2) by simp
    let ?S = "ss[i := overwrite (ss ! i) a v]"
    have flat: "concat ?S = overwrite (concat ss) ?P v" using flat_write [OF len(1) i(2), of a v] v n(4) pos by simp
    have ow: "length (overwrite (ss ! i) a v) = 512" "overwrite (ss ! i) a v = take a (ss ! i) @ v @ drop (a + n) (ss ! i)"
      using v n(4) li by (simp_all add: overwrite_def)
    have IH: "\<exists>w s' ss'. write_loop p buf (sz - int n) (ofs + int n) b (bw + int n) s1 = Some (bw + int w, s') \<and> quiet s s'
        \<and> disk s' = Some ss' \<and> length ss' = length ss \<and> write_count (i_length ?d) sz ofs (allocs s = []) w
        \<and> concat ss' = overwrite (concat ss) ?P (take w (drop (nat bw) buf))"
      if s1: "quiet s s1" "disk s1 = Some ?S" for b s1
    proof -
      have h: "nat (sz - int n) < nat sz" "inodes s1 p = Some ino" "disk_inode_ok (length ?S) ?d"
        "0 \<le> ofs + int n" "ofs + int n < 2147483648" "0 < next_ptr s1" "0 \<le> bw + int n"
        "(bw + int n) + (sz - int n) \<le> int (length buf)"
        using n less.prems quiet_fields(2,10) [OF s1(1)] by (auto simp: disk_inode_ok_def)
      obtain w s' ss' where w: "write_loop p buf (sz - int n) (ofs + int n) b (bw + int n) s1 = Some (bw + int n + int w, s')"
        "quiet s1 s'" "disk s' = Some ss'" "length ss' = length ?S"
        "write_count (i_length ?d) (sz - int n) (ofs + int n) (allocs s1 = []) w"
        "concat ss' = overwrite (concat ?S) (512 * i_start ?d + nat (ofs + int n)) (take w (drop (nat (bw + int n)) buf))"
        using less.hyps [OF h(1) s1(2) h(2-8)] by blast
      have o: "nat (ofs + int n) = nat ofs + n" "nat (bw + int n) = n + nat bw" using less.prems(4,7) by auto
      have wn: "int (n + w) \<le> sz" "ofs + int (n + w) \<le> i_length ?d" using w(5) n(3,5) by (auto simp: write_count_def)
      have "?P + length v + length (take w (drop (n + nat bw) buf)) \<le> length (concat ss)"
        using cb(1) wn(2) less.prems(4) v by simp
      then have "concat ss' = overwrite (concat ss) ?P (v @ take w (drop (n + nat bw) buf))"
        using w(6) overwrite_append [of ?P v "take w (drop (n + nat bw) buf)" "concat ss"] v unfolding flat o by (simp add: add.assoc)
      also have "v @ take w (drop (n + nat bw) buf) = take (n + w) (drop (nat bw) buf)" by (simp add: v_def take_add)
      finally have c: "concat ss' = overwrite (concat ss) ?P (take (n + w) (drop (nat bw) buf))" .
      have "write_count (i_length ?d) sz ofs (allocs s = []) (n + w)"
        using w(5) wn quiet_fields(11) [OF s1(1)] n(3,5) unfolding write_count_def by auto
      then show ?thesis
        using w(1,3,4) c quiet_trans [OF s1(1) w(2)] by (intro exI [of _ "n + w"]) (auto simp: algebra_simps)
    qed
    show ?thesis
    proof (cases "a = 0 \<and> n = 512")
      case full: True
      then have "overwrite (ss ! i) a v = v" using v li by (simp add: overwrite_def)
      then obtain s1 where s1: "block_write (fs_device s) i v s = Some s1" "quiet s s1" "disk s1 = Some ?S"
        using disk_write [OF less.prems(1) i(2), of v] v full by auto
      have "write_loop p buf sz ofs bounce bw s
          = write_loop p buf (sz - int n) (ofs + int n) bounce (bw + int n) s1"
        using True n(1,2) i(1) ch(2) less.prems(2) s1(1) full bn(2)
        by (subst write_loop.simps) (simp add: Let_def a_def [symmetric] v_def)
      then show ?thesis using IH [OF s1(2,3), of bounce] by simp
    next
      case False
      obtain b s1 where b: "(if bounce then (1, s) else malloc s) = (b, s1)" by fastforce
      have s1: "quiet s s1" "disk s1 = Some ss" "b = NULL \<Longrightarrow> allocs s \<noteq> []"
        using b quiet_malloc [of s b s1] less.prems(1,6) by (auto split: if_splits)
      show ?thesis
      proof (cases "b = NULL")
        case nb: True
        have "write_loop p buf sz ofs bounce bw s = Some (bw, s1)"
          using nb True False n(1,2) i(1) ch(2) less.prems(2) b
          by (subst write_loop.simps) (auto simp: Let_def a_def [symmetric])
        then show ?thesis using s1 nb True by (intro exI [of _ 0]) (auto simp: write_count_def)
      next
        case nz: False
        obtain s2 where s2: "block_read (fs_device s1) i s1 = Some (ss ! i, s2)" "quiet s1 s2" "disk s2 = Some ss"
          using disk_read [OF s1(2) i(2)] by blast
        obtain s3 where s3: "block_write (fs_device s2) i (overwrite (ss ! i) a v) s2 = Some s3" "quiet s2 s3" "disk s3 = Some ?S"
          using disk_write [OF s2(3) i(2) ow(1)] by blast
        have part: "0 < a \<or> int n < 512 - int a" using False n(4) by auto
        have "write_loop p buf sz ofs bounce bw s
            = write_loop p buf (sz - int n) (ofs + int n) True (bw + int n) s3"
          using nz True False n(1,2,4) i(1) ch(2) less.prems(2) b s2(1) s3(1) part bn(2) ow(2)
          by (subst write_loop.simps) (auto simp: Let_def a_def [symmetric] v_def nat_add_distrib)
        then show ?thesis
          using IH [OF quiet_trans [OF s1(1) quiet_trans [OF s2(2) s3(2)]] s3(3), of True] by simp
      qed
    qed
  qed
qed

definition data_sectors :: "inode_disk \<Rightarrow> nat set" where
  "data_sectors d = {i_start d ..< i_start d + nsec (i_length d)}"

lemma length_le_nsec: "nat len \<le> 512 * nsec len"
  unfolding nsec_def by linarith

lemma nsec_0: "0 \<le> len \<Longrightarrow> nsec len = 0 \<longleftrightarrow> len = 0"
  unfolding nsec_def by linarith

text \<open>Overwriting inside the data of one inode leaves all other sectors and all disjoint data alone.\<close>

lemma overwrite_data:
  assumes ss: "disk s = Some ss" and ss': "disk s' = Some ss'" and l: "length ss' = length ss" and d: "disk_inode_ok (length ss) d"
    and c: "concat ss' = overwrite (concat ss) (512 * i_start d + ofs) v" and b: "v = [] \<or> ofs + length v \<le> nat (i_length d)"
  shows "contents ss' d = overwrite (contents ss d) ofs v"
    and "j < length ss \<Longrightarrow> j \<notin> data_sectors d \<Longrightarrow> ss' ! j = ss ! j"
    and "disk_inode_ok (length ss) e \<Longrightarrow> data_sectors e \<inter> data_sectors d = {} \<Longrightarrow> contents ss' e = contents ss e"
proof -
  note cb = contents_bound [OF ss d]
  have v: "v = [] \<or> 512 * i_start d + ofs + length v \<le> length (concat ss)" using cb(1) b by auto
  show "contents ss' d = overwrite (contents ss d) ofs v"
    using range_overwrite_inside [OF cb(1), of ofs v] b by (auto simp: contents_def c)
  have ln: "ofs + length v \<le> 512 * nsec (i_length d)" if "v \<noteq> []" using b that length_le_nsec [of "i_length d"] by auto
  show "ss' ! j = ss ! j" if j: "j < length ss" "j \<notin> data_sectors d"
  proof (cases "v = []")
    case False
    consider "j < i_start d" | "i_start d + nsec (i_length d) \<le> j" using j(2) by (auto simp: data_sectors_def not_less)
    then have "512 * j + 512 \<le> 512 * i_start d + ofs \<or> 512 * i_start d + ofs + length v \<le> 512 * j"
      using ln [OF False] by cases linarith+
    then show ?thesis
      using range_overwrite [of "512 * i_start d + ofs" v "concat ss"] v False
      by (auto simp: flat_sector [OF disk_lengths(1) [OF ss] j(1)] flat_sector [OF disk_lengths(1) [OF ss'], of j] l j(1) c)
  qed (use c in \<open>simp add: flat_sector [OF disk_lengths(1) [OF ss] j(1)] flat_sector [OF disk_lengths(1) [OF ss'], of j] l j(1)\<close>)
  show "contents ss' e = contents ss e" if e: "disk_inode_ok (length ss) e" "data_sectors e \<inter> data_sectors d = {}"
  proof (cases "v = [] \<or> i_length e = 0")
    case False
    have "0 < length v" using False by simp
    then have "0 < nat (i_length d)" using False b by linarith
    then have "i_length e > 0" "i_length d > 0" using False e(1) by (auto simp: disk_inode_ok_def)
    then have "0 < nsec (i_length e)" "0 < nsec (i_length d)" using nsec_0 by (metis gr0I less_le)+
    then have "i_start e + nsec (i_length e) \<le> i_start d \<or> i_start d + nsec (i_length d) \<le> i_start e"
      using e(2) unfolding data_sectors_def by (auto simp: disjoint_iff not_less)
    then have "512 * i_start e + nat (i_length e) \<le> 512 * i_start d + ofs \<or> 512 * i_start d + ofs + length v \<le> 512 * i_start e"
      using ln False length_le_nsec [of "i_length e"] by auto
    then show ?thesis using range_overwrite [of "512 * i_start d + ofs" v "concat ss"] v False by (auto simp: contents_def c)
  qed (auto simp: contents_def c)
qed

lemma inode_write_at_range:
  assumes "disk s = Some ss" and "inodes s p = Some ino" and "disk_inode_ok (length ss) (i_data ino)" and "0 \<le> ofs" "ofs < 2147483648"
    and "0 < next_ptr s" and "deny_write_cnt ino = 0" and "sz \<le> int (length buf)"
  shows "\<exists>w s' ss'. inode_write_at p buf sz ofs s = Some (int w, s') \<and> quiet s s' \<and> disk s' = Some ss' \<and> length ss' = length ss
    \<and> write_count (i_length (i_data ino)) sz ofs (allocs s = []) w
    \<and> contents ss' (i_data ino) = overwrite (contents ss (i_data ino)) (nat ofs) (take w buf)
    \<and> (\<forall>j < length ss. j \<notin> data_sectors (i_data ino) \<longrightarrow> ss' ! j = ss ! j)
    \<and> (\<forall>e. disk_inode_ok (length ss) e \<and> data_sectors e \<inter> data_sectors (i_data ino) = {} \<longrightarrow> contents ss' e = contents ss e)"
proof -
  let ?d = "i_data ino"
  obtain w s' ss' where w: "write_loop p buf sz ofs False 0 s = Some (0 + int w, s')" "quiet s s'" "disk s' = Some ss'"
    "length ss' = length ss" "write_count (i_length ?d) sz ofs (allocs s = []) w"
    "concat ss' = overwrite (concat ss) (512 * i_start ?d + nat ofs) (take w (drop (nat 0) buf))"
    using write_loop_range [OF assms(1-6), of 0 sz buf False] assms(8) by auto
  have "take w buf = [] \<or> nat ofs + length (take w buf) \<le> nat (i_length ?d)"
    using w(5) assms(4) by (auto simp: write_count_def)
  note o = overwrite_data [OF assms(1) w(3,4) assms(3), of "nat ofs" "take w buf", OF _ this]
  show ?thesis
    using w assms(2,7) o by (intro exI [of _ w] exI [of _ s'] exI [of _ ss']) (auto simp: inode_write_at_def)
qed

lemma inode_write_at_denied:
  "inodes s p = Some ino \<Longrightarrow> deny_write_cnt ino \<noteq> 0 \<Longrightarrow> inode_write_at p buf sz ofs s = Some (0, s)"
  by (simp add: inode_write_at_def)

section \<open>An example\<close>

lemma flat_replicate: "concat (replicate n (replicate m x)) = replicate (n * m) x"
  by (induction n) (simp_all add: replicate_add)

definition ex_inode :: inode where
  "ex_inode = \<lparr>i_sector = 2, open_cnt = 1, removed = False, deny_write_cnt = 0,
     i_data = \<lparr>i_start = 3, i_length = 1000, i_magic = INODE_MAGIC\<rparr>\<rparr>"

definition ex_fs :: "byte list list \<Rightarrow> fs" where
  "ex_fs ss = \<lparr>allocs = [], next_ptr = 100, blocks = blocks (one_disk ss), all_blocks = [5], block_by_role = (\<lambda>_. 5),
     fs_device = 5, inodes = [20 \<mapsto> ex_inode], open_inodes = [20], free_map = \<lparr>bit_cnt = 0, bits = []\<rparr>, free_map_file = 0,
     files = Map.empty, dirs = Map.empty, scratch = replicate 20 0, heap_junk = (\<lambda>_. 0)\<rparr>"

lemma ex_fs_disk: "disk (ex_fs (replicate 8 (replicate 512 0))) = Some (replicate 8 (replicate 512 0))"
  by (simp add: disk_def ex_fs_def medium_def one_disk_def disk_ok_def BLOCK_SECTOR_SIZE_def)

section \<open>Properties\<close>

text \<open>
  C33. Reading and writing an inode is reading and writing a sequence of bytes. A write at any offset
  stores as many bytes of the buffer as lie before the end of the data, overwrites exactly that range
  of the contents, and leaves the contents of every inode with other data sectors unchanged; a later
  read of any range returns the overwritten contents. Both return whatever the position of the
  request relative to the sectors.
\<close>

theorem inode_write_read:
  fixes buf :: "byte list" and ofs :: int
  assumes "disk s = Some ss" and "inodes s p = Some ino" and "disk_inode_ok (length ss) (i_data ino)" and "deny_write_cnt ino = 0"
    and "0 < next_ptr s" "allocs s = []" and "0 \<le> ofs" "ofs < 2147483648"
  defines "n \<equiv> min (length buf) (nat (i_length (i_data ino)) - nat ofs)"
  defines "new \<equiv> overwrite (contents ss (i_data ino)) (nat ofs) (take n buf)"
  shows "\<exists>s' ss'. inode_write_at p buf (int (length buf)) ofs s = Some (int n, s') \<and> disk s' = Some ss'
    \<and> contents ss' (i_data ino) = new
    \<and> (\<forall>e. disk_inode_ok (length ss) e \<and> data_sectors e \<inter> data_sectors (i_data ino) = {} \<longrightarrow> contents ss' e = contents ss e)
    \<and> (\<forall>sz o'. 0 \<le> o' \<and> o' < 2147483648 \<longrightarrow> (\<exists>s''. inode_read_at p sz o' s' = Some (take (nat sz) (drop (nat o') new), s'')))"
proof -
  obtain w s' ss' where w: "inode_write_at p buf (int (length buf)) ofs s = Some (int w, s')" "quiet s s'" "disk s' = Some ss'"
    "length ss' = length ss" "write_count (i_length (i_data ino)) (int (length buf)) ofs (allocs s = []) w"
    "contents ss' (i_data ino) = overwrite (contents ss (i_data ino)) (nat ofs) (take w buf)"
    "\<forall>e. disk_inode_ok (length ss) e \<and> data_sectors e \<inter> data_sectors (i_data ino) = {} \<longrightarrow> contents ss' e = contents ss e"
    using inode_write_at_range [OF assms(1-3,7,8,5,4) order.refl, of buf] by blast
  have wn: "w = n" using w(5) assms(3,6,7) by (auto simp: write_count_def n_def disk_inode_ok_def)
  have "\<exists>s''. inode_read_at p sz o' s' = Some (take (nat sz) (drop (nat o') new), s'')" if "0 \<le> o'" "o' < 2147483648" for sz o'
  proof -
    have "inodes s' p = Some ino" "0 < next_ptr s'" "allocs s' = []" using quiet_fields(2,10,11) [OF w(2)] assms(2,5,6) by auto
    then show ?thesis
      using inode_read_at_range [OF w(3) _ _ that, of p ino sz] assms(3) w(4,6) wn by (auto simp: read_range_def new_def)
  qed
  then show ?thesis using w wn by (auto simp: new_def)
qed

theorem inode_write_read_witness:
  "\<exists>s'. inode_write_at 20 (replicate 600 7) 600 510 (ex_fs (replicate 8 (replicate 512 0))) = Some (490, s')
     \<and> (\<exists>s''. inode_read_at 20 3 509 s' = Some ([0, 7, 7], s''))"
proof -
  let ?ss = "replicate 8 (replicate 512 0) :: byte list list" and ?b = "replicate 600 7 :: byte list"
  have i: "inodes (ex_fs ?ss) 20 = Some ex_inode" "0 < next_ptr (ex_fs ?ss)" "allocs (ex_fs ?ss) = []"
    by (simp_all add: ex_fs_def)
  have d: "disk_inode_ok (length ?ss) (i_data ex_inode)" "deny_write_cnt ex_inode = 0"
    by (simp_all add: disk_inode_ok_def ex_inode_def nsec_def)
  have c: "contents ?ss (i_data ex_inode) = replicate 1000 0"
    by (simp add: contents_def ex_inode_def flat_replicate)
  have n: "min (length ?b) (nat (i_length (i_data ex_inode)) - nat 510) = 490" by (simp add: ex_inode_def)
  have t: "take (nat 3) (drop (nat 509) (overwrite (replicate 1000 0) (nat 510) (take 490 ?b))) = [0, 7, 7]"
    by (simp add: overwrite_def numeral_2_eq_2)
  from inode_write_read [OF ex_fs_disk i(1) d i(2,3), of 510 ?b] obtain s' where
    w: "inode_write_at 20 ?b (int (length ?b)) 510 (ex_fs ?ss) = Some (490, s')"
    "\<And>sz o'. 0 \<le> o' \<and> o' < 2147483648 \<Longrightarrow> (\<exists>s''. inode_read_at 20 sz o' s'
        = Some (take (nat sz) (drop (nat o') (overwrite (replicate 1000 0) (nat 510) (take 490 ?b))), s''))"
    unfolding n c by auto
  show ?thesis using w(1) w(2) [of 509 3] t by (intro exI [of _ s']) auto
qed

end
