(* ===== verification/Free_Map.thy ===== *)
theory Free_Map
  imports Inode
begin

text \<open>
  The free map (\<^verbatim>\<open>filesys/free-map.c\<close>) with the file input and output of bitmaps
  (\<^verbatim>\<open>lib/kernel/bitmap.c\<close>), the operations of \<^verbatim>\<open>filesys/inode.c\<close> that allocate and release sectors,
  and files (\<^verbatim>\<open>filesys/file.c\<close>). The modules call each other, so their operations appear here in
  the order of their dependencies. A pointer result of 0 is the null pointer.
\<close>

section \<open>Positioned input and output of files\<close>

definition file_read_at :: "addr \<Rightarrow> int \<Rightarrow> int \<Rightarrow> fs \<Rightarrow> (byte list \<times> fs) option" where
  "file_read_at f sz ofs s = do { fl \<leftarrow> files s f; inode_read_at (f_inode fl) sz ofs s }"

definition file_write_at :: "addr \<Rightarrow> byte list \<Rightarrow> int \<Rightarrow> int \<Rightarrow> fs \<Rightarrow> (int \<times> fs) option" where
  "file_write_at f buf sz ofs s = do { fl \<leftarrow> files s f; inode_write_at (f_inode fl) buf sz ofs s }"

section \<open>Bitmaps in files\<close>

definition words_bytes :: "elem_type list \<Rightarrow> byte list" where
  "words_bytes ws = concat (map (\<lambda>w. to_le 4 (unat w)) ws)"

fun bytes_words :: "byte list \<Rightarrow> elem_type list" where
  "bytes_words (a # b # c # d # bs) = word_of_nat (of_le [a, b, c, d]) # bytes_words bs"
| "bytes_words _ = []"

text \<open>The bytes that were read replace the first bytes of the element array.\<close>

definition bitmap_read :: "bitmap \<Rightarrow> addr \<Rightarrow> fs \<Rightarrow> (bool \<times> bitmap \<times> fs) option" where
  "bitmap_read b f s =
     (if bit_cnt b > 0 then
        (let sz = wrap_s32 (int (byte_cnt (bit_cnt b))) in do {
           (bs, s1) \<leftarrow> file_read_at f sz 0 s;
           (let ws = bytes_words (bs @ drop (length bs) (words_bytes (bits b))); i = elem_cnt (bit_cnt b) - 1 in do {
              ASSERT (i < length ws);
              Some (int (length bs) = sz, b\<lparr>bits := ws[i := ws ! i AND last_mask b]\<rparr>, s1) }) })
      else Some (True, b, s))"

definition bitmap_write :: "bitmap \<Rightarrow> addr \<Rightarrow> fs \<Rightarrow> (bool \<times> fs) option" where
  "bitmap_write b f s = (let sz = wrap_s32 (int (byte_cnt (bit_cnt b))) in do {
     (n, s1) \<leftarrow> file_write_at f (words_bytes (bits b)) sz 0 s;
     Some (n = sz, s1) })"

section \<open>Allocating and releasing sectors\<close>

definition FREE_MAP_SECTOR :: nat where "FREE_MAP_SECTOR = 0"

definition ROOT_DIR_SECTOR :: nat where "ROOT_DIR_SECTOR = 1"

definition free_map_init :: "fs \<Rightarrow> fs option" where
  "free_map_init s = do {
     n \<leftarrow> block_size (fs_device s) s;
     (case malloc s of (p, s1) \<Rightarrow>
      (case (if p \<noteq> NULL \<and> byte_cnt n \<noteq> 0 then malloc s1 else (NULL, s1)) of (q, s2) \<Rightarrow> do {
        r \<leftarrow> bitmap_create (p \<noteq> NULL) (if q \<noteq> NULL then Some (map (heap_junk s) [0..<elem_cnt n]) else None) n;
        b \<leftarrow> r;
        b1 \<leftarrow> bitmap_mark b FREE_MAP_SECTOR;
        b2 \<leftarrow> bitmap_mark b1 ROOT_DIR_SECTOR;
        Some (s2\<lparr>free_map := b2\<rparr>) })) }"

text \<open>The result is the allocated sector that the code stores through its pointer argument, if any.\<close>

definition free_map_allocate :: "nat \<Rightarrow> fs \<Rightarrow> (nat option \<times> fs) option" where
  "free_map_allocate cnt s = do {
     (sec, b) \<leftarrow> bitmap_scan_and_flip (free_map s) 0 cnt False;
     (let s1 = s\<lparr>free_map := b\<rparr> in do {
        (sec', s') \<leftarrow> (if sec \<noteq> BITMAP_ERROR \<and> free_map_file s1 \<noteq> NULL then do {
             (ok, s2) \<leftarrow> bitmap_write (free_map s1) (free_map_file s1) s1;
             if \<not> ok then do {
               b1 \<leftarrow> bitmap_set_multiple (free_map s2) sec cnt False;
               Some (BITMAP_ERROR, s2\<lparr>free_map := b1\<rparr>) }
             else Some (sec, s2) }
           else Some (sec, s1));
        Some (if sec' \<noteq> BITMAP_ERROR then Some sec' else None, s') }) }"

definition free_map_release :: "nat \<Rightarrow> nat \<Rightarrow> fs \<Rightarrow> fs option" where
  "free_map_release sec cnt s = do {
     all \<leftarrow> bitmap_all (free_map s) sec cnt;
     ASSERT all;
     b \<leftarrow> bitmap_set_multiple (free_map s) sec cnt False;
     (_, s1) \<leftarrow> bitmap_write b (free_map_file s) (s\<lparr>free_map := b\<rparr>);
     Some s1 }"

section \<open>Creating and closing inodes\<close>

fun zero_loop :: "nat \<Rightarrow> nat \<Rightarrow> fs \<Rightarrow> fs option" where
  "zero_loop sec 0 s = Some s"
| "zero_loop sec (Suc n) s = do {
     s1 \<leftarrow> block_write (fs_device s) sec (replicate 512 0) s;
     zero_loop (size_add sec 1) n s1 }"

definition inode_create :: "nat \<Rightarrow> int \<Rightarrow> fs \<Rightarrow> (bool \<times> fs) option" where
  "inode_create sec len s = do {
     ASSERT (0 \<le> len);
     (case malloc s of (p, s1) \<Rightarrow>
       if p = NULL then Some (False, s1)
       else (let sectors = bytes_to_sectors len in do {
         (r, s2) \<leftarrow> free_map_allocate sectors s1;
         (case r of
            None \<Rightarrow> Some (False, s2)
          | Some st \<Rightarrow> do {
              s3 \<leftarrow> block_write (fs_device s2) sec (inode_encode \<lparr>i_start = st, i_length = len, i_magic = INODE_MAGIC\<rparr>) s2;
              s4 \<leftarrow> zero_loop st sectors s3;
              Some (True, s4) }) })) }"

definition inode_close :: "addr \<Rightarrow> fs \<Rightarrow> fs option" where
  "inode_close p s =
     (if p = NULL then Some s
      else do {
        s1 \<leftarrow> upd_inode p (open_cnt_update (\<lambda>n. n - 1)) s;
        ino \<leftarrow> inodes s1 p;
        if open_cnt ino = 0 then do {
          ASSERT (p \<in> set (open_inodes s1));
          s4 \<leftarrow> (let s2 = s1\<lparr>open_inodes := remove1 p (open_inodes s1)\<rparr> in
            if removed ino then do {
              s3 \<leftarrow> free_map_release (i_sector ino) 1 s2;
              free_map_release (i_start (i_data ino)) (bytes_to_sectors (i_length (i_data ino))) s3 }
            else Some s2);
          Some (s4\<lparr>inodes := (inodes s4)(p := None)\<rparr>) }
        else Some s1 })"

section \<open>Files\<close>

definition file_open :: "addr \<Rightarrow> fs \<Rightarrow> (addr \<times> fs) option" where
  "file_open ip s = (case malloc s of (f, s1) \<Rightarrow>
     if ip \<noteq> NULL \<and> f \<noteq> NULL
     then Some (f, s1\<lparr>files := (files s1)(f \<mapsto> \<lparr>f_inode = ip, f_pos = 0, deny_write = False\<rparr>)\<rparr>)
     else do { s2 \<leftarrow> inode_close ip s1; Some (NULL, s2) })"

definition file_reopen :: "addr \<Rightarrow> fs \<Rightarrow> (addr \<times> fs) option" where
  "file_reopen f s = do {
     fl \<leftarrow> files s f;
     (ip, s1) \<leftarrow> inode_reopen (f_inode fl) s;
     file_open ip s1 }"

definition file_deny_write :: "addr \<Rightarrow> fs \<Rightarrow> fs option" where
  "file_deny_write f s = do {
     ASSERT (f \<noteq> NULL);
     fl \<leftarrow> files s f;
     if \<not> deny_write fl
     then inode_deny_write (f_inode fl) (s\<lparr>files := (files s)(f \<mapsto> fl\<lparr>deny_write := True\<rparr>)\<rparr>)
     else Some s }"

definition file_allow_write :: "addr \<Rightarrow> fs \<Rightarrow> fs option" where
  "file_allow_write f s = do {
     ASSERT (f \<noteq> NULL);
     fl \<leftarrow> files s f;
     if deny_write fl
     then inode_allow_write (f_inode fl) (s\<lparr>files := (files s)(f \<mapsto> fl\<lparr>deny_write := False\<rparr>)\<rparr>)
     else Some s }"

definition file_close :: "addr \<Rightarrow> fs \<Rightarrow> fs option" where
  "file_close f s =
     (if f \<noteq> NULL then do {
        s1 \<leftarrow> file_allow_write f s;
        fl \<leftarrow> files s1 f;
        s2 \<leftarrow> inode_close (f_inode fl) s1;
        Some (s2\<lparr>files := (files s2)(f := None)\<rparr>) }
      else Some s)"

definition file_get_inode :: "addr \<Rightarrow> fs \<Rightarrow> addr option" where
  "file_get_inode f s = map_option f_inode (files s f)"

definition file_advance :: "addr \<Rightarrow> int \<Rightarrow> fs \<Rightarrow> fs option" where
  "file_advance f n s = do {
     fl \<leftarrow> files s f;
     Some (s\<lparr>files := (files s)(f \<mapsto> fl\<lparr>f_pos := f_pos fl + n\<rparr>)\<rparr>) }"

definition file_read :: "addr \<Rightarrow> int \<Rightarrow> fs \<Rightarrow> (byte list \<times> fs) option" where
  "file_read f sz s = do {
     fl \<leftarrow> files s f;
     (bs, s1) \<leftarrow> inode_read_at (f_inode fl) sz (f_pos fl) s;
     s2 \<leftarrow> file_advance f (int (length bs)) s1;
     Some (bs, s2) }"

definition file_write :: "addr \<Rightarrow> byte list \<Rightarrow> int \<Rightarrow> fs \<Rightarrow> (int \<times> fs) option" where
  "file_write f buf sz s = do {
     fl \<leftarrow> files s f;
     (n, s1) \<leftarrow> inode_write_at (f_inode fl) buf sz (f_pos fl) s;
     s2 \<leftarrow> file_advance f n s1;
     Some (n, s2) }"

definition file_length :: "addr \<Rightarrow> fs \<Rightarrow> int option" where
  "file_length f s = do {
     ASSERT (f \<noteq> NULL);
     fl \<leftarrow> files s f;
     ino \<leftarrow> inodes s (f_inode fl);
     Some (inode_length ino) }"

definition file_seek :: "addr \<Rightarrow> int \<Rightarrow> fs \<Rightarrow> fs option" where
  "file_seek f new_pos s = do {
     ASSERT (f \<noteq> NULL);
     ASSERT (new_pos \<ge> 0);
     fl \<leftarrow> files s f;
     Some (s\<lparr>files := (files s)(f \<mapsto> fl\<lparr>f_pos := new_pos\<rparr>)\<rparr>) }"

definition file_tell :: "addr \<Rightarrow> fs \<Rightarrow> int option" where
  "file_tell f s = do { ASSERT (f \<noteq> NULL); map_option f_pos (files s f) }"

section \<open>The free map file\<close>

definition free_map_open :: "fs \<Rightarrow> fs option" where
  "free_map_open s = do {
     (ip, s1) \<leftarrow> inode_open FREE_MAP_SECTOR s;
     (f, s2) \<leftarrow> file_open ip s1;
     ASSERT (f \<noteq> NULL);
     (ok, b, s3) \<leftarrow> bitmap_read (free_map s2) f (s2\<lparr>free_map_file := f\<rparr>);
     ASSERT ok;
     Some (s3\<lparr>free_map := b\<rparr>) }"

definition free_map_close :: "fs \<Rightarrow> fs option" where
  "free_map_close s = file_close (free_map_file s) s"

definition free_map_create :: "fs \<Rightarrow> fs option" where
  "free_map_create s = do {
     (ok, s1) \<leftarrow> inode_create FREE_MAP_SECTOR (wrap_s32 (int (bitmap_file_size (free_map s)))) s;
     ASSERT ok;
     (ip, s2) \<leftarrow> inode_open FREE_MAP_SECTOR s1;
     (f, s3) \<leftarrow> file_open ip s2;
     ASSERT (f \<noteq> NULL);
     (ok, s4) \<leftarrow> bitmap_write (free_map s3) f (s3\<lparr>free_map_file := f\<rparr>);
     ASSERT ok;
     Some s4 }"

end
