(* ===== verification/Directory.thy ===== *)
theory Directory
  imports Free_Map
begin

text \<open>
  Directories (\<^verbatim>\<open>filesys/directory.c\<close>) and the file system interface (\<^verbatim>\<open>filesys/filesys.c\<close>). File
  names are sequences of bytes other than 0. A directory entry is its 20 bytes: the sector of the
  inode, the name with its terminator, and the flag.
\<close>

section \<open>Directory entries\<close>

definition NAME_MAX :: nat where "NAME_MAX = 14"

definition e_inode_sector :: "byte list \<Rightarrow> nat" where
  "e_inode_sector e = field e 0 4"

definition e_name :: "byte list \<Rightarrow> byte list" where
  "e_name e = take 15 (drop 4 e)"

definition e_in_use :: "byte list \<Rightarrow> bool" where
  "e_in_use e \<longleftrightarrow> e ! 19 \<noteq> 0"

text \<open>Whether \<open>strcmp\<close> finds a string equal to the one stored in some bytes; \<open>None\<close> where it reads past them.\<close>

fun str_eq :: "byte list \<Rightarrow> byte list \<Rightarrow> bool option" where
  "str_eq nm [] = None"
| "str_eq [] (b # bs) = Some (b = 0)"
| "str_eq (c # cs) (b # bs) = (if c = b then str_eq cs bs else Some False)"

text \<open>The string stored in some bytes.\<close>

definition c_string :: "byte list \<Rightarrow> byte list option" where
  "c_string bs = (if 0 \<in> set bs then Some (takeWhile (\<lambda>b. b \<noteq> 0) bs) else None)"

section \<open>Opening and closing\<close>

definition dir_create :: "nat \<Rightarrow> nat \<Rightarrow> fs \<Rightarrow> (bool \<times> fs) option" where
  "dir_create sec entry_cnt s = inode_create sec (wrap_s32 (int (entry_cnt * 20))) s"

definition dir_open :: "addr \<Rightarrow> fs \<Rightarrow> (addr \<times> fs) option" where
  "dir_open ip s = (case malloc s of (d, s1) \<Rightarrow>
     if ip \<noteq> NULL \<and> d \<noteq> NULL
     then Some (d, s1\<lparr>dirs := (dirs s1)(d \<mapsto> \<lparr>d_inode = ip, d_pos = 0\<rparr>)\<rparr>)
     else do { s2 \<leftarrow> inode_close ip s1; Some (NULL, s2) })"

definition dir_open_root :: "fs \<Rightarrow> (addr \<times> fs) option" where
  "dir_open_root s = do { (ip, s1) \<leftarrow> inode_open ROOT_DIR_SECTOR s; dir_open ip s1 }"

definition dir_reopen :: "addr \<Rightarrow> fs \<Rightarrow> (addr \<times> fs) option" where
  "dir_reopen d s = do {
     dr \<leftarrow> dirs s d;
     (ip, s1) \<leftarrow> inode_reopen (d_inode dr) s;
     dir_open ip s1 }"

definition dir_close :: "addr \<Rightarrow> fs \<Rightarrow> fs option" where
  "dir_close d s =
     (if d \<noteq> NULL then do {
        dr \<leftarrow> dirs s d;
        s1 \<leftarrow> inode_close (d_inode dr) s;
        Some (s1\<lparr>dirs := (dirs s1)(d := None)\<rparr>) }
      else Some s)"

definition dir_get_inode :: "addr \<Rightarrow> fs \<Rightarrow> addr option" where
  "dir_get_inode d s = map_option d_inode (dirs s d)"

section \<open>Searching\<close>

partial_function (option) lookup_loop ::
  "addr \<Rightarrow> byte list \<Rightarrow> nat \<Rightarrow> fs \<Rightarrow> ((byte list \<times> nat) option \<times> fs) option" where
  "lookup_loop ip nm ofs s = do {
     (e, s1) \<leftarrow> inode_read_at ip 20 (wrap_s32 (int ofs)) s;
     if length e \<noteq> 20 then Some (None, s1)
     else do {
       found \<leftarrow> (if e_in_use e then str_eq nm (drop 4 e) else Some False);
       if found then Some (Some (e, ofs), s1)
       else lookup_loop ip nm (size_add ofs 20) s1 } }"

definition lookup :: "addr \<Rightarrow> byte list \<Rightarrow> fs \<Rightarrow> ((byte list \<times> nat) option \<times> fs) option" where
  "lookup d nm s = do {
     ASSERT (d \<noteq> NULL);
     dr \<leftarrow> dirs s d;
     lookup_loop (d_inode dr) nm 0 s }"

definition dir_lookup :: "addr \<Rightarrow> byte list \<Rightarrow> fs \<Rightarrow> (addr \<times> fs) option" where
  "dir_lookup d nm s = do {
     ASSERT (d \<noteq> NULL);
     (r, s1) \<leftarrow> lookup d nm s;
     (case r of
        Some (e, _) \<Rightarrow> inode_open (e_inode_sector e) s1
      | None \<Rightarrow> Some (NULL, s1)) }"

section \<open>Adding and removing entries\<close>

text \<open>The loop leaves the offset of the slot and the contents of the local variable \<open>e\<close>.\<close>

partial_function (option) slot_loop :: "addr \<Rightarrow> int \<Rightarrow> byte list \<Rightarrow> fs \<Rightarrow> (int \<times> byte list \<times> fs) option" where
  "slot_loop ip ofs e s = do {
     (bs, s1) \<leftarrow> inode_read_at ip 20 ofs s;
     (let e1 = bs @ drop (length bs) e in
      if length bs \<noteq> 20 then Some (ofs, e1, s1)
      else if \<not> e_in_use e1 then Some (ofs, e1, s1)
      else slot_loop ip (ofs + 20) e1 s1) }"

definition new_entry :: "byte list \<Rightarrow> byte list \<Rightarrow> nat \<Rightarrow> byte list" where
  "new_entry e nm inode_sector = to_le 4 inode_sector @ (nm @ [0] @ drop (length nm + 1) (e_name e)) @ [1]"

definition dir_add :: "addr \<Rightarrow> byte list \<Rightarrow> nat \<Rightarrow> fs \<Rightarrow> (bool \<times> fs) option" where
  "dir_add d nm inode_sector s = do {
     ASSERT (d \<noteq> NULL);
     if nm = [] \<or> length nm > NAME_MAX then Some (False, s)
     else do {
       (r, s1) \<leftarrow> lookup d nm s;
       if r \<noteq> None then Some (False, s1)
       else do {
         dr \<leftarrow> dirs s1 d;
         (ofs, e, s2) \<leftarrow> slot_loop (d_inode dr) 0 (scratch s1) s1;
         (n, s3) \<leftarrow> inode_write_at (d_inode dr) (new_entry e nm inode_sector) 20 ofs s2;
         Some (n = 20, s3) } } }"

definition dir_remove :: "addr \<Rightarrow> byte list \<Rightarrow> fs \<Rightarrow> (bool \<times> fs) option" where
  "dir_remove d nm s = do {
     ASSERT (d \<noteq> NULL);
     (r, s1) \<leftarrow> lookup d nm s;
     (case r of
        None \<Rightarrow> Some (False, s1)
      | Some (e, ofs) \<Rightarrow> do {
          (ip, s2) \<leftarrow> inode_open (e_inode_sector e) s1;
          if ip = NULL then Some (False, s2)
          else do {
            dr \<leftarrow> dirs s2 d;
            (n, s3) \<leftarrow> inode_write_at (d_inode dr) (take 19 e @ [0]) 20 (wrap_s32 (int ofs)) s2;
            if n \<noteq> 20 then do { s4 \<leftarrow> inode_close ip s3; Some (False, s4) }
            else do {
              s4 \<leftarrow> inode_remove ip s3;
              s5 \<leftarrow> inode_close ip s4;
              Some (True, s5) } } }) }"

partial_function (option) dir_readdir :: "addr \<Rightarrow> fs \<Rightarrow> (byte list option \<times> fs) option" where
  "dir_readdir d s = do {
     dr \<leftarrow> dirs s d;
     (e, s1) \<leftarrow> inode_read_at (d_inode dr) 20 (d_pos dr) s;
     if length e \<noteq> 20 then Some (None, s1)
     else (let s2 = s1\<lparr>dirs := (dirs s1)(d \<mapsto> dr\<lparr>d_pos := d_pos dr + 20\<rparr>)\<rparr> in
       if e_in_use e then do {
         nm \<leftarrow> c_string (drop 4 e);
         Some (Some (take NAME_MAX nm), s2) }
       else dir_readdir d s2) }"

section \<open>The file system\<close>

definition do_format :: "fs \<Rightarrow> fs option" where
  "do_format s = do {
     s1 \<leftarrow> free_map_create s;
     (ok, s2) \<leftarrow> dir_create ROOT_DIR_SECTOR 16 s1;
     ASSERT ok;
     free_map_close s2 }"

definition filesys_init :: "bool \<Rightarrow> fs \<Rightarrow> fs option" where
  "filesys_init format s = do {
     p \<leftarrow> block_get_role BLOCK_FILESYS s;
     ASSERT (p \<noteq> NULL);
     s1 \<leftarrow> free_map_init (inode_init (s\<lparr>fs_device := p\<rparr>));
     s2 \<leftarrow> (if format then do_format s1 else Some s1);
     free_map_open s2 }"

definition filesys_done :: "fs \<Rightarrow> fs option" where
  "filesys_done s = free_map_close s"

definition filesys_create :: "byte list \<Rightarrow> int \<Rightarrow> fs \<Rightarrow> (bool \<times> fs) option" where
  "filesys_create nm initial_size s = do {
     (d, s1) \<leftarrow> dir_open_root s;
     (success, inode_sector, s2) \<leftarrow>
       (if d = NULL then Some (False, 0, s1)
        else do {
          (r, s2) \<leftarrow> free_map_allocate 1 s1;
          (case r of
             None \<Rightarrow> Some (False, 0, s2)
           | Some sec \<Rightarrow> do {
               (created, s3) \<leftarrow> inode_create sec initial_size s2;
               if \<not> created then Some (False, sec, s3)
               else do {
                 (added, s4) \<leftarrow> dir_add d nm sec s3;
                 Some (added, sec, s4) } }) });
     s3 \<leftarrow> (if \<not> success \<and> inode_sector \<noteq> 0 then free_map_release inode_sector 1 s2 else Some s2);
     s4 \<leftarrow> dir_close d s3;
     Some (success, s4) }"

definition filesys_open :: "byte list \<Rightarrow> fs \<Rightarrow> (addr \<times> fs) option" where
  "filesys_open nm s = do {
     (d, s1) \<leftarrow> dir_open_root s;
     (ip, s2) \<leftarrow> (if d \<noteq> NULL then dir_lookup d nm s1 else Some (NULL, s1));
     s3 \<leftarrow> dir_close d s2;
     file_open ip s3 }"

definition filesys_remove :: "byte list \<Rightarrow> fs \<Rightarrow> (bool \<times> fs) option" where
  "filesys_remove nm s = do {
     (d, s1) \<leftarrow> dir_open_root s;
     (success, s2) \<leftarrow> (if d \<noteq> NULL then dir_remove d nm s1 else Some (False, s1));
     s3 \<leftarrow> dir_close d s2;
     Some (success, s3) }"

end
