(* ===== verification/Fs_Base.thy ===== *)
theory Fs_Base
  imports Inode_IO Directory
begin

text \<open>
  Formats and primitives of the file system: integers and inodes in bytes, the free map on disk,
  and the dependence of file contents on sectors.
\<close>

section \<open>Integers and inodes in bytes\<close>

lemma length_to_le [simp]: "length (to_le k n) = k"
  by (induction k arbitrary: n) auto

lemma of_le_to_le: "of_le (to_le k n) = n mod 256 ^ k"
proof (induction k arbitrary: n)
  case (Suc k)
  have "unat (word_of_nat (n mod 256) :: byte) = n mod 256" by (simp add: unat_of_nat)
  then show ?case using Suc [of "n div 256"] by (simp add: mod_mult2_eq)
qed simp

lemma to_le_of_le: "length bs = k \<Longrightarrow> to_le k (of_le bs) = bs"
proof (induction bs arbitrary: k)
  case (Cons b bs)
  have b: "unat b < 256" using unsigned_less [of b] by simp
  then have "(unat b + 256 * of_le bs) mod 256 = unat b" "(unat b + 256 * of_le bs) div 256 = of_le bs" by simp_all
  then show ?case using Cons by auto
qed simp

lemma field_to_le: "n < 256 ^ k \<Longrightarrow> field (to_le k n @ bs) 0 k = n"
  by (simp add: field_def of_le_to_le)

lemma field_append: "length as \<le> ofs \<Longrightarrow> field (as @ bs) ofs k = field bs (ofs - length as) k"
  by (simp add: field_def)

lemma length_inode_encode [simp]: "length (inode_encode d) = 512"
  by (simp add: inode_encode_def)

lemma inode_decode_encode:
  assumes "i_start d < 4294967296" and "- 2147483648 \<le> i_length d" "i_length d < 2147483648" and "i_magic d < 4294967296"
  shows "inode_decode (inode_encode d) = d"
proof -
  have l: "nat (wrap_u32 (i_length d)) < 256 ^ 4" using wrap_u32_range [of "i_length d"] by (simp add: nat_less_iff)
  have "wrap_s32 (int (nat (wrap_u32 (i_length d)))) = i_length d"
    using wrap_u32_range [of "i_length d"] assms(2,3) by (simp add: wrap_s32_def wrap_u32_def mod_add_left_eq)
  then show ?thesis
    using assms field_to_le [OF l] field_to_le [of "i_start d" 4] field_to_le [of "i_magic d" 4]
    by (simp add: inode_decode_def inode_encode_def field_append)
qed

section \<open>Bitmaps in bytes\<close>

lemma words_bytes_simps [simp]: "words_bytes [] = []" "words_bytes (w # ws) = to_le 4 (unat w) @ words_bytes ws"
  by (simp_all add: words_bytes_def)

lemma length_words_bytes [simp]: "length (words_bytes ws) = 4 * length ws"
  by (induction ws) simp_all

lemma bytes_words_bytes [simp]: "bytes_words (words_bytes ws) = ws"
proof (induction ws)
  case (Cons w ws)
  have "unat w < 4294967296" using unsigned_less [of w] by simp
  then have "of_le (to_le 4 (unat w)) = unat w" by (simp add: of_le_to_le)
  then show ?case using Cons by (simp add: to_le_4)
qed simp

section \<open>Contents depend on the data sectors only\<close>

lemma flat_drop: "\<forall>d \<in> set ss. length d = k \<Longrightarrow> drop (k * i) (concat ss) = concat (drop i ss)"
proof (induction i arbitrary: ss)
  case (Suc i)
  then show ?case by (cases ss) auto
qed simp

lemma flat_take: "\<forall>d \<in> set ss. length d = k \<Longrightarrow> take (k * i) (concat ss) = concat (take i ss)"
proof (induction i arbitrary: ss)
  case (Suc i)
  then show ?case by (cases ss) auto
qed simp

lemma contents_sectors:
  assumes "\<forall>x \<in> set ss. length x = 512"
  shows "contents ss d = take (nat (i_length d)) (concat (take (nsec (i_length d)) (drop (i_start d) ss)))"
proof -
  have d: "\<forall>x \<in> set (drop (i_start d) ss). length x = 512" using assms by (auto dest: in_set_dropD)
  have "contents ss d = take (nat (i_length d)) (concat (drop (i_start d) ss))"
    by (simp add: contents_def flat_drop [OF assms])
  also have "\<dots> = take (nat (i_length d)) (take (512 * nsec (i_length d)) (concat (drop (i_start d) ss)))"
    using length_le_nsec [of "i_length d"] by (simp add: min_def)
  finally show ?thesis by (simp add: flat_take [OF d])
qed

lemma contents_cong:
  assumes "\<forall>x \<in> set ss. length x = 512" "\<forall>x \<in> set ss'. length x = 512" and "length ss' = length ss"
    and "disk_inode_ok (length ss) d" and "\<And>j. j \<in> data_sectors d \<Longrightarrow> ss' ! j = ss ! j"
  shows "contents ss' d = contents ss d"
proof -
  have "take (nsec (i_length d)) (drop (i_start d) ss') = take (nsec (i_length d)) (drop (i_start d) ss)"
    using assms(3-5) by (intro nth_equalityI) (auto simp: data_sectors_def disk_inode_ok_def)
  then show ?thesis by (simp add: contents_sectors assms(1,2))
qed

section \<open>The free map in its file\<close>

definition map_shape :: "bitmap \<Rightarrow> nat \<Rightarrow> bool" where
  "map_shape b n \<longleftrightarrow> bm_inv b \<and> bit_cnt b = n \<and> length (bits b) = elem_cnt n \<and> n \<le> 268435456"

lemma map_shape_bytes:
  assumes "map_shape b n"
  shows "wrap_s32 (int (byte_cnt (bit_cnt b))) = int (4 * length (bits b))" "elem_cnt n = (n + 31) div 32" "4 * length (bits b) < 2147483648"
proof -
  have n: "n \<le> 268435456" "length (bits b) = elem_cnt n" "bit_cnt b = n" using assms by (auto simp: map_shape_def)
  show e: "elem_cnt n = (n + 31) div 32" using n(1) by (simp add: elem_cnt_def size_add_def ELEM_BITS_def)
  have "elem_cnt n < 8388609" using n(1) unfolding e by linarith
  then show "wrap_s32 (int (byte_cnt (bit_cnt b))) = int (4 * length (bits b))" "4 * length (bits b) < 2147483648"
    using n(2,3) by (simp_all add: byte_cnt_def wrap_s32_id)
qed

text \<open>Writing a bitmap to a file of its size stores its elements, if no allocation fails.\<close>

lemma bitmap_write_contents:
  assumes d: "disk s = Some ss" and f: "files s f = Some fl" "inodes s (f_inode fl) = Some ino" "deny_write_cnt ino = 0"
    and o: "disk_inode_ok (length ss) (i_data ino)" "i_length (i_data ino) = int (4 * length (bits b))"
    and b: "map_shape b n" and m: "0 < next_ptr s" "allocs s = []"
  shows "\<exists>s' ss'. bitmap_write b f s = Some (True, s') \<and> quiet s s' \<and> disk s' = Some ss' \<and> length ss' = length ss
    \<and> contents ss' (i_data ino) = words_bytes (bits b)
    \<and> (\<forall>j < length ss. j \<notin> data_sectors (i_data ino) \<longrightarrow> ss' ! j = ss ! j)"
proof -
  let ?z = "int (4 * length (bits b))"
  obtain w s' ss' where w: "inode_write_at (f_inode fl) (words_bytes (bits b)) ?z 0 s = Some (int w, s')" "quiet s s'" "disk s' = Some ss'"
    "length ss' = length ss" "write_count (i_length (i_data ino)) ?z 0 (allocs s = []) w"
    "contents ss' (i_data ino) = overwrite (contents ss (i_data ino)) (nat 0) (take w (words_bytes (bits b)))"
    "\<forall>j < length ss. j \<notin> data_sectors (i_data ino) \<longrightarrow> ss' ! j = ss ! j"
    using inode_write_at_range [OF d f(2) o(1) _ _ m(1) f(3), of 0 ?z "words_bytes (bits b)"] by auto
  have wz: "w = 4 * length (bits b)" using w(5) m(2) o(2) by (auto simp: write_count_def)
  have "contents ss' (i_data ino) = words_bytes (bits b)"
    using w(6) wz contents_bound(2) [OF d o(1)] o(2) by (simp add: overwrite_def)
  moreover have "bitmap_write b f s = Some (True, s')"
    using w(1) wz f(1) map_shape_bytes(1) [OF b] by (simp add: bitmap_write_def file_write_at_def)
  ultimately show ?thesis using w by auto
qed

lemma bitmap_read_contents:
  assumes d: "disk s = Some ss" and f: "files s f = Some fl" "inodes s (f_inode fl) = Some ino"
    and o: "disk_inode_ok (length ss) (i_data ino)" and c: "contents ss (i_data ino) = words_bytes ws"
    and b: "map_shape b n" "0 < n" "length ws = elem_cnt n" and m: "0 < next_ptr s" "allocs s = []"
  shows "\<exists>s'. bitmap_read b f s = Some (True, b\<lparr>bits := ws[elem_cnt n - 1 := ws ! (elem_cnt n - 1) AND last_mask b]\<rparr>, s')
    \<and> quiet s s' \<and> disk s' = Some ss"
proof -
  have lb: "length (bits b) = length ws" "bit_cnt b = n" using b by (auto simp: map_shape_def)
  let ?z = "int (4 * length ws)"
  obtain bs s' where r: "inode_read_at (f_inode fl) ?z 0 s = Some (bs, s')" "quiet s s'" "disk s' = Some ss"
    "read_range (contents ss (i_data ino)) ?z 0 (allocs s = []) bs"
    using inode_read_at_range [OF d f(2) o _ _ m(1), of 0 ?z] by auto
  then have bs: "bs = words_bytes ws" using m(2) c by (simp add: read_range_def)
  have "0 < elem_cnt n" using b(2) map_shape_bytes(2) [OF b(1)] by auto
  then show ?thesis
    using r(1-3) bs f(1) map_shape_bytes(1) [OF b(1)] lb b(2,3)
    by (simp add: bitmap_read_def file_read_at_def Let_def)
qed

lemma ceil_div:
  fixes n k :: nat
  assumes "0 < k" and "n mod k \<noteq> 0"
  shows "(n + (k - 1)) div k = n div k + 1"
proof -
  obtain r where r: "n mod k = Suc r" using assms(2) not0_implies_Suc by blast
  then have "Suc r < k" using mod_less_divisor [OF assms(1), of n] by simp
  moreover have "n + (k - 1) = r + k * (n div k + 1)"
    using mult_div_mod_eq [of k n] r assms(1) by (simp add: algebra_simps)
  ultimately show ?thesis using assms(1) by (simp only: div_mult_self2) simp
qed

lemma bm_bit_last_mask:
  assumes "i < bit_cnt b" and "length ws = elem_cnt (bit_cnt b)" and "bit_cnt b \<le> 268435456"
  shows "bm_bit (b\<lparr>bits := ws[elem_cnt (bit_cnt b) - 1 := ws ! (elem_cnt (bit_cnt b) - 1) AND last_mask b]\<rparr>) i = bm_bit (b\<lparr>bits := ws\<rparr>) i"
proof (cases "elem_idx i = elem_cnt (bit_cnt b) - 1")
  case True
  let ?n = "bit_cnt b"
  have e: "elem_cnt ?n = (?n + 31) div 32" using assms(3) by (simp add: elem_cnt_def size_add_def ELEM_BITS_def)
  have x: "elem_idx i < length ws" using assms(1,2) unfolding e elem_idx_def ELEM_BITS_def by linarith
  have "bit (last_mask b) (i mod 32)"
  proof (cases "?n mod 32 = 0")
    case True
    then show ?thesis by (simp add: last_mask_def ELEM_BITS_def bit_simps)
  next
    case False
    have "i div 32 = (?n + 31) div 32 - 1" using True unfolding e elem_idx_def ELEM_BITS_def .
    moreover have "(?n + 31) div 32 = ?n div 32 + 1" using ceil_div [OF _ False] by simp
    ultimately have "i div 32 = ?n div 32" by simp
    then have "i mod 32 < ?n mod 32" using assms(1) mult_div_mod_eq [of 32 i] mult_div_mod_eq [of 32 ?n] by linarith
    then show ?thesis
      using False by (simp add: last_mask_def ELEM_BITS_def Let_def push_bit_of_1 mask_eq_exp_minus_1 [symmetric] bit_simps)
  qed
  then show ?thesis using True x by (simp add: bm_bit_def ELEM_BITS_def bit_simps)
next
  case False
  then show ?thesis by (simp add: bm_bit_def)
qed

end
