(* ===== verification/Dir_IO.thy ===== *)
theory Dir_IO
  imports Fs_Base
begin

text \<open>
  Directories as sequences of entries: what the loops of \<open>lookup\<close>, \<open>dir_add\<close> and \<open>dir_readdir\<close>
  compute, and what writing an entry does to the sequence.
\<close>

section \<open>The entries of a directory\<close>

definition entries :: "byte list \<Rightarrow> byte list list" where
  "entries c = map (\<lambda>i. take 20 (drop (20 * i) c)) [0..<length c div 20]"

definition entry_str :: "byte list \<Rightarrow> byte list" where
  "entry_str e = takeWhile (\<lambda>b. b \<noteq> 0) (e_name e)"

definition terminated :: "byte list \<Rightarrow> bool" where
  "terminated c \<longleftrightarrow> (\<forall>e \<in> set (entries c). e_in_use e \<longrightarrow> 0 \<in> set (e_name e))"

lemma length_entries [simp]: "length (entries c) = length c div 20"
  by (simp add: entries_def)

lemma entries_nth: "i < length c div 20 \<Longrightarrow> entries c ! i = take 20 (drop (20 * i) c)"
  by (simp add: entries_def)

lemma entry_fits: "i < length c div 20 \<Longrightarrow> 20 * i + 20 \<le> length (c :: byte list)"
  by linarith

lemma length_entry: "i < length c div 20 \<Longrightarrow> length (entries c ! i) = 20"
  using entry_fits [of i c] by (simp add: entries_nth)

lemma entries_overwrite:
  assumes "j < length c div 20" and "length e = 20"
  shows "entries (overwrite c (20 * j) e) = (entries c)[j := e]"
proof (rule nth_equalityI)
  have b: "20 * j + length e \<le> length c" using entry_fits [OF assms(1)] assms(2) by simp
  then show "length (entries (overwrite c (20 * j) e)) = length ((entries c)[j := e])" by simp
  fix i
  assume "i < length (entries (overwrite c (20 * j) e))"
  then have i: "i < length c div 20" using b by simp
  have "take 20 (drop (20 * i) (overwrite c (20 * j) e)) = (if i = j then e else take 20 (drop (20 * i) c))"
  proof (cases i j rule: linorder_cases)
    case less
    then show ?thesis using range_overwrite(1) [OF b, of "20 * i" 20] by simp
  next
    case equal
    then show ?thesis
      using range_overwrite_inside [of "20 * j" 20 c 0 e] assms(2) entry_fits [OF assms(1)] by (simp add: overwrite_def)
  next
    case greater
    then show ?thesis using range_overwrite(2) [OF b, of "20 * i" 20] assms(2) by simp
  qed
  then show "entries (overwrite c (20 * j) e) ! i = (entries c)[j := e] ! i"
    using i b assms(1) by (simp add: entries_nth nth_list_update)
qed

lemma str_eq_name:
  assumes "0 \<in> set (take k bs)" and "0 \<notin> set nm"
  shows "str_eq nm bs = Some (nm = takeWhile (\<lambda>b. b \<noteq> 0) (take k bs))"
  using assms
proof (induction nm bs arbitrary: k rule: str_eq.induct)
  case (3 c cs b bs)
  then show ?case by (cases k) auto
next
  case (2 b bs)
  then show ?case by (cases k) auto
qed auto

text \<open>The comparison is the one of \<^verbatim>\<open>lib/string.c\<close>.\<close>

lemma str_eq_strcmp:
  assumes "cstr m a nm" and "bytes m b (length bs) = bs" and "str_eq nm bs = Some r"
  shows "\<exists>d. strcmp_loop m a b = Some d \<and> (d = 0) = r"
  using assms
proof (induction nm bs arbitrary: a b rule: str_eq.induct)
  case (2 x bs)
  then have "m a = 0" "m b = x" by (auto simp: bytes_def upt_rec)
  then show ?case using 2 by (subst strcmp_loop.simps) (auto simp: word_gt_0)
next
  case (3 c cs x bs)
  have m: "m a = c" "c \<noteq> 0" "m b = x" "bytes m (b + 1) (length bs) = bs" "cstr m (a + 1) cs"
    using 3(2,3) by (auto simp: bytes_def upt_rec)
  show ?case
  proof (cases "c = x")
    case True
    then show ?thesis using 3(1) [OF True m(5,4)] 3(4) m by (subst strcmp_loop.simps) auto
  next
    case False
    then show ?thesis using 3(4) m by (subst strcmp_loop.simps) auto
  qed
qed auto

section \<open>Reading entries\<close>

definition readable :: "fs \<Rightarrow> addr \<Rightarrow> byte list \<Rightarrow> bool" where
  "readable s ip c \<longleftrightarrow> allocs s = [] \<and> 0 < next_ptr s \<and> (\<exists>ss ino. disk s = Some ss \<and> inodes s ip = Some ino
     \<and> disk_inode_ok (length ss) (i_data ino) \<and> c = contents ss (i_data ino))"

lemma readable_quiet: "readable s ip c \<Longrightarrow> quiet s s' \<Longrightarrow> disk s' = disk s \<Longrightarrow> readable s' ip c"
  using quiet_fields(2,10,11) [of s s'] by (auto simp: readable_def)

lemma readable_length: "readable s ip c \<Longrightarrow> length c < 2147483137"
  using contents_bound(2) by (auto simp: readable_def disk_inode_ok_def)

lemma read_entry:
  assumes "readable s ip c" and "0 \<le> ofs" "ofs < 2147483648"
  shows "\<exists>s'. inode_read_at ip 20 ofs s = Some (take 20 (drop (nat ofs) c), s') \<and> quiet s s' \<and> disk s' = disk s \<and> readable s' ip c"
proof -
  obtain ss ino where s: "disk s = Some ss" "inodes s ip = Some ino" "disk_inode_ok (length ss) (i_data ino)"
    "c = contents ss (i_data ino)" "0 < next_ptr s" "allocs s = []" using assms(1) by (auto simp: readable_def)
  obtain bs s' where r: "inode_read_at ip 20 ofs s = Some (bs, s')" "quiet s s'" "disk s' = Some ss"
    "read_range c 20 ofs (allocs s = []) bs"
    using inode_read_at_range [OF s(1-3) assms(2,3) s(5), of 20] s(4) by blast
  have "bs = take 20 (drop (nat ofs) c)" using r(4) s(6) by (simp add: read_range_def)
  then show ?thesis using r(1-3) s(1) readable_quiet [OF assms(1) r(2)] by auto
qed

lemma read_entry_nth:
  assumes "readable s ip c" and "i \<le> length c div 20"
  shows "\<exists>s' e. inode_read_at ip 20 (int (20 * i)) s = Some (e, s') \<and> quiet s s' \<and> disk s' = disk s \<and> readable s' ip c
    \<and> (if i < length c div 20 then e = entries c ! i \<and> length e = 20 else length e \<noteq> 20)"
proof -
  have "20 * i < 2147483648" using assms(2) readable_length [OF assms(1)] by linarith
  then obtain s' where r: "inode_read_at ip 20 (int (20 * i)) s = Some (take 20 (drop (20 * i) c), s')" "quiet s s'" "disk s' = disk s"
    "readable s' ip c" using read_entry [OF assms(1), of "int (20 * i)"] by (auto simp: nat_mult_distrib)
  have "length (take 20 (drop (20 * i) c)) \<noteq> 20" if "\<not> i < length c div 20" using that by simp
  then show ?thesis using r entries_nth [of i c] length_entry [of i c] by (auto simp del: length_take)
qed

definition matches :: "byte list \<Rightarrow> byte list \<Rightarrow> bool" where
  "matches nm e \<longleftrightarrow> e_in_use e \<and> entry_str e = nm"

lemma lookup_loop_find:
  assumes "readable s ip c" and "terminated c" and "0 \<notin> set nm" and "i \<le> length c div 20"
  shows "\<exists>s'. lookup_loop ip nm (20 * i) s
      = Some (map_option (\<lambda>j. (entries c ! j, 20 * j)) (find (\<lambda>j. matches nm (entries c ! j)) [i..<length c div 20]), s')
    \<and> quiet s s' \<and> disk s' = disk s"
  using assms
proof (induction "length c div 20 - i" arbitrary: i s)
  case 0
  then have i: "i = length c div 20" by simp
  obtain s' e where r: "inode_read_at ip 20 (int (20 * i)) s = Some (e, s')" "quiet s s'" "disk s' = disk s" "length e \<noteq> 20"
    using read_entry_nth [OF 0(2,5)] i by auto
  have "20 * i < 2147483648" using i readable_length [OF 0(2)] by linarith
  then have "wrap_s32 (int (20 * i)) = int (20 * i)" by (intro wrap_s32_id) auto
  then show ?case using r i by (subst lookup_loop.simps) simp
next
  case (Suc d)
  then have i: "i < length c div 20" by simp
  obtain s1 e where r: "inode_read_at ip 20 (int (20 * i)) s = Some (e, s1)" "quiet s s1" "disk s1 = disk s" "readable s1 ip c"
    "e = entries c ! i" "length e = 20"
    using read_entry_nth [OF Suc.prems(1,4)] i by auto
  have b: "20 * i + 20 < 2147483648" using i readable_length [OF Suc.prems(1)] by linarith
  then have w: "wrap_s32 (int (20 * i)) = int (20 * i)" "size_add (20 * i) 20 = 20 * (i + 1)"
    by (auto simp: size_add_def intro!: wrap_s32_id)
  have "e \<in> set (entries c)" using i r(5) by simp
  then have "e_in_use e \<Longrightarrow> str_eq nm (drop 4 e) = Some (entry_str e = nm)"
    using Suc.prems(2,3) str_eq_name [of 15 "drop 4 e" nm] by (auto simp: terminated_def entry_str_def e_name_def)
  then have m: "(if e_in_use e then str_eq nm (drop 4 e) else Some False) = Some (matches nm e)" by (simp add: matches_def)
  have up: "[i..<length c div 20] = i # [i + 1..<length c div 20]" using i by (simp add: upt_conv_Cons)
  show ?case
  proof (cases "matches nm e")
    case True
    then show ?thesis using r m w(1) up by (subst lookup_loop.simps) auto
  next
    case False
    obtain s' where "lookup_loop ip nm (20 * (i + 1)) s1
        = Some (map_option (\<lambda>j. (entries c ! j, 20 * j)) (find (\<lambda>j. matches nm (entries c ! j)) [i + 1..<length c div 20]), s')"
      "quiet s1 s'" "disk s' = disk s1"
      using Suc.hyps(1) [OF _ r(4) Suc.prems(2,3), of "i + 1"] Suc.hyps(2) i by fastforce
    then show ?thesis
      using False r m w up quiet_trans [OF r(2)] by (subst lookup_loop.simps) auto
  qed
qed

lemma slot_loop_find:
  assumes "readable s ip c" and "i \<le> length c div 20" and "length e0 = 20"
  shows "\<exists>s' e. slot_loop ip (int (20 * i)) e0 s
      = Some (int (20 * (case find (\<lambda>j. \<not> e_in_use (entries c ! j)) [i..<length c div 20] of Some j \<Rightarrow> j | None \<Rightarrow> length c div 20)), e, s')
    \<and> quiet s s' \<and> disk s' = disk s \<and> length e = 20"
  using assms
proof (induction "length c div 20 - i" arbitrary: i s e0)
  case 0
  then have i: "i = length c div 20" by simp
  obtain s' e where r: "inode_read_at ip 20 (int (20 * i)) s = Some (e, s')" "quiet s s'" "disk s' = disk s" "length e \<noteq> 20"
    using read_entry_nth [OF 0(2,3)] i by auto
  have "length (take 20 (drop (20 * i) c)) \<le> 20" by simp
  moreover have "e = take 20 (drop (20 * i) c)"
    using r(1) read_entry [OF 0(2), of "int (20 * i)"] i readable_length [OF 0(2)]
    by (auto simp: nat_mult_distrib)
  ultimately have "length (e @ drop (length e) e0) = 20" using 0(4) by simp
  then show ?case using r i by (subst slot_loop.simps) (simp add: Let_def)
next
  case (Suc d)
  then have i: "i < length c div 20" by simp
  obtain s1 e where r: "inode_read_at ip 20 (int (20 * i)) s = Some (e, s1)" "quiet s s1" "disk s1 = disk s" "readable s1 ip c"
    "e = entries c ! i" "length e = 20"
    using read_entry_nth [OF Suc.prems(1,2)] i by auto
  have up: "[i..<length c div 20] = i # [i + 1..<length c div 20]" using i by (simp add: upt_conv_Cons)
  show ?case
  proof (cases "e_in_use e")
    case False
    then show ?thesis using r Suc.prems(3) up by (subst slot_loop.simps) (auto simp: Let_def)
  next
    case True
    let ?r = "\<lambda>i. int (20 * (case find (\<lambda>j. \<not> e_in_use (entries c ! j)) [i..<length c div 20] of Some j \<Rightarrow> j | None \<Rightarrow> length c div 20))"
    have "\<exists>s' e'. slot_loop ip (int (20 * (i + 1))) e s1 = Some (?r (i + 1), e', s') \<and> quiet s1 s' \<and> disk s' = disk s1 \<and> length e' = 20"
      using Suc.hyps(1) [OF _ r(4) _ r(6), of "i + 1"] Suc.hyps(2) i by fastforce
    then obtain s' e' where h: "slot_loop ip (int (20 * (i + 1))) e s1 = Some (?r (i + 1), e', s')" "quiet s1 s'" "disk s' = disk s1" "length e' = 20"
      by blast
    have "int (20 * i) + 20 = int (20 * (i + 1))" by simp
    then have "slot_loop ip (int (20 * i)) e0 s = slot_loop ip (int (20 * (i + 1))) e s1"
      using True r Suc.prems(3) by (subst slot_loop.simps) (simp add: Let_def add.commute)
    moreover have "?r i = ?r (i + 1)" using True r(5) up by simp
    ultimately show ?thesis using h r(3) quiet_trans [OF r(2) h(2)] by auto
  qed
qed

section \<open>Names\<close>

lemma find_upt_cases:
  "(find P [i..<n] = None \<and> (\<forall>j. i \<le> j \<and> j < n \<longrightarrow> \<not> P j))
   \<or> (\<exists>j. find P [i..<n] = Some j \<and> i \<le> j \<and> j < n \<and> P j \<and> (\<forall>k. i \<le> k \<and> k < j \<longrightarrow> \<not> P k))"
proof (cases "find P [i..<n]")
  case None
  then show ?thesis by (auto simp: find_None_iff)
next
  case (Some j)
  then obtain k where k: "k < length [i..<n]" "P ([i..<n] ! k)" "j = [i..<n] ! k" "\<forall>l < k. \<not> P ([i..<n] ! l)"
    by (auto simp: find_Some_iff)
  then have "\<not> P l" if "i \<le> l" "l < j" for l using that k(4) [rule_format, of "l - i"] by auto
  then show ?thesis using k Some by auto
qed

text \<open>A well-formed directory has whole entries only and is a finite map from names to sectors.\<close>

definition dir_wf :: "byte list \<Rightarrow> bool" where
  "dir_wf c \<longleftrightarrow> 20 dvd length c \<and> terminated c
     \<and> (\<forall>i < length c div 20. \<forall>j < length c div 20. i \<noteq> j \<and> e_in_use (entries c ! i) \<and> e_in_use (entries c ! j) \<longrightarrow>
          entry_str (entries c ! i) \<noteq> entry_str (entries c ! j)
          \<and> e_inode_sector (entries c ! i) \<noteq> e_inode_sector (entries c ! j))
     \<and> (\<forall>i < length c div 20. e_in_use (entries c ! i) \<longrightarrow> e_inode_sector (entries c ! i) > 1)"

definition dmap :: "byte list \<Rightarrow> byte list \<rightharpoonup> nat" where
  "dmap c nm = map_option (\<lambda>j. e_inode_sector (entries c ! j)) (find (\<lambda>j. matches nm (entries c ! j)) [0..<length c div 20])"

lemma dir_wf_inj:
  assumes "dir_wf c" and "matches nm (entries c ! i)" "matches nm' (entries c ! j)" and "i < length c div 20" "j < length c div 20"
    and "nm = nm' \<or> e_inode_sector (entries c ! i) = e_inode_sector (entries c ! j)"
  shows "i = j"
  using assms by (auto simp: dir_wf_def matches_def)

lemma dmap_Some:
  assumes "dir_wf c"
  shows "dmap c nm = Some sec \<longleftrightarrow> (\<exists>j < length c div 20. matches nm (entries c ! j) \<and> e_inode_sector (entries c ! j) = sec)"
  using find_upt_cases [of "\<lambda>j. matches nm (entries c ! j)" 0 "length c div 20"]
  by (auto simp: dmap_def dest: dir_wf_inj [OF assms, of nm _ nm])

lemma dmap_None: "dmap c nm = None \<longleftrightarrow> (\<forall>j < length c div 20. \<not> matches nm (entries c ! j))"
  using find_upt_cases [of "\<lambda>j. matches nm (entries c ! j)" 0 "length c div 20"] by (auto simp: dmap_def)

lemma ran_dmap:
  assumes "dir_wf c"
  shows "ran (dmap c) = {e_inode_sector (entries c ! j) | j. j < length c div 20 \<and> e_in_use (entries c ! j)}"
  by (auto simp: ran_def dmap_Some [OF assms] matches_def)

lemma dmap_sector: "dir_wf c \<Longrightarrow> dmap c nm = Some sec \<Longrightarrow> 1 < sec"
  by (auto simp: dmap_Some) (auto simp: dir_wf_def matches_def)

lemma dmap_inj:
  assumes "dir_wf c" and "dmap c nm = Some sec" "dmap c nm' = Some sec"
  shows "nm = nm'"
proof -
  obtain i j where "i < length c div 20" "matches nm (entries c ! i)" "e_inode_sector (entries c ! i) = sec"
    "j < length c div 20" "matches nm' (entries c ! j)" "e_inode_sector (entries c ! j) = sec"
    using assms(2,3) by (auto simp: dmap_Some [OF assms(1)])
  moreover from this have "i = j" using dir_wf_inj [OF assms(1), of nm i nm' j] by simp
  ultimately show ?thesis by (simp add: matches_def)
qed

lemma map_eqI_Some: "(\<And>x y. f x = Some y \<longleftrightarrow> g x = Some y) \<Longrightarrow> f = g"
  by (metis ext option.exhaust)

lemma dir_wf_add:
  assumes wf: "dir_wf c" and j: "j < length c div 20" "\<not> e_in_use (entries c ! j)"
    and e: "length e = 20" "e_in_use e" "entry_str e = nm" "0 \<in> set (e_name e)" "e_inode_sector e = sec"
    and new: "dmap c nm = None" "sec \<notin> ran (dmap c)" "1 < sec"
  shows "dir_wf (overwrite c (20 * j) e)" "dmap (overwrite c (20 * j) e) = (dmap c)(nm \<mapsto> sec)"
proof -
  let ?c = "overwrite c (20 * j) e"
  have l: "length ?c = length c" using entry_fits [OF j(1)] e(1) by simp
  have E: "entries ?c = (entries c)[j := e]" by (rule entries_overwrite [OF j(1) e(1)])
  have n: "entries ?c ! i = (if i = j then e else entries c ! i)" if "i < length c div 20" for i
    using that by (simp add: E nth_list_update)
  have nm: "e_in_use (entries c ! i) \<Longrightarrow> entry_str (entries c ! i) \<noteq> nm" if "i < length c div 20" for i
    using new(1) that by (auto simp: dmap_None matches_def)
  have sc: "e_in_use (entries c ! i) \<Longrightarrow> e_inode_sector (entries c ! i) \<noteq> sec" if "i < length c div 20" for i
    using new(2) that by (auto simp: ran_dmap [OF wf])
  have "terminated ?c"
    using wf e(4) unfolding dir_wf_def terminated_def E by (auto dest: set_update_subset_insert [THEN subsetD])
  then show w: "dir_wf ?c"
    using wf unfolding dir_wf_def l by (auto simp: n nm nm [symmetric] sc sc [symmetric] e new(3) [simplified])
  show "dmap ?c = (dmap c)(nm \<mapsto> sec)"
  proof (rule map_eqI_Some)
    fix x y
    show "dmap ?c x = Some y \<longleftrightarrow> ((dmap c)(nm \<mapsto> sec)) x = Some y"
    proof
      assume "dmap ?c x = Some y"
      then obtain i where i: "i < length c div 20" "matches x (entries ?c ! i)" "e_inode_sector (entries ?c ! i) = y"
        unfolding dmap_Some [OF w] l by blast
      show "((dmap c)(nm \<mapsto> sec)) x = Some y"
      proof (cases "i = j")
        case True
        then show ?thesis using i n [OF i(1)] e by (simp add: matches_def)
      next
        case False
        then have m: "matches x (entries c ! i)" "e_inode_sector (entries c ! i) = y" using i n [OF i(1)] by simp_all
        then have "x \<noteq> nm" using nm [OF i(1)] by (auto simp: matches_def)
        then show ?thesis using m i(1) by (auto simp: dmap_Some [OF wf])
      qed
    next
      assume r: "((dmap c)(nm \<mapsto> sec)) x = Some y"
      show "dmap ?c x = Some y"
      proof (cases "x = nm")
        case True
        then show ?thesis unfolding dmap_Some [OF w] l using r e n [OF j(1)] j(1) by (auto simp: matches_def)
      next
        case False
        then obtain i where i: "i < length c div 20" "matches x (entries c ! i)" "e_inode_sector (entries c ! i) = y"
          using r by (auto simp: dmap_Some [OF wf])
        then have "i \<noteq> j" using j(2) by (auto simp: matches_def)
        then show ?thesis unfolding dmap_Some [OF w] l using i n [OF i(1)] by auto
      qed
    qed
  qed
qed

lemma dir_wf_erase:
  assumes wf: "dir_wf c" and j: "j < length c div 20" "matches nm (entries c ! j)" and e: "length e = 20" "\<not> e_in_use e"
  shows "dir_wf (overwrite c (20 * j) e)" "dmap (overwrite c (20 * j) e) = (dmap c)(nm := None)"
proof -
  let ?c = "overwrite c (20 * j) e"
  have l: "length ?c = length c" using entry_fits [OF j(1)] e(1) by simp
  have E: "entries ?c = (entries c)[j := e]" by (rule entries_overwrite [OF j(1) e(1)])
  have n: "entries ?c ! i = (if i = j then e else entries c ! i)" if "i < length c div 20" for i
    using that by (simp add: E nth_list_update)
  have "terminated ?c"
    using wf e(2) unfolding dir_wf_def terminated_def E by (auto dest: set_update_subset_insert [THEN subsetD])
  then show w: "dir_wf ?c" using wf e unfolding dir_wf_def l by (auto simp: n)
  show "dmap ?c = (dmap c)(nm := None)"
  proof (rule map_eqI_Some)
    fix x y
    show "dmap ?c x = Some y \<longleftrightarrow> ((dmap c)(nm := None)) x = Some y"
    proof
      assume "dmap ?c x = Some y"
      then obtain i where i: "i < length c div 20" "matches x (entries ?c ! i)" "e_inode_sector (entries ?c ! i) = y"
        unfolding dmap_Some [OF w] l by blast
      then have ij: "i \<noteq> j" using n [OF i(1)] e(2) by (auto simp: matches_def)
      then have m: "matches x (entries c ! i)" "e_inode_sector (entries c ! i) = y" using i n [OF i(1)] by simp_all
      moreover have "x \<noteq> nm" using dir_wf_inj [OF wf m(1) j(2) i(1) j(1)] ij by auto
      ultimately show "((dmap c)(nm := None)) x = Some y" using i(1) by (auto simp: dmap_Some [OF wf])
    next
      assume r: "((dmap c)(nm := None)) x = Some y"
      then have x: "x \<noteq> nm" "dmap c x = Some y" by (auto split: if_splits)
      then obtain i where i: "i < length c div 20" "matches x (entries c ! i)" "e_inode_sector (entries c ! i) = y"
        by (auto simp: dmap_Some [OF wf])
      then have "i \<noteq> j" using j(2) x(1) by (auto simp: matches_def)
      then show "dmap ?c x = Some y" unfolding dmap_Some [OF w] l using i n [OF i(1)] by auto
    qed
  qed
qed

text \<open>The entry that \<open>dir_add\<close> writes.\<close>

lemma new_entry_fields:
  assumes "length e = 20" and "nm \<noteq> []" "length nm \<le> 14" "0 \<notin> set nm" and "sec < 4294967296"
  shows "length (new_entry e nm sec) = 20" "e_in_use (new_entry e nm sec)" "entry_str (new_entry e nm sec) = nm"
    "0 \<in> set (e_name (new_entry e nm sec))" "e_inode_sector (new_entry e nm sec) = sec"
proof -
  have l: "length (nm @ [0] @ drop (length nm + 1) (e_name e)) = 15" using assms(1,3) by (simp add: e_name_def)
  define N where "N = nm @ [0] @ drop (length nm + 1) (e_name e)"
  have N: "length N = 15" "new_entry e nm sec = to_le 4 sec @ N @ [1]" using l by (simp_all add: N_def new_entry_def)
  then have en: "e_name (new_entry e nm sec) = N" by (simp add: e_name_def)
  show "length (new_entry e nm sec) = 20" using N by simp
  show "e_in_use (new_entry e nm sec)" using N by (simp add: e_in_use_def nth_append)
  show "entry_str (new_entry e nm sec) = nm"
    unfolding entry_str_def en N_def using assms(4) by (subst takeWhile_append2) auto
  show "0 \<in> set (e_name (new_entry e nm sec))" by (simp add: en N_def)
  show "e_inode_sector (new_entry e nm sec) = sec" using assms(5) by (simp add: e_inode_sector_def new_entry_def field_to_le)
qed

lemma lookup_result:
  assumes "readable s (d_inode dr) c" and "dirs s d = Some dr" "d \<noteq> NULL" and "dir_wf c" and "0 \<notin> set nm"
  obtains (absent) s' where "lookup d nm s = Some (None, s')" "dmap c nm = None" "quiet s s'" "disk s' = disk s"
  | (present) s' j where "lookup d nm s = Some (Some (entries c ! j, 20 * j), s')" "j < length c div 20" "matches nm (entries c ! j)"
      "dmap c nm = Some (e_inode_sector (entries c ! j))" "quiet s s'" "disk s' = disk s"
proof -
  have t: "terminated c" using assms(4) by (simp add: dir_wf_def)
  obtain s' where l: "lookup d nm s = Some (map_option (\<lambda>j. (entries c ! j, 20 * j)) (find (\<lambda>j. matches nm (entries c ! j)) [0..<length c div 20]), s')"
    "quiet s s'" "disk s' = disk s"
    using lookup_loop_find [OF assms(1) t assms(5), of 0] assms(2,3) by (auto simp: lookup_def)
  from find_upt_cases [of "\<lambda>j. matches nm (entries c ! j)" 0 "length c div 20"] show ?thesis
  proof (elim disjE exE conjE)
    assume "find (\<lambda>j. matches nm (entries c ! j)) [0..<length c div 20] = None"
    then show ?thesis using l by (intro absent [of s']) (auto simp: dmap_def)
  next
    fix j
    assume "find (\<lambda>j. matches nm (entries c ! j)) [0..<length c div 20] = Some j" "j < length c div 20" "matches nm (entries c ! j)"
    then show ?thesis using l by (intro present [of j s']) (auto simp: dmap_def)
  qed
qed

end
