(* ===== verification/Fs_Alloc.thy ===== *)
theory Fs_Alloc
  imports Fs_Base
begin

text \<open>
  Allocating and releasing sectors: the free map in memory and its copy on disk change together,
  and the file system meets the allocator interface of the bitmap.
\<close>

section \<open>The free map is ready\<close>

definition used :: "fs \<Rightarrow> nat set" where
  "used s = bm_used (free_map s)"

definition ino_at :: "byte list list \<Rightarrow> nat \<Rightarrow> inode_disk" where
  "ino_at ss a = inode_decode (ss ! a)"

definition fm_ready :: "fs \<Rightarrow> byte list list \<Rightarrow> bool" where
  "fm_ready s ss \<longleftrightarrow> disk s = Some ss \<and> allocs s = [] \<and> 0 < next_ptr s \<and> free_map_file s \<noteq> NULL \<and> map_shape (free_map s) (length ss)
     \<and> (\<exists>fl i. files s (free_map_file s) = Some fl \<and> inodes s (f_inode fl) = Some i \<and> deny_write_cnt i = 0 \<and> i_data i = ino_at ss 0)
     \<and> disk_inode_ok (length ss) (ino_at ss 0) \<and> i_length (ino_at ss 0) = int (4 * length (bits (free_map s)))
     \<and> 0 \<notin> data_sectors (ino_at ss 0) \<and> 0 < length ss"

text \<open>The state after a new free map \<open>b\<close> has been written to its file.\<close>

definition fm_step :: "fs \<Rightarrow> byte list list \<Rightarrow> bitmap \<Rightarrow> fs \<Rightarrow> byte list list \<Rightarrow> bool" where
  "fm_step s ss b s' ss' \<longleftrightarrow> quiet (s\<lparr>free_map := b\<rparr>) s' \<and> disk s' = Some ss' \<and> length ss' = length ss
     \<and> contents ss' (ino_at ss 0) = words_bytes (bits b)
     \<and> (\<forall>j < length ss. j \<notin> data_sectors (ino_at ss 0) \<longrightarrow> ss' ! j = ss ! j)"

lemma fm_stepD:
  assumes "fm_step s ss b s' ss'"
  shows "fs_device s' = fs_device s" "inodes s' = inodes s" "open_inodes s' = open_inodes s" "free_map s' = b"
    "free_map_file s' = free_map_file s" "files s' = files s" "dirs s' = dirs s" "scratch s' = scratch s"
    "next_ptr s \<le> next_ptr s'" "allocs s = [] \<Longrightarrow> allocs s' = []" "disk s' = Some ss'" "length ss' = length ss"
    "contents ss' (ino_at ss 0) = words_bytes (bits b)"
    "j < length ss \<Longrightarrow> j \<notin> data_sectors (ino_at ss 0) \<Longrightarrow> ss' ! j = ss ! j"
  using assms quiet_fields [of "s\<lparr>free_map := b\<rparr>" s'] by (auto simp: fm_step_def)

lemma fm_write:
  assumes "fm_ready s ss" and "map_shape b (length ss)"
  shows "\<exists>s' ss'. bitmap_write b (free_map_file s) (s\<lparr>free_map := b\<rparr>) = Some (True, s') \<and> fm_step s ss b s' ss'"
proof -
  obtain fl i where r: "disk s = Some ss" "allocs s = []" "0 < next_ptr s" "map_shape (free_map s) (length ss)"
    "files s (free_map_file s) = Some fl" "inodes s (f_inode fl) = Some i" "deny_write_cnt i = 0" "i_data i = ino_at ss 0"
    "disk_inode_ok (length ss) (ino_at ss 0)" "i_length (ino_at ss 0) = int (4 * length (bits (free_map s)))"
    using assms(1) by (auto simp: fm_ready_def)
  have "length (bits (free_map s)) = length (bits b)" using r(4) assms(2) by (simp add: map_shape_def)
  then show ?thesis
    using bitmap_write_contents [of "s\<lparr>free_map := b\<rparr>" ss "free_map_file s" fl i b "length ss"] r assms(2)
    by (fastforce simp: disk_def fm_step_def)
qed

lemma fm_ready_step:
  assumes "fm_ready s ss" and "map_shape b (length ss)" and "fm_step s ss b s' ss'"
  shows "fm_ready s' ss'" "ino_at ss' 0 = ino_at ss 0"
proof -
  note d = fm_stepD [OF assms(3)]
  have r: "0 \<notin> data_sectors (ino_at ss 0)" "0 < length ss" using assms(1) by (auto simp: fm_ready_def)
  show e: "ino_at ss' 0 = ino_at ss 0" using d(14) [of 0] r by (simp add: ino_at_def)
  have "length (bits b) = length (bits (free_map s))" using assms(1,2) by (simp add: fm_ready_def map_shape_def)
  then show "fm_ready s' ss'" using assms(1,2) d(9,10) unfolding fm_ready_def e d(2,4-7,11,12) by auto
qed

lemma map_shape_update:
  "map_shape b n \<Longrightarrow> bm_inv b' \<Longrightarrow> bit_cnt b' = bit_cnt b \<Longrightarrow> length (bits b') = length (bits b) \<Longrightarrow> map_shape b' n"
  by (simp add: map_shape_def)

lemma bitmap_set_shape: "bitmap_set b i v = Some b' \<Longrightarrow> length (bits b') = length (bits b)"
  by (auto simp: bitmap_set_def bitmap_mark_def bitmap_reset_def Let_def split: if_splits)

lemma set_loop_shape: "set_loop b i n v = Some b' \<Longrightarrow> length (bits b') = length (bits b)"
  by (induction n arbitrary: b i) (auto simp: bind_eq_Some_conv dest: bitmap_set_shape)

lemma set_multiple_shape: "bitmap_set_multiple b i n v = Some b' \<Longrightarrow> length (bits b') = length (bits b)"
  by (auto simp: bitmap_set_multiple_def dest: set_loop_shape)

lemma scan_and_flip_shape: "bitmap_scan_and_flip b i n v = Some (r, b') \<Longrightarrow> length (bits b') = length (bits b)"
  by (auto simp: bitmap_scan_and_flip_def bind_eq_Some_conv dest: set_multiple_shape split: if_splits)

section \<open>Allocation and release\<close>

lemma free_map_allocate_cases:
  assumes "fm_ready s ss"
  obtains (none) "free_map_allocate n s = Some (None, s)" "\<And>k. k + n \<le> length ss \<Longrightarrow> {k ..< k + n} \<inter> used s \<noteq> {}"
  | (some) a b s' ss' where "free_map_allocate n s = Some (Some a, s')" "fm_step s ss b s' ss'" "map_shape b (length ss)"
      "a + n \<le> length ss" "{a ..< a + n} \<inter> used s = {}" "bm_used b = used s \<union> {a ..< a + n}"
proof -
  have shape: "map_shape (free_map s) (length ss)" and nz: "free_map_file s \<noteq> NULL" using assms by (auto simp: fm_ready_def)
  have bi: "bm_inv (free_map s)" "bit_cnt (free_map s) = length ss" using shape by (auto simp: map_shape_def)
  obtain r b where rb: "bitmap_scan_and_flip (free_map s) 0 n False = Some (r, b)"
    using bm.alloc_total [OF bi(1), of n] by blast
  show ?thesis
  proof (cases "r = BITMAP_ERROR")
    case True
    then have "b = free_map s" "\<And>k. k + n \<le> length ss \<Longrightarrow> {k ..< k + n} \<inter> used s \<noteq> {}"
      using bm.alloc_fail [OF bi(1)] rb bi(2) by (auto simp: used_def)
    then show ?thesis using True rb by (intro none) (simp_all add: free_map_allocate_def)
  next
    case False
    have "map_shape b (length ss)"
      using map_shape_update [OF shape] bm.alloc_inv [OF bi(1) rb] scan_and_flip_shape [OF rb] by simp
    moreover obtain s' ss' where w: "bitmap_write b (free_map_file s) (s\<lparr>free_map := b\<rparr>) = Some (True, s')" "fm_step s ss b s' ss'"
      using fm_write [OF assms calculation] by blast
    moreover have "free_map_allocate n s = Some (Some r, s')" using rb w(1) False nz by (simp add: free_map_allocate_def)
    ultimately show ?thesis using bm.alloc_run [OF bi(1) rb False] bi(2) by (intro some) (auto simp: used_def)
  qed
qed

lemma free_map_release_ok:
  assumes "fm_ready s ss" and "a + n \<le> length ss" and "{a ..< a + n} \<subseteq> used s"
  obtains b s' ss' where "free_map_release a n s = Some s'" "fm_step s ss b s' ss'" "map_shape b (length ss)"
    "bm_used b = used s - {a ..< a + n}"
proof -
  have shape: "map_shape (free_map s) (length ss)" using assms(1) by (auto simp: fm_ready_def)
  have bi: "bm_inv (free_map s)" "bit_cnt (free_map s) = length ss" using shape by (auto simp: map_shape_def)
  obtain b where b: "bitmap_set_multiple (free_map s) a n False = Some b" "bm_inv b" "bit_cnt b = length ss"
    "bm_used b = used s - {a ..< a + n}"
    using bm.release_run [OF bi(1), of a n] bi(2) assms(2,3) by (auto simp: used_def)
  have shape': "map_shape b (length ss)"
    using map_shape_update [OF shape b(2)] b(3) bi(2) set_multiple_shape [OF b(1)] by simp
  obtain s' ss' where w: "bitmap_write b (free_map_file s) (s\<lparr>free_map := b\<rparr>) = Some (True, s')" "fm_step s ss b s' ss'"
    using fm_write [OF assms(1) shape'] by blast
  have "bitmap_all (free_map s) a n = Some True"
    using bitmap_all_bm [OF bi(1), of a n] assms(2,3) bi(2) by (auto simp: used_def bm_used_def)
  then have "free_map_release a n s = Some s'" using b(1) w(1) by (simp add: free_map_release_def)
  then show ?thesis using that w(2) shape' b(4) by blast
qed

text \<open>The file system as an allocator of sectors.\<close>

definition fm_alloc :: "fs \<Rightarrow> nat \<Rightarrow> (nat \<times> fs) option" where
  "fm_alloc s n = map_option (\<lambda>(r, s'). (case r of Some a \<Rightarrow> a | None \<Rightarrow> BITMAP_ERROR, s')) (free_map_allocate n s)"

lemma fm_alloc_cases:
  assumes "fm_ready s ss"
  obtains (none) "fm_alloc s n = Some (BITMAP_ERROR, s)" "\<And>k. k + n \<le> length ss \<Longrightarrow> {k ..< k + n} \<inter> used s \<noteq> {}"
  | (some) a s' ss' where "fm_alloc s n = Some (a, s')" "a \<noteq> BITMAP_ERROR" "fm_ready s' ss'" "length ss' = length ss"
      "a + n \<le> length ss" "{a ..< a + n} \<inter> used s = {}" "used s' = used s \<union> {a ..< a + n}"
  using assms
proof (cases rule: free_map_allocate_cases [of s ss n])
  case none
  then show ?thesis by (intro that(1)) (simp_all add: fm_alloc_def)
next
  case (some a b s' ss')
  have "length ss \<le> 268435456" using assms by (simp add: fm_ready_def map_shape_def)
  then have "a \<noteq> BITMAP_ERROR" using some(4) by (simp add: BITMAP_ERROR_def SIZE_MAX_def)
  then show ?thesis
    using some fm_ready_step [OF assms some(3,2)] fm_stepD(4,12) [OF some(2)]
    by (intro that(2) [of a s' ss']) (simp_all add: fm_alloc_def used_def)
qed

interpretation fm: slot_allocator fm_alloc "\<lambda>s i n. free_map_release i n s" used "\<lambda>s. bit_cnt (free_map s)"
  "\<lambda>s. \<exists>ss. fm_ready s ss" BITMAP_ERROR
proof unfold_locales
  have cap: "bit_cnt (free_map s) = length ss" if "fm_ready s ss" for s ss using that by (simp add: fm_ready_def map_shape_def)
  fix s n
  assume "\<exists>ss. fm_ready s ss"
  then obtain ss where r: "fm_ready s ss" by blast
  show "\<exists>i s'. fm_alloc s n = Some (i, s')" using r by (cases rule: fm_alloc_cases [of s ss n]) auto
  fix i s'
  {
    assume a: "fm_alloc s n = Some (i, s')"
    show "(\<exists>ss. fm_ready s' ss) \<and> bit_cnt (free_map s') = bit_cnt (free_map s)"
      using r by (cases rule: fm_alloc_cases [of s ss n]) (use r a cap in auto)
    assume ne: "i \<noteq> BITMAP_ERROR"
    show "i + n \<le> bit_cnt (free_map s) \<and> {i ..< i + n} \<inter> used s = {} \<and> used s' = used s \<union> {i ..< i + n}"
      using r by (cases rule: fm_alloc_cases [of s ss n]) (use a ne cap [OF r] in auto)
  }
  {
    assume a: "fm_alloc s n = Some (BITMAP_ERROR, s')"
    show "s' = s \<and> (\<forall>k. k + n \<le> bit_cnt (free_map s) \<longrightarrow> {k ..< k + n} \<inter> used s \<noteq> {})"
      using r by (cases rule: fm_alloc_cases [of s ss n]) (use a cap [OF r] in auto)
  }
  assume h: "i + n \<le> bit_cnt (free_map s)" "{i ..< i + n} \<subseteq> used s"
  have "i + n \<le> length ss" using h(1) cap [OF r] by simp
  from free_map_release_ok [OF r this h(2)] obtain b s1 ss1 where b: "free_map_release i n s = Some s1" "fm_step s ss b s1 ss1"
    "map_shape b (length ss)" "bm_used b = used s - {i ..< i + n}" .
  show "\<exists>s'. free_map_release i n s = Some s' \<and> (\<exists>ss. fm_ready s' ss) \<and> bit_cnt (free_map s') = bit_cnt (free_map s)
      \<and> used s' = used s - {i ..< i + n}"
    using b(1,4) fm_ready_step(1) [OF r b(3,2)] fm_stepD(4) [OF b(2)] cap [OF r] b(3)
    by (auto simp: used_def map_shape_def)
qed

end
