(* ===== verification/Fs_Inv.thy ===== *)
theory Fs_Inv
  imports Dir_IO Fs_Alloc
begin

text \<open>
  The invariant of the file system. In memory: every open inode is listed once, its reference count
  is the number of files and directories that use it plus the references \<open>X\<close> that an operation in
  progress holds, and its count of denials is the number of files that deny writing. On disk: the
  sectors of the live inodes, those of the free map, the root directory, the open inodes and the
  directory entries, and their data are marked as used, lie inside the disk and do not overlap; the
  root directory is a map from names to sectors, and the file of the free map holds the free map.
  Allocations do not fail (\<open>allocs s = []\<close>).
\<close>

section \<open>Definition\<close>

definition root :: "byte list list \<Rightarrow> byte list" where
  "root ss = contents ss (ino_at ss 1)"

definition frefs :: "fs \<Rightarrow> addr \<Rightarrow> addr set" where
  "frefs s p = {f. \<exists>fl. files s f = Some fl \<and> f_inode fl = p}"

definition drefs :: "fs \<Rightarrow> addr \<Rightarrow> addr set" where
  "drefs s p = {d. \<exists>dr. dirs s d = Some dr \<and> d_inode dr = p}"

definition denying :: "fs \<Rightarrow> addr \<Rightarrow> addr set" where
  "denying s p = {f. \<exists>fl. files s f = Some fl \<and> f_inode fl = p \<and> deny_write fl}"

definition unused :: "fs \<Rightarrow> addr \<Rightarrow> bool" where
  "unused s p \<longleftrightarrow> inodes s p = None \<and> files s p = None \<and> dirs s p = None"

definition heap_ok :: "fs \<Rightarrow> bool" where
  "heap_ok s \<longleftrightarrow> allocs s = [] \<and> 0 < next_ptr s \<and> length (scratch s) = 20 \<and> finite (dom (files s)) \<and> finite (dom (dirs s))
     \<and> unused s NULL \<and> (\<forall>p \<ge> next_ptr s. unused s p)
     \<and> distinct (open_inodes s) \<and> set (open_inodes s) = dom (inodes s)
     \<and> (\<forall>p q i j. inodes s p = Some i \<and> inodes s q = Some j \<and> i_sector i = i_sector j \<longrightarrow> p = q)"

definition refs_ok :: "(addr \<Rightarrow> nat) \<Rightarrow> fs \<Rightarrow> bool" where
  "refs_ok X s \<longleftrightarrow> (\<forall>p. inodes s p = None \<longrightarrow> frefs s p = {} \<and> drefs s p = {} \<and> X p = 0)
     \<and> (\<forall>p i. inodes s p = Some i \<longrightarrow> 0 < open_cnt i \<and> open_cnt i = int (card (frefs s p) + card (drefs s p) + X p)
          \<and> deny_write_cnt i = int (card (denying s p)))"

definition users_ok :: "fs \<Rightarrow> bool" where
  "users_ok s \<longleftrightarrow> (\<exists>fl. files s (free_map_file s) = Some fl)
     \<and> (\<forall>f fl. files s f = Some fl \<longrightarrow> (\<exists>i. inodes s (f_inode fl) = Some i
          \<and> (if f = free_map_file s then i_sector i = 0 \<and> \<not> deny_write fl else 1 < i_sector i))
          \<and> 0 \<le> f_pos fl \<and> f_pos fl < 2147483648)
     \<and> (\<forall>d dr. dirs s d = Some dr \<longrightarrow> (\<exists>i. inodes s (d_inode dr) = Some i \<and> i_sector i = 1))"

definition live :: "fs \<Rightarrow> byte list list \<Rightarrow> nat set" where
  "live s ss = {0, 1} \<union> {a. \<exists>p i. inodes s p = Some i \<and> i_sector i = a} \<union> ran (dmap (root ss))"

definition layout :: "byte list list \<Rightarrow> nat set \<Rightarrow> nat set \<Rightarrow> bool" where
  "layout ss U L \<longleftrightarrow>
     (\<forall>a \<in> L. a < length ss \<and> a \<in> U \<and> disk_inode_ok (length ss) (ino_at ss a) \<and> data_sectors (ino_at ss a) \<subseteq> U)
     \<and> (\<forall>a \<in> L. \<forall>b \<in> L. a \<notin> data_sectors (ino_at ss b)
          \<and> (a \<noteq> b \<longrightarrow> data_sectors (ino_at ss a) \<inter> data_sectors (ino_at ss b) = {}))"

definition store_ok :: "fs \<Rightarrow> byte list list \<Rightarrow> bool" where
  "store_ok s ss \<longleftrightarrow> (\<forall>x \<in> set ss. length x = 512) \<and> map_shape (free_map s) (length ss) \<and> layout ss (used s) (live s ss)
     \<and> (\<forall>p i. inodes s p = Some i \<longrightarrow> i_data i = ino_at ss (i_sector i)
          \<and> (removed i \<longrightarrow> 1 < i_sector i \<and> i_sector i \<notin> ran (dmap (root ss))))
     \<and> dir_wf (root ss) \<and> contents ss (ino_at ss 0) = words_bytes (bits (free_map s))"

definition fs_inv :: "(addr \<Rightarrow> nat) \<Rightarrow> fs \<Rightarrow> bool" where
  "fs_inv X s \<longleftrightarrow> heap_ok s \<and> refs_ok X s \<and> users_ok s \<and> (\<exists>ss. disk s = Some ss \<and> store_ok s ss)"

section \<open>Consequences\<close>

lemma fs_invE:
  assumes "fs_inv X s"
  obtains ss where "disk s = Some ss" "heap_ok s" "refs_ok X s" "users_ok s" "store_ok s ss"
  using assms by (auto simp: fs_inv_def)

lemma layoutD:
  assumes "layout ss U L" and "a \<in> L"
  shows "a < length ss" "a \<in> U" "disk_inode_ok (length ss) (ino_at ss a)" "data_sectors (ino_at ss a) \<subseteq> U"
    "b \<in> L \<Longrightarrow> a \<notin> data_sectors (ino_at ss b)"
    "b \<in> L \<Longrightarrow> a \<noteq> b \<Longrightarrow> data_sectors (ino_at ss a) \<inter> data_sectors (ino_at ss b) = {}"
  using assms by (auto simp: layout_def)

lemma layout_mono: "layout ss U L \<Longrightarrow> L' \<subseteq> L \<Longrightarrow> layout ss U L'"
  unfolding layout_def by blast

lemma live_0 [simp]: "0 \<in> live s ss" "Suc 0 \<in> live s ss" "1 \<in> live s ss"
  by (simp_all add: live_def)

lemma live_open: "inodes s p = Some i \<Longrightarrow> i_sector i \<in> live s ss"
  by (auto simp: live_def)

lemma live_entry: "dmap (root ss) nm = Some sec \<Longrightarrow> sec \<in> live s ss"
  by (auto simp: live_def ran_def)

lemma heap_okD:
  assumes "heap_ok s"
  shows "allocs s = []" "0 < next_ptr s" "length (scratch s) = 20" "finite (dom (files s))" "finite (dom (dirs s))"
    "unused s NULL" "next_ptr s \<le> p \<Longrightarrow> unused s p" "distinct (open_inodes s)" "set (open_inodes s) = dom (inodes s)"
    "inodes s p = Some i \<Longrightarrow> inodes s q = Some j \<Longrightarrow> i_sector i = i_sector j \<Longrightarrow> p = q"
  using assms unfolding heap_ok_def by blast+

lemma file_inode:
  assumes "users_ok s" and "files s f = Some fl"
  obtains i where "inodes s (f_inode fl) = Some i" "f = free_map_file s \<Longrightarrow> i_sector i = 0" "f = free_map_file s \<Longrightarrow> \<not> deny_write fl"
    "f \<noteq> free_map_file s \<Longrightarrow> 1 < i_sector i" "0 \<le> f_pos fl" "f_pos fl < 2147483648"
proof -
  have "(\<exists>i. inodes s (f_inode fl) = Some i
      \<and> (if f = free_map_file s then i_sector i = 0 \<and> \<not> deny_write fl else 1 < i_sector i)) \<and> 0 \<le> f_pos fl \<and> f_pos fl < 2147483648"
    using assms unfolding users_ok_def by blast
  then show ?thesis using that by (cases "f = free_map_file s") auto
qed

lemma map_file_inode:
  assumes "users_ok s" and "files s (free_map_file s) = Some fl"
  obtains i where "inodes s (f_inode fl) = Some i" "i_sector i = 0" "\<not> deny_write fl"
  using assms(2) by (cases rule: file_inode [OF assms]) auto

lemma user_file_inode:
  assumes "users_ok s" and "files s f = Some fl" and "f \<noteq> free_map_file s"
  obtains i where "inodes s (f_inode fl) = Some i" "1 < i_sector i" "0 \<le> f_pos fl" "f_pos fl < 2147483648"
  using assms(3) by (cases rule: file_inode [OF assms(1,2)]) auto

lemma store_okD:
  assumes "store_ok s ss"
  shows "\<forall>x \<in> set ss. length x = 512" "map_shape (free_map s) (length ss)" "layout ss (used s) (live s ss)"
    "inodes s p = Some i \<Longrightarrow> i_data i = ino_at ss (i_sector i)"
    "inodes s p = Some i \<Longrightarrow> removed i \<Longrightarrow> 1 < i_sector i"
    "inodes s p = Some i \<Longrightarrow> removed i \<Longrightarrow> i_sector i \<notin> ran (dmap (root ss))"
    "dir_wf (root ss)" "contents ss (ino_at ss 0) = words_bytes (bits (free_map s))"
  using assms unfolding store_ok_def by blast+

lemma store_okI:
  assumes "\<forall>x \<in> set ss. length x = 512" "map_shape (free_map s) (length ss)" "layout ss (used s) (live s ss)"
    "\<And>p i. inodes s p = Some i \<Longrightarrow> i_data i = ino_at ss (i_sector i)"
    "\<And>p i. inodes s p = Some i \<Longrightarrow> removed i \<Longrightarrow> 1 < i_sector i \<and> i_sector i \<notin> ran (dmap (root ss))"
    "dir_wf (root ss)" "contents ss (ino_at ss 0) = words_bytes (bits (free_map s))"
  shows "store_ok s ss"
  using assms unfolding store_ok_def by blast

lemma quiet_memory:
  assumes "quiet s s'" and "heap_ok s" "refs_ok X s" "users_ok s"
  shows "heap_ok s'" "refs_ok X s'" "users_ok s'"
proof -
  note q = quiet_fields [OF assms(1)]
  have r: "frefs s' = frefs s" "drefs s' = drefs s" "denying s' = denying s"
    by (simp_all add: frefs_def drefs_def denying_def q fun_eq_iff)
  show "heap_ok s'"
    using heap_okD [OF assms(2)] q(10,11) unfolding heap_ok_def unused_def q(2,3,6,7,8) by (metis le_trans less_le_trans)
  show "refs_ok X s'" using assms(3) unfolding refs_ok_def r q(2) .
  show "users_ok s'" using assms(4) unfolding users_ok_def q(2,5-7) .
qed

lemma quiet_inv:
  assumes "fs_inv X s" and "quiet s s'" and "disk s' = disk s"
  shows "fs_inv X s'"
proof -
  note q = quiet_fields [OF assms(2)]
  from fs_invE [OF assms(1)] obtain ss where ss: "disk s = Some ss" "heap_ok s" "refs_ok X s" "users_ok s" "store_ok s ss" .
  have l: "live s' = live s" by (simp add: live_def q fun_eq_iff)
  have "store_ok s' ss" using ss(5) unfolding store_ok_def used_def l q(2,4) .
  then show ?thesis using ss(1) assms(3) quiet_memory [OF assms(2) ss(2-4)] by (auto simp: fs_inv_def)
qed

text \<open>A directory in use gives access to the entries of the root directory.\<close>

lemma readable_open:
  assumes "fs_inv X s" and "disk s = Some ss" and "inodes s p = Some i"
  shows "readable s p (contents ss (ino_at ss (i_sector i)))"
proof -
  have s: "heap_ok s" "store_ok s ss" using assms(1,2) by (auto simp: fs_inv_def)
  have d: "i_data i = ino_at ss (i_sector i)" using s(2) assms(3) by (auto simp: store_ok_def)
  have "disk_inode_ok (length ss) (ino_at ss (i_sector i))"
    using s(2) layoutD(3) [OF _ live_open [OF assms(3)]] by (auto simp: store_ok_def)
  then show ?thesis
    unfolding readable_def using s(1) assms(2,3) d by (auto simp: heap_ok_def)
qed

lemma dir_inode:
  assumes "fs_inv X s" and "dirs s d = Some dr"
  obtains i where "inodes s (d_inode dr) = Some i" "i_sector i = 1" "d \<noteq> NULL"
proof -
  from fs_invE [OF assms(1)] obtain ss where ss: "heap_ok s" "users_ok s" .
  have "d \<noteq> NULL" using heap_okD(6) [OF ss(1)] assms(2) by (cases "d = NULL") (auto simp: unused_def)
  moreover obtain i where "inodes s (d_inode dr) = Some i" "i_sector i = 1"
    using ss(2) assms(2) unfolding users_ok_def by blast
  ultimately show ?thesis using that by blast
qed

section \<open>Changes on disk\<close>

lemma ino_at_frame: "ss' ! a = ss ! a \<Longrightarrow> ino_at ss' a = ino_at ss a"
  by (simp add: ino_at_def)

text \<open>
  Overwriting sectors \<open>D\<close> that belong to no live inode and not to the root directory changes neither
  the layout nor the names.
\<close>

lemma disk_frame:
  assumes st: "store_ok s ss" and ss': "\<forall>x \<in> set ss'. length x = 512" "length ss' = length ss"
    and D: "\<And>j. j < length ss \<Longrightarrow> j \<notin> D \<Longrightarrow> ss' ! j = ss ! j" "D \<inter> live s ss = {}" "D \<inter> data_sectors (ino_at ss 1) = {}"
  shows "root ss' = root ss" "live s ss' = live s ss" "\<And>a. a \<in> live s ss \<Longrightarrow> ino_at ss' a = ino_at ss a"
    "layout ss' (used s) (live s ss')"
    "\<And>a. a \<in> live s ss \<Longrightarrow> D \<inter> data_sectors (ino_at ss a) = {} \<Longrightarrow> contents ss' (ino_at ss a) = contents ss (ino_at ss a)"
proof -
  have lay: "layout ss (used s) (live s ss)" and l5: "\<forall>x \<in> set ss. length x = 512" using st by (auto simp: store_ok_def)
  show ia: "ino_at ss' a = ino_at ss a" if "a \<in> live s ss" for a
    using D(1) [of a] D(2) layoutD(1) [OF lay that] that by (intro ino_at_frame) blast
  show c: "contents ss' (ino_at ss a) = contents ss (ino_at ss a)"
    if "a \<in> live s ss" "D \<inter> data_sectors (ino_at ss a) = {}" for a
  proof (rule contents_cong [OF l5 ss'(1,2)])
    show "disk_inode_ok (length ss) (ino_at ss a)" by (rule layoutD(3) [OF lay that(1)])
    then have "j < length ss" if "j \<in> data_sectors (ino_at ss a)" for j
      using that by (simp add: data_sectors_def disk_inode_ok_def)
    then show "ss' ! j = ss ! j" if "j \<in> data_sectors (ino_at ss a)" for j
      using D(1) [of j] that \<open>D \<inter> data_sectors (ino_at ss a) = {}\<close> by blast
  qed
  show r: "root ss' = root ss" using c [of 1] ia [of 1] D(3) by (simp add: root_def)
  then show lv: "live s ss' = live s ss" by (simp add: live_def)
  show "layout ss' (used s) (live s ss')" using lay unfolding lv layout_def ss'(2) by (simp add: ia)
qed

text \<open>The data of the live inodes other than the free map, as the users of the file system see them.\<close>

definition file_at :: "byte list list \<Rightarrow> nat \<Rightarrow> byte list" where
  "file_at ss a = contents ss (ino_at ss a)"

definition keeps :: "nat set \<Rightarrow> byte list list \<Rightarrow> byte list list \<Rightarrow> bool" where
  "keeps L ss ss' \<longleftrightarrow> length ss' = length ss \<and> root ss' = root ss \<and> (\<forall>a \<in> L. ino_at ss' a = ino_at ss a \<and> (a \<noteq> 0 \<longrightarrow> file_at ss' a = file_at ss a))"

lemma keeps_refl [simp]: "keeps L ss ss"
  by (simp add: keeps_def)

lemma keeps_trans: "keeps L ss ss1 \<Longrightarrow> keeps L ss1 ss2 \<Longrightarrow> keeps L ss ss2"
  by (simp add: keeps_def)

lemma keeps_mono: "keeps L ss ss' \<Longrightarrow> L' \<subseteq> L \<Longrightarrow> keeps L' ss ss'"
  by (auto simp: keeps_def)

section \<open>The free map\<close>

lemma free_map_not_denied:
  assumes "users_ok s" and "files s (free_map_file s) = Some fl"
  shows "denying s (f_inode fl) = {}" "frefs s (f_inode fl) = {free_map_file s}"
proof -
  obtain i where i: "inodes s (f_inode fl) = Some i" "i_sector i = 0" "\<not> deny_write fl"
    using map_file_inode [OF assms] .
  have g: "g = free_map_file s" if h: "files s g = Some gl" "f_inode gl = f_inode fl" for g gl
  proof (rule ccontr)
    assume "g \<noteq> free_map_file s"
    then obtain j where "inodes s (f_inode gl) = Some j" "1 < i_sector j" using user_file_inode [OF assms(1) h(1)] by blast
    then show False using i h(2) by simp
  qed
  then show "denying s (f_inode fl) = {}" using i(3) assms(2) by (force simp: denying_def)
  show "frefs s (f_inode fl) = {free_map_file s}" proof (intro equalityI subsetI)
    fix x
    assume "x \<in> frefs s (f_inode fl)"
    then obtain gl where "files s x = Some gl" "f_inode gl = f_inode fl" by (auto simp: frefs_def)
    then show "x \<in> {free_map_file s}" using g [of x gl] by simp
  qed (simp add: frefs_def assms(2))
qed

lemma inv_fm_ready:
  assumes "fs_inv X s" and "disk s = Some ss"
  shows "fm_ready s ss"
proof -
  have inv: "heap_ok s" "refs_ok X s" "users_ok s" "store_ok s ss" using assms by (auto simp: fs_inv_def)
  obtain fl where fl: "files s (free_map_file s) = Some fl" using inv(3) by (auto simp: users_ok_def)
  obtain i where i: "inodes s (f_inode fl) = Some i" "i_sector i = 0" using map_file_inode [OF inv(3) fl] by blast
  have "deny_write_cnt i = 0" using inv(2) i(1) free_map_not_denied(1) [OF inv(3) fl] by (auto simp: refs_ok_def)
  moreover have lay: "layout ss (used s) (live s ss)" and shape: "map_shape (free_map s) (length ss)"
    and d: "i_data i = ino_at ss 0" and c: "contents ss (ino_at ss 0) = words_bytes (bits (free_map s))"
    using inv(4) i by (auto simp: store_ok_def)
  moreover note layoutD(1,3) [OF lay live_0(1)] and layoutD(5) [OF lay live_0(1) live_0(1)]
  moreover have "i_length (ino_at ss 0) = int (4 * length (bits (free_map s)))"
    using contents_bound(2) [OF assms(2) layoutD(3) [OF lay live_0(1)]] c layoutD(3) [OF lay live_0(1)]
    by (auto simp: disk_inode_ok_def)
  moreover have "free_map_file s \<noteq> NULL" using heap_okD(6) [OF inv(1)] fl by (cases "free_map_file s = NULL") (auto simp: unused_def)
  ultimately show ?thesis using heap_okD(1,2) [OF inv(1)] assms(2) fl i(1) unfolding fm_ready_def by auto
qed

lemma fm_step_inv:
  assumes "fs_inv X s" and "disk s = Some ss" and f: "fm_step s ss b s' ss'" and b: "map_shape b (length ss)"
    and L: "layout ss (bm_used b) (live s ss)"
  shows "fs_inv X s'" "keeps (live s ss) ss ss'" "live s' ss' = live s ss" "used s' = bm_used b"
proof -
  have inv: "heap_ok s" "refs_ok X s" "users_ok s" "store_ok s ss" using assms(1,2) by (auto simp: fs_inv_def)
  note d = fm_stepD [OF f]
  have lay: "layout ss (used s) (live s ss)" using inv(4) by (simp add: store_ok_def)
  let ?D = "data_sectors (ino_at ss 0)"
  have D: "?D \<inter> live s ss = {}" "?D \<inter> data_sectors (ino_at ss 1) = {}"
    using layoutD(5,6) [OF lay] by auto
  note fr = disk_frame [OF inv(4) disk_lengths(1) [OF d(11)] d(12) d(14) D]
  show k: "keeps (live s ss) ss ss'"
    using fr(1,3,5) d(12) layoutD(6) [OF lay live_0(1)] by (auto simp: keeps_def file_at_def)
  have r: "frefs s' = frefs s" "drefs s' = drefs s" "denying s' = denying s"
    by (simp_all add: frefs_def drefs_def denying_def d fun_eq_iff)
  show lv: "live s' ss' = live s ss" using fr(1) by (simp add: live_def d)
  show u: "used s' = bm_used b" by (simp add: used_def d(4))
  have "heap_ok s'"
    using heap_okD [OF inv(1)] d(9,10) unfolding heap_ok_def unused_def d(2,3,6,7,8) by (metis le_trans less_le_trans)
  moreover have "refs_ok X s'" using inv(2) unfolding refs_ok_def r d(2) .
  moreover have "users_ok s'" using inv(3) unfolding users_ok_def d(2,5-7) .
  moreover have "store_ok s' ss'"
  proof (rule store_okI)
    show "\<forall>x \<in> set ss'. length x = 512" by (rule disk_lengths(1) [OF d(11)])
    show "map_shape (free_map s') (length ss')" using b d(4,12) by simp
    show "layout ss' (used s') (live s' ss')" using L k unfolding lv u layout_def keeps_def by auto
    show "dir_wf (root ss')" using store_okD(7) [OF inv(4)] fr(1) by simp
    show "contents ss' (ino_at ss' 0) = words_bytes (bits (free_map s'))" using d(4,13) k by (simp add: keeps_def)
    fix p i
    assume i: "inodes s' p = Some i"
    then have i': "inodes s p = Some i" by (simp add: d(2))
    show "i_data i = ino_at ss' (i_sector i)"
      using store_okD(4) [OF inv(4) i'] k live_open [OF i', of ss] by (simp add: keeps_def)
    show "removed i \<Longrightarrow> 1 < i_sector i \<and> i_sector i \<notin> ran (dmap (root ss'))"
      using store_okD(5,6) [OF inv(4) i'] fr(1) by simp
  qed
  ultimately show "fs_inv X s'" using d(11) by (auto simp: fs_inv_def)
qed

end
