(* ===== verification/Fs_Ops.thy ===== *)
theory Fs_Ops
  imports Fs_Inv
begin

text \<open>
  The operations of the file system on open inodes, files and directories preserve the invariant.
\<close>

section \<open>Changing one inode in memory\<close>

lemma refs_okD:
  assumes "refs_ok X s"
  shows "inodes s p = None \<Longrightarrow> frefs s p = {}" "inodes s p = None \<Longrightarrow> drefs s p = {}" "inodes s p = None \<Longrightarrow> X p = 0"
    "inodes s p = Some i \<Longrightarrow> 0 < open_cnt i" "inodes s p = Some i \<Longrightarrow> open_cnt i = int (card (frefs s p) + card (drefs s p) + X p)"
    "inodes s p = Some i \<Longrightarrow> deny_write_cnt i = int (card (denying s p))"
  using assms unfolding refs_ok_def by blast+

lemma refs_okI:
  assumes "\<And>p. inodes s p = None \<Longrightarrow> frefs s p = {} \<and> drefs s p = {} \<and> X p = 0"
    and "\<And>p i. inodes s p = Some i \<Longrightarrow> 0 < open_cnt i \<and> open_cnt i = int (card (frefs s p) + card (drefs s p) + X p)
      \<and> deny_write_cnt i = int (card (denying s p))"
  shows "refs_ok X s"
  using assms unfolding refs_ok_def by blast

lemma finite_refs:
  assumes "heap_ok s"
  shows "finite (frefs s p)" "finite (drefs s p)" "finite (denying s p)"
proof -
  have "frefs s p \<subseteq> dom (files s)" "drefs s p \<subseteq> dom (dirs s)" "denying s p \<subseteq> dom (files s)"
    by (auto simp: frefs_def drefs_def denying_def)
  then show "finite (frefs s p)" "finite (drefs s p)" "finite (denying s p)"
    using heap_okD(4,5) [OF assms] by (auto elim: finite_subset)
qed

lemma refs_simps [simp]:
  "frefs (s\<lparr>inodes := I\<rparr>) = frefs s" "drefs (s\<lparr>inodes := I\<rparr>) = drefs s" "denying (s\<lparr>inodes := I\<rparr>) = denying s"
  "frefs (s\<lparr>open_inodes := O'\<rparr>) = frefs s" "drefs (s\<lparr>open_inodes := O'\<rparr>) = drefs s" "denying (s\<lparr>open_inodes := O'\<rparr>) = denying s"
  "frefs (s\<lparr>dirs := D\<rparr>) = frefs s" "denying (s\<lparr>dirs := D\<rparr>) = denying s" "drefs (s\<lparr>files := F\<rparr>) = drefs s"
  by (simp_all add: frefs_def drefs_def denying_def fun_eq_iff)

lemma disk_simps' [simp]:
  "disk (s\<lparr>inodes := I\<rparr>) = disk s" "disk (s\<lparr>open_inodes := O'\<rparr>) = disk s" "disk (s\<lparr>files := F\<rparr>) = disk s" "disk (s\<lparr>dirs := D\<rparr>) = disk s"
  "used (s\<lparr>inodes := I\<rparr>) = used s" "used (s\<lparr>open_inodes := O'\<rparr>) = used s" "used (s\<lparr>files := F\<rparr>) = used s" "used (s\<lparr>dirs := D\<rparr>) = used s"
  "live (s\<lparr>open_inodes := O'\<rparr>) ss = live s ss" "live (s\<lparr>files := F\<rparr>) ss = live s ss" "live (s\<lparr>dirs := D\<rparr>) ss = live s ss"
  by (simp_all add: disk_def used_def live_def)

lemma heap_okI:
  assumes "allocs s = []" "0 < next_ptr s" "length (scratch s) = 20" "finite (dom (files s))" "finite (dom (dirs s))"
    "unused s NULL" "\<And>p. next_ptr s \<le> p \<Longrightarrow> unused s p" "distinct (open_inodes s)" "set (open_inodes s) = dom (inodes s)"
    "\<And>p q i j. inodes s p = Some i \<Longrightarrow> inodes s q = Some j \<Longrightarrow> i_sector i = i_sector j \<Longrightarrow> p = q"
  shows "heap_ok s"
  using assms unfolding heap_ok_def by blast

lemma users_okI:
  assumes "\<exists>fl. files s (free_map_file s) = Some fl"
    and "\<And>f fl. files s f = Some fl \<Longrightarrow> \<exists>i. inodes s (f_inode fl) = Some i
          \<and> (if f = free_map_file s then i_sector i = 0 \<and> \<not> deny_write fl else 1 < i_sector i)"
    and "\<And>f fl. files s f = Some fl \<Longrightarrow> 0 \<le> f_pos fl \<and> f_pos fl < 2147483648"
    and "\<And>d dr. dirs s d = Some dr \<Longrightarrow> \<exists>i. inodes s (d_inode dr) = Some i \<and> i_sector i = 1"
  shows "users_ok s"
  using assms unfolding users_ok_def by blast

lemma users_okD:
  assumes "users_ok s"
  shows "\<exists>fl. files s (free_map_file s) = Some fl"
    "files s f = Some fl \<Longrightarrow> \<exists>i. inodes s (f_inode fl) = Some i
          \<and> (if f = free_map_file s then i_sector i = 0 \<and> \<not> deny_write fl else 1 < i_sector i)"
    "files s f = Some fl \<Longrightarrow> 0 \<le> f_pos fl" "files s f = Some fl \<Longrightarrow> f_pos fl < 2147483648"
    "dirs s d = Some dr \<Longrightarrow> \<exists>i. inodes s (d_inode dr) = Some i \<and> i_sector i = 1"
  using assms unfolding users_ok_def by blast+

lemma fs_invI: "heap_ok s \<Longrightarrow> refs_ok X s \<Longrightarrow> users_ok s \<Longrightarrow> disk s = Some ss \<Longrightarrow> store_ok s ss \<Longrightarrow> fs_inv X s"
  by (auto simp: fs_inv_def)

lemma inode_upd_sector:
  assumes "inodes s p = Some i" and "i_sector i' = i_sector i" and "inodes (s\<lparr>inodes := (inodes s)(p \<mapsto> i')\<rparr>) q = Some j"
  shows "\<exists>j0. inodes s q = Some j0 \<and> i_sector j0 = i_sector j"
  using assms by (cases "q = p") auto

lemma live_upd:
  assumes "inodes s p = Some i" and "i_sector i' = i_sector i"
  shows "live (s\<lparr>inodes := (inodes s)(p \<mapsto> i')\<rparr>) ss = live s ss"
proof -
  let ?s = "s\<lparr>inodes := (inodes s)(p \<mapsto> i')\<rparr>"
  have "\<exists>j. inodes ?s q = Some j \<and> i_sector j = i_sector j0" if "inodes s q = Some j0" for q j0
    using that assms by (cases "q = p") auto
  then have "{a. \<exists>q j. inodes ?s q = Some j \<and> i_sector j = a} = {a. \<exists>q j. inodes s q = Some j \<and> i_sector j = a}"
    using inode_upd_sector [OF assms] by blast
  then show ?thesis by (simp add: live_def)
qed

lemma inode_upd_inv:
  assumes "fs_inv X s" and p: "inodes s p = Some i" and i': "i_sector i' = i_sector i" "i_data i' = i_data i"
    and r: "\<And>ss. disk s = Some ss \<Longrightarrow> removed i' \<Longrightarrow> removed i \<or> 1 < i_sector i \<and> i_sector i \<notin> ran (dmap (root ss))"
    and c: "0 < open_cnt i'" "open_cnt i' = int (card (frefs s p) + card (drefs s p) + Y p)" "deny_write_cnt i' = deny_write_cnt i"
    and Y: "\<And>q. q \<noteq> p \<Longrightarrow> Y q = X q"
  shows "fs_inv Y (s\<lparr>inodes := (inodes s)(p \<mapsto> i')\<rparr>)"
proof -
  let ?s = "s\<lparr>inodes := (inodes s)(p \<mapsto> i')\<rparr>"
  from fs_invE [OF assms(1)] obtain ss0 where s: "disk s = Some ss0" "heap_ok s" "refs_ok X s" "users_ok s" "store_ok s ss0" .
  note o = inode_upd_sector [OF p i'(1)] and lv = live_upd [OF p i'(1)]
  have "heap_ok ?s"
  proof (rule heap_okI)
    have u: "unused ?s q = unused s q" for q using p by (auto simp: unused_def)
    then show "unused ?s NULL" using heap_okD(6) [OF s(2)] by simp
    show "unused ?s q" if "next_ptr ?s \<le> q" for q using heap_okD(7) [OF s(2), of q] u that by simp
    show "set (open_inodes ?s) = dom (inodes ?s)" using heap_okD(9) [OF s(2)] p by auto
    fix a b x y
    assume ab: "inodes ?s a = Some x" "inodes ?s b = Some y" "i_sector x = i_sector y"
    obtain x0 y0 where "inodes s a = Some x0" "i_sector x0 = i_sector x" "inodes s b = Some y0" "i_sector y0 = i_sector y"
      using o [OF ab(1)] o [OF ab(2)] by blast
    then show "a = b" using heap_okD(10) [OF s(2)] ab(3) by simp
  qed (use heap_okD [OF s(2)] in simp_all)
  moreover have "refs_ok Y ?s"
  proof (rule refs_okI)
    fix q
    show "inodes ?s q = None \<Longrightarrow> frefs ?s q = {} \<and> drefs ?s q = {} \<and> Y q = 0"
      using refs_okD(1-3) [OF s(3), of q] Y [of q] by (auto split: if_splits)
    fix j
    show "inodes ?s q = Some j \<Longrightarrow> 0 < open_cnt j \<and> open_cnt j = int (card (frefs ?s q) + card (drefs ?s q) + Y q)
        \<and> deny_write_cnt j = int (card (denying ?s q))"
      using refs_okD(4-6) [OF s(3), of q] refs_okD(6) [OF s(3) p] Y [of q] c by (auto split: if_splits)
  qed
  moreover have "users_ok ?s"
  proof (rule users_okI)
    show "\<exists>fl. files ?s (free_map_file ?s) = Some fl" using users_okD(1) [OF s(4)] by simp
    fix f fl
    assume "files ?s f = Some fl"
    then have f: "files s f = Some fl" by simp
    show "\<exists>i. inodes ?s (f_inode fl) = Some i \<and> (if f = free_map_file ?s then i_sector i = 0 \<and> \<not> deny_write fl else 1 < i_sector i)"
      using users_okD(2) [OF s(4) f] p i'(1) by (cases "f_inode fl = p") auto
    show "0 \<le> f_pos fl \<and> f_pos fl < 2147483648" using users_okD(3,4) [OF s(4) f] by simp
  next
    fix d dr
    assume "dirs ?s d = Some dr"
    then show "\<exists>i. inodes ?s (d_inode dr) = Some i \<and> i_sector i = 1"
      using users_okD(5) [OF s(4), of d dr] p i'(1) by (cases "d_inode dr = p") auto
  qed
  moreover have "store_ok ?s ss0"
  proof (rule store_okI)
    show "layout ss0 (used ?s) (live ?s ss0)" using store_okD(3) [OF s(5)] lv by simp
    fix q j
    assume j: "inodes ?s q = Some j"
    show "i_data j = ino_at ss0 (i_sector j)" using j store_okD(4) [OF s(5), of q] store_okD(4) [OF s(5) p] i' by (auto split: if_splits)
    show "removed j \<Longrightarrow> 1 < i_sector j \<and> i_sector j \<notin> ran (dmap (root ss0))"
      using j r [OF s(1)] store_okD(5,6) [OF s(5), of q] store_okD(5,6) [OF s(5) p] i'(1) by (auto split: if_splits)
  qed (use store_okD [OF s(5)] in simp_all)
  ultimately show "fs_inv Y ?s" using s(1) by (intro fs_invI) simp_all
qed

section \<open>Closing an inode\<close>

definition drop_inode :: "addr \<Rightarrow> fs \<Rightarrow> fs" where
  "drop_inode p s = s\<lparr>open_inodes := remove1 p (open_inodes s), inodes := (inodes s)(p := None)\<rparr>"

lemma drop_inode_inv:
  assumes "fs_inv X s" and p: "inodes s p = Some i" "frefs s p = {}" "drefs s p = {}" "X p = 1"
  shows "fs_inv (X(p := 0)) (drop_inode p s)" "live (drop_inode p s) ss \<subseteq> live s ss" "disk (drop_inode p s) = disk s" "used (drop_inode p s) = used s"
proof -
  let ?s = "drop_inode p s"
  from fs_invE [OF assms(1)] obtain ss0 where s: "disk s = Some ss0" "heap_ok s" "refs_ok X s" "users_ok s" "store_ok s ss0" .
  show lv: "live ?s ss \<subseteq> live s ss" for ss by (auto simp: live_def drop_inode_def split: if_splits)
  show d: "disk ?s = disk s" "used ?s = used s" by (simp_all add: drop_inode_def)
  have i: "inodes ?s = (inodes s)(p := None)" "files ?s = files s" "dirs ?s = dirs s" "frefs ?s = frefs s" "drefs ?s = drefs s"
    "denying ?s = denying s" "open_inodes ?s = remove1 p (open_inodes s)" "free_map ?s = free_map s" "free_map_file ?s = free_map_file s"
    "allocs ?s = allocs s" "next_ptr ?s = next_ptr s" "scratch ?s = scratch s"
    by (simp_all add: drop_inode_def)
  have "heap_ok ?s"
  proof -
    have "unused s q \<Longrightarrow> unused ?s q" for q by (auto simp: unused_def i)
    moreover have "set (remove1 p (open_inodes s)) = dom ((inodes s)(p := None))" "distinct (remove1 p (open_inodes s))"
      using heap_okD(8,9) [OF s(2)] by auto
    moreover have "a = b" if "((inodes s)(p := None)) a = Some x" "((inodes s)(p := None)) b = Some y" "i_sector x = i_sector y" for a b x y
      using that heap_okD(10) [OF s(2), of a _ b] by (auto split: if_splits)
    ultimately show ?thesis using heap_okD [OF s(2)] unfolding heap_ok_def i by blast
  qed
  moreover have "refs_ok (X(p := 0)) ?s"
    by (rule refs_okI) (use refs_okD [OF s(3)] p(2,3) in \<open>auto simp: i split: if_splits\<close>)
  moreover have "users_ok ?s"
  proof -
    have "f_inode fl \<noteq> p" if "files s f = Some fl" for f fl using p(2) that by (auto simp: frefs_def)
    moreover have "d_inode dr \<noteq> p" if "dirs s d = Some dr" for d dr using p(3) that by (auto simp: drefs_def)
    ultimately show ?thesis using s(4) unfolding users_ok_def i by (auto simp del: One_nat_def)
  qed
  moreover have "store_ok ?s ss0"
  proof (rule store_okI)
    show "layout ss0 (used ?s) (live ?s ss0)" using layout_mono [OF store_okD(3) [OF s(5)] lv] d(2) by simp
    fix q j
    assume "inodes ?s q = Some j"
    then have j: "inodes s q = Some j" by (auto simp: i split: if_splits)
    show "i_data j = ino_at ss0 (i_sector j)" by (rule store_okD(4) [OF s(5) j])
    show "removed j \<Longrightarrow> 1 < i_sector j \<and> i_sector j \<notin> ran (dmap (root ss0))" using store_okD(5,6) [OF s(5) j] by blast
  qed (use store_okD [OF s(5)] in \<open>simp_all add: i\<close>)
  ultimately show "fs_inv (X(p := 0)) ?s" using s(1) d by (intro fs_invI) simp_all
qed

lemma drop_inode_simps [simp]:
  "inodes (drop_inode p s) = (inodes s)(p := None)" "files (drop_inode p s) = files s" "dirs (drop_inode p s) = dirs s"
  "open_inodes (drop_inode p s) = remove1 p (open_inodes s)" "free_map (drop_inode p s) = free_map s"
  "free_map_file (drop_inode p s) = free_map_file s" "disk (drop_inode p s) = disk s" "used (drop_inode p s) = used s"
  "frefs (drop_inode p s) = frefs s" "drefs (drop_inode p s) = drefs s" "denying (drop_inode p s) = denying s"
  "allocs (drop_inode p s) = allocs s" "next_ptr (drop_inode p s) = next_ptr s"
  "scratch (drop_inode p s) = scratch s"
  by (simp_all add: drop_inode_def)

text \<open>What closing an inode does: drop one reference; with the last one, the inode, and if it was removed, its sectors.\<close>

definition close_rel :: "addr \<Rightarrow> fs \<Rightarrow> fs \<Rightarrow> bool" where
  "close_rel p s s' \<longleftrightarrow> (\<exists>i. inodes s p = Some i \<and>
     (open_cnt i \<noteq> 1 \<and> s' = s\<lparr>inodes := (inodes s)(p \<mapsto> i\<lparr>open_cnt := open_cnt i - 1\<rparr>)\<rparr>
      \<or> open_cnt i = 1 \<and> \<not> removed i \<and> s' = drop_inode p s
      \<or> open_cnt i = 1 \<and> removed i \<and> (\<exists>ss b t ss1 b' ss2. disk s = Some ss
          \<and> fm_step (drop_inode p s) ss b t ss1 \<and> map_shape b (length ss) \<and> bm_used b = used s - {i_sector i}
          \<and> fm_step t ss1 b' s' ss2 \<and> map_shape b' (length ss) \<and> bm_used b' = bm_used b - data_sectors (i_data i))))"

lemma close_rel_removed:
  assumes "inodes s p = Some i" "open_cnt i = 1" "removed i" "disk s = Some ss" "fm_step (drop_inode p s) ss b t ss1"
    "map_shape b (length ss)" "bm_used b = used s - {i_sector i}"
    "fm_step t ss1 b' s' ss2" "map_shape b' (length ss)" "bm_used b' = bm_used b - data_sectors (i_data i)"
  shows "close_rel p s s'"
  unfolding close_rel_def using assms by blast

lemma close_relE:
  assumes "close_rel p s s'"
  obtains (more) i where "inodes s p = Some i" "open_cnt i \<noteq> 1" "s' = s\<lparr>inodes := (inodes s)(p \<mapsto> i\<lparr>open_cnt := open_cnt i - 1\<rparr>)\<rparr>"
  | (last) i where "inodes s p = Some i" "open_cnt i = 1" "\<not> removed i" "s' = drop_inode p s"
  | (gone) i ss b t ss1 b' ss2 where "inodes s p = Some i" "open_cnt i = 1" "removed i" "disk s = Some ss"
      "fm_step (drop_inode p s) ss b t ss1" "map_shape b (length ss)" "bm_used b = used s - {i_sector i}"
      "fm_step t ss1 b' s' ss2" "map_shape b' (length ss)" "bm_used b' = bm_used b - data_sectors (i_data i)"
  using assms unfolding close_rel_def by (elim exE conjE disjE) blast+

lemma quiet_inodes:
  assumes "quiet s s'"
  shows "quiet (s\<lparr>inodes := I\<rparr>) (s'\<lparr>inodes := I\<rparr>)"
proof -
  obtain B k n where "s' = s\<lparr>blocks := B, allocs := drop k (allocs s), next_ptr := n\<rparr>" "geometry B = geometry (blocks s)" "next_ptr s \<le> n"
    using assms unfolding quiet_def by blast
  then show ?thesis by (intro quietI [where B = B and k = k and n = n]) simp_all
qed

lemma fm_step_inodes:
  assumes "fm_step s ss b s' ss'"
  shows "fm_step (s\<lparr>inodes := I\<rparr>) ss b (s'\<lparr>inodes := I\<rparr>) ss'"
proof -
  have "s\<lparr>inodes := I, free_map := b\<rparr> = s\<lparr>free_map := b, inodes := I\<rparr>" by simp
  moreover have "quiet (s\<lparr>free_map := b, inodes := I\<rparr>) (s'\<lparr>inodes := I\<rparr>)"
    using assms by (intro quiet_inodes) (simp add: fm_step_def)
  ultimately show ?thesis using assms unfolding fm_step_def disk_simps' by metis
qed

lemma quiet_files:
  assumes "quiet s s'"
  shows "quiet (s\<lparr>files := F\<rparr>) (s'\<lparr>files := F\<rparr>)"
proof -
  obtain B k n where "s' = s\<lparr>blocks := B, allocs := drop k (allocs s), next_ptr := n\<rparr>" "geometry B = geometry (blocks s)" "next_ptr s \<le> n"
    using assms unfolding quiet_def by blast
  then show ?thesis by (intro quietI [where B = B and k = k and n = n]) simp_all
qed

lemma fm_step_files:
  assumes "fm_step s ss b s' ss'"
  shows "fm_step (s\<lparr>files := F\<rparr>) ss b (s'\<lparr>files := F\<rparr>) ss'"
proof -
  have "s\<lparr>files := F, free_map := b\<rparr> = s\<lparr>free_map := b, files := F\<rparr>" by simp
  moreover have "quiet (s\<lparr>free_map := b, files := F\<rparr>) (s'\<lparr>files := F\<rparr>)"
    using assms by (intro quiet_files) (simp add: fm_step_def)
  ultimately show ?thesis using assms unfolding fm_step_def disk_simps' by metis
qed

lemma quiet_dirs:
  assumes "quiet s s'"
  shows "quiet (s\<lparr>dirs := D\<rparr>) (s'\<lparr>dirs := D\<rparr>)"
proof -
  obtain B k n where "s' = s\<lparr>blocks := B, allocs := drop k (allocs s), next_ptr := n\<rparr>" "geometry B = geometry (blocks s)" "next_ptr s \<le> n"
    using assms unfolding quiet_def by blast
  then show ?thesis by (intro quietI [where B = B and k = k and n = n]) simp_all
qed

lemma fm_step_dirs:
  assumes "fm_step s ss b s' ss'"
  shows "fm_step (s\<lparr>dirs := D\<rparr>) ss b (s'\<lparr>dirs := D\<rparr>) ss'"
proof -
  have "s\<lparr>dirs := D, free_map := b\<rparr> = s\<lparr>free_map := b, dirs := D\<rparr>" by simp
  moreover have "quiet (s\<lparr>free_map := b, dirs := D\<rparr>) (s'\<lparr>dirs := D\<rparr>)"
    using assms by (intro quiet_dirs) (simp add: fm_step_def)
  ultimately show ?thesis using assms unfolding fm_step_def disk_simps' by metis
qed

lemma close_rel_files:
  assumes "close_rel p s s'"
  shows "close_rel p (s\<lparr>files := F\<rparr>) (s'\<lparr>files := F\<rparr>)"
proof -
  have d: "drop_inode p (s\<lparr>files := F\<rparr>) = (drop_inode p s)\<lparr>files := F\<rparr>" by (simp add: drop_inode_def)
  from assms show ?thesis
  proof (cases rule: close_relE)
    case (gone i ss b t ss1 b' ss2)
    have a: "fm_step (drop_inode p (s\<lparr>files := F\<rparr>)) ss b (t\<lparr>files := F\<rparr>) ss1" using fm_step_files [OF gone(5)] d by simp
    show ?thesis by (rule close_rel_removed [OF _ _ _ _ a _ _ fm_step_files [OF gone(8)]]) (use gone in simp_all)
  qed (simp_all add: close_rel_def d)
qed

lemma close_rel_dirs:
  assumes "close_rel p s s'"
  shows "close_rel p (s\<lparr>dirs := D\<rparr>) (s'\<lparr>dirs := D\<rparr>)"
proof -
  have d: "drop_inode p (s\<lparr>dirs := D\<rparr>) = (drop_inode p s)\<lparr>dirs := D\<rparr>" by (simp add: drop_inode_def)
  from assms show ?thesis
  proof (cases rule: close_relE)
    case (gone i ss b t ss1 b' ss2)
    have a: "fm_step (drop_inode p (s\<lparr>dirs := D\<rparr>)) ss b (t\<lparr>dirs := D\<rparr>) ss1" using fm_step_dirs [OF gone(5)] d by simp
    show ?thesis by (rule close_rel_removed [OF _ _ _ _ a _ _ fm_step_dirs [OF gone(8)]]) (use gone in simp_all)
  qed (simp_all add: close_rel_def d)
qed

lemma bytes_to_sectors_nsec:
  assumes "0 \<le> len" "len < 2147483648 - 511"
  shows "bytes_to_sectors len = nsec len" "nsec len < 4194305"
proof -
  have w: "wrap_s32 (len + 512 - 1) = len + 511" using assms by (simp add: wrap_s32_def)
  have "c_div (len + 511) 512 = (len + 511) div 512" using assms by (simp add: c_div_def)
  moreover have b: "0 \<le> (len + 511) div 512" "(len + 511) div 512 < 4194305" using assms by linarith+
  ultimately have "bytes_to_sectors len = nat ((len + 511) div 512)"
    unfolding bytes_to_sectors_def w by (simp add: wrap_u32_def)
  moreover have n: "nsec len = nat ((len + 511) div 512)"
    using assms(1) by (simp add: nsec_def nat_div_distrib nat_add_distrib)
  ultimately show "bytes_to_sectors len = nsec len" "nsec len < 4194305" using b by simp_all
qed

lemma inode_update_simps: "open_cnt_update f i = i\<lparr>open_cnt := f (open_cnt i)\<rparr>" "deny_write_cnt_update f i = i\<lparr>deny_write_cnt := f (deny_write_cnt i)\<rparr>"
  by (cases i; simp)+

lemma sectors_released:
  assumes "disk_inode_ok n d"
  shows "i_start d + bytes_to_sectors (i_length d) \<le> n" "{i_start d ..< i_start d + bytes_to_sectors (i_length d)} = data_sectors d"
  using assms bytes_to_sectors_nsec(1) [of "i_length d"] by (simp_all add: disk_inode_ok_def data_sectors_def)

lemma fm_ready_other:
  assumes "fm_ready s ss" and "disk s' = disk s" "allocs s' = allocs s" "next_ptr s' = next_ptr s" "free_map_file s' = free_map_file s"
    "free_map s' = free_map s" "files s' (free_map_file s) = files s (free_map_file s)"
    "\<And>fl. files s (free_map_file s) = Some fl \<Longrightarrow> inodes s' (f_inode fl) = inodes s (f_inode fl)"
  shows "fm_ready s' ss"
  using assms(1,8) unfolding fm_ready_def assms(2-7) by auto

lemma inode_close_rel:
  assumes i: "inodes s p = Some i" "p \<noteq> NULL" "p \<in> set (open_inodes s)" "0 < open_cnt i"
    and r: "open_cnt i = 1 \<Longrightarrow> removed i \<Longrightarrow> fm_ready s ss \<and> i_sector i < length ss \<and> i_sector i \<in> used s
      \<and> disk_inode_ok (length ss) (i_data i) \<and> data_sectors (i_data i) \<subseteq> used s - {i_sector i}
      \<and> (\<forall>fl. files s (free_map_file s) = Some fl \<longrightarrow> f_inode fl \<noteq> p)"
  shows "\<exists>s'. inode_close p s = Some s' \<and> close_rel p s s'"
proof (cases "open_cnt i = 1 \<and> removed i")
  case False
  then show ?thesis
    using i by (auto simp: inode_close_def upd_inode_def close_rel_def drop_inode_def Let_def inode_update_simps [of "\<lambda>n. n - 1"])
next
  case True
  let ?i = "i\<lparr>open_cnt := 0\<rparr>" and ?d = "i_data i"
  let ?s2 = "s\<lparr>inodes := (inodes s)(p \<mapsto> ?i), open_inodes := remove1 p (open_inodes s)\<rparr>"
  note r = r [OF conjunct1 [OF True] conjunct2 [OF True]]
  have d: "disk s = Some ss" using r by (simp add: fm_ready_def)
  have r2: "fm_ready ?s2 ss" by (rule fm_ready_other [OF conjunct1 [OF r]]) (use r in \<open>auto simp: disk_def\<close>)
  have "i_sector i + 1 \<le> length ss" "{i_sector i ..< i_sector i + 1} \<subseteq> used ?s2" "{i_sector i ..< i_sector i + 1} = {i_sector i}"
    using r by auto
  then obtain b t ss1 where t: "free_map_release (i_sector i) 1 ?s2 = Some t" "fm_step ?s2 ss b t ss1" "map_shape b (length ss)"
      "bm_used b = used s - {i_sector i}"
    using free_map_release_ok [OF r2, of "i_sector i" 1] disk_simps' by metis
  note rt = fm_ready_step(1) [OF r2 t(3,2)]
  note td = fm_stepD [OF t(2)]
  have ut: "used t = used s - {i_sector i}" by (simp add: used_def td(4) t(4))
  have "i_start ?d + bytes_to_sectors (i_length ?d) \<le> length ss1" "{i_start ?d ..< i_start ?d + bytes_to_sectors (i_length ?d)} \<subseteq> used t"
    using sectors_released [of "length ss" ?d] r td(12) ut by auto
  then obtain b' t' ss2 where t': "free_map_release (i_start ?d) (bytes_to_sectors (i_length ?d)) t = Some t'" "fm_step t ss1 b' t' ss2"
      "map_shape b' (length ss1)" "bm_used b' = used t - {i_start ?d ..< i_start ?d + bytes_to_sectors (i_length ?d)}"
    using free_map_release_ok [OF rt] by metis
  let ?I = "(inodes s)(p := None)"
  have "inodes t' = inodes ?s2" using fm_stepD(2) [OF t'(2)] td(2) by simp
  then have "inode_close p s = Some (t'\<lparr>inodes := ?I\<rparr>)"
    using i True t(1) t'(1) by (simp add: inode_close_def upd_inode_def Let_def inode_update_simps [of "\<lambda>n. n - 1"])
  moreover have "close_rel p s (t'\<lparr>inodes := ?I\<rparr>)"
  proof (rule close_rel_removed [OF i(1) _ _ d _ t(3) t(4) fm_step_inodes [OF t'(2)]])
    have "drop_inode p s = ?s2\<lparr>inodes := ?I\<rparr>" by (simp add: drop_inode_def)
    then show "fm_step (drop_inode p s) ss b (t\<lparr>inodes := ?I\<rparr>) ss1" using fm_step_inodes [OF t(2), of ?I] by simp
    show "bm_used b' = bm_used b - data_sectors ?d" using t'(4) sectors_released(2) [of "length ss" ?d] r ut t(4) by simp
  qed (use True t'(3) td(12) in simp_all)
  ultimately show ?thesis by blast
qed

lemma layout_diff:
  assumes "layout ss U L" and "\<And>a. a \<in> L \<Longrightarrow> a \<notin> D" "\<And>a. a \<in> L \<Longrightarrow> data_sectors (ino_at ss a) \<inter> D = {}"
  shows "layout ss (U - D) L"
  using assms unfolding layout_def by blast

lemma layout_keeps:
  assumes "layout ss U L" and "keeps L ss ss'"
  shows "layout ss' U L"
  using assms unfolding layout_def keeps_def by auto

lemma close_inv:
  assumes inv: "fs_inv X u" and x: "0 < X p" and c: "close_rel p u u'" and d: "disk u = Some ss"
  obtains ss' where "fs_inv (X(p := X p - 1)) u'" "disk u' = Some ss'" "live u' ss' \<subseteq> live u ss" "keeps (live u' ss') ss ss'"
    "used u' \<subseteq> used u" "files u' = files u" "dirs u' = dirs u" "free_map_file u' = free_map_file u"
    "\<forall>q. q \<noteq> p \<longrightarrow> inodes u' q = inodes u q" "scratch u' = scratch u"
    "\<forall>q j. inodes u' q = Some j \<longrightarrow> (\<exists>j0. inodes u q = Some j0 \<and> i_sector j0 = i_sector j)"
proof -
  have s: "heap_ok u" "refs_ok X u" "users_ok u" "store_ok u ss" using inv d by (auto simp: fs_inv_def)
  obtain i where i: "inodes u p = Some i" using c by (auto simp: close_rel_def)
  note ri = refs_okD(5) [OF s(2) i]
  have one: "frefs u p = {}" "drefs u p = {}" "X p = 1" if "open_cnt i = 1"
  proof -
    have "finite (frefs u p)" "finite (drefs u p)" by (rule finite_refs [OF s(1)])+
    moreover have "card (frefs u p) = 0" "card (drefs u p) = 0" "X p = 1" using ri that x by linarith+
    ultimately show "frefs u p = {}" "drefs u p = {}" "X p = 1" by simp_all
  qed
  from c show ?thesis
  proof (cases rule: close_relE)
    case (more i')
    then have more: "open_cnt i \<noteq> 1" "u' = u\<lparr>inodes := (inodes u)(p \<mapsto> i\<lparr>open_cnt := open_cnt i - 1\<rparr>)\<rparr>" using i by simp_all
    have "open_cnt i = int (card (frefs u p) + card (drefs u p) + (X p - 1)) + 1" using ri x by linarith
    moreover have "0 < open_cnt i - 1" using refs_okD(4) [OF s(2) i] more(1) by linarith
    ultimately have "fs_inv (X(p := X p - 1)) u'" unfolding more(2) by (intro inode_upd_inv [OF inv i]) simp_all
    moreover have "live u' ss = live u ss" unfolding more(2) by (rule live_upd [OF i]) simp
    moreover have "\<forall>q j. inodes u' q = Some j \<longrightarrow> (\<exists>j0. inodes u q = Some j0 \<and> i_sector j0 = i_sector j)" using i unfolding more(2) by (auto split: if_splits)
    ultimately show ?thesis using more(2) d by (intro that [of ss]) simp_all
  next
    case (last i')
    then have last: "open_cnt i = 1" "u' = drop_inode p u" using i by simp_all
    show ?thesis using drop_inode_inv [OF inv i one [OF last(1)]] one(3) [OF last(1)] last(2) d
      by (intro that [of ss]) (auto split: if_splits)
  next
    case (gone i' ss' b t ss1 b' ss2)
    then have gone: "open_cnt i = 1" "removed i" "fm_step (drop_inode p u) ss b t ss1" "map_shape b (length ss)"
      "bm_used b = used u - {i_sector i}" "fm_step t ss1 b' u' ss2" "map_shape b' (length ss)" "bm_used b' = bm_used b - data_sectors (i_data i)"
      using i d by simp_all
    let ?u = "drop_inode p u" and ?a = "i_sector i"
    note inv0 = drop_inode_inv [OF inv i one [OF gone(1)]]
    have lay: "layout ss (used u) (live u ss)" and data: "i_data i = ino_at ss ?a" and live_a: "?a \<in> live u ss"
      using store_okD(3) [OF s(4)] store_okD(4) [OF s(4) i] live_open [OF i] by auto
    have fresh: "?a \<notin> live ?u ss"
    proof -
      have "q = p" if "inodes u q = Some j" "i_sector j = ?a" for q j using heap_okD(10) [OF s(1) that(1) i] that(2) by simp
      then show ?thesis using store_okD(5,6) [OF s(4) i gone(2)] by (auto simp: live_def split: if_splits)
    qed
    have lay0: "layout ss (used u) (live ?u ss)" by (rule layout_mono [OF lay inv0(2)])
    have lay1: "layout ss (bm_used b) (live ?u ss)" unfolding gone(5)
      by (rule layout_diff [OF lay0]) (use fresh layoutD(5) [OF lay live_a] inv0(2) [of ss] in auto)
    note s1 = fm_step_inv [OF inv0(1) inv0(3) [unfolded d] gone(3,4) lay1]
    have ia: "data_sectors (ino_at ss c) \<inter> data_sectors (ino_at ss ?a) = {}" "c \<notin> data_sectors (ino_at ss ?a)" if "c \<in> live ?u ss" for c
    proof -
      have "c \<in> live u ss" "c \<noteq> ?a" using that inv0(2) [of ss] fresh by auto
      then show "data_sectors (ino_at ss c) \<inter> data_sectors (ino_at ss ?a) = {}" "c \<notin> data_sectors (ino_at ss ?a)"
        using layoutD(5,6) [OF lay _ live_a, of c] by auto
    qed
    have "layout ss (bm_used b') (live ?u ss)" unfolding gone(8) data by (rule layout_diff [OF lay1]) (use ia in auto)
    then have lay2: "layout ss1 (bm_used b') (live t ss1)" using layout_keeps [OF _ s1(2)] s1(3) by simp
    note t = fm_stepD [OF gone(3)]
    have shape: "map_shape b' (length ss1)" using gone(7) t(12) by simp
    note s2 = fm_step_inv [OF s1(1) t(11) gone(6) shape lay2]
    note t' = fm_stepD [OF gone(6)]
    show ?thesis
    proof (rule that [of ss2])
      show "fs_inv (X(p := X p - 1)) u'" using s2(1) one(3) [OF gone(1)] by simp
      show "disk u' = Some ss2" by (rule t'(11))
      show "live u' ss2 \<subseteq> live u ss" using s2(3) s1(3) inv0(2) [of ss] by simp
      show "keeps (live u' ss2) ss ss2" using keeps_trans [OF s1(2)] s2(2) s2(3) s1(3) by simp
      show "used u' \<subseteq> used u" using s2(4) gone(5,8) by auto
    qed (auto simp: t t' split: if_splits)
  qed
qed

section \<open>Opening an inode\<close>

definition fresh_inode :: "nat \<Rightarrow> byte list list \<Rightarrow> inode" where
  "fresh_inode sec ss = \<lparr>i_sector = sec, open_cnt = 1, removed = False, deny_write_cnt = 0, i_data = ino_at ss sec\<rparr>"

lemma new_inode_inv:
  fixes s :: fs
  assumes inv: "fs_inv X s" and d: "disk s = Some ss" and p: "unused s p" "p < next_ptr s" "p \<noteq> NULL"
    and sec: "sec \<in> live s ss" "\<And>q j. inodes s q = Some j \<Longrightarrow> i_sector j \<noteq> sec"
  defines "s' \<equiv> s\<lparr>open_inodes := p # open_inodes s, inodes := (inodes s)(p \<mapsto> fresh_inode sec ss)\<rparr>"
  shows "fs_inv (X(p := 1)) s'" "live s' ss = live s ss"
proof -
  have s: "heap_ok s" "refs_ok X s" "users_ok s" "store_ok s ss" using inv d by (auto simp: fs_inv_def)
  have n: "inodes s p = None" using p(1) by (simp add: unused_def)
  have f: "inodes s' = (inodes s)(p \<mapsto> fresh_inode sec ss)" "files s' = files s" "dirs s' = dirs s" "frefs s' = frefs s" "drefs s' = drefs s"
    "denying s' = denying s" "open_inodes s' = p # open_inodes s" "free_map s' = free_map s" "free_map_file s' = free_map_file s"
    "allocs s' = allocs s" "next_ptr s' = next_ptr s" "scratch s' = scratch s" "disk s' = disk s" "used s' = used s"
    by (simp_all add: s'_def)
  show lv: "live s' ss = live s ss"
  proof -
    have "\<exists>q' j'. inodes s' q' = Some j' \<and> i_sector j' = i_sector j" if "inodes s q = Some j" for q j
      using that n by (intro exI [of _ q] exI [of _ j]) (auto simp: f)
    moreover have "i_sector j = sec \<or> inodes s q = Some j" if "inodes s' q = Some j" for q j
      using that by (auto simp: f fresh_inode_def split: if_splits)
    ultimately have "(\<exists>q j. inodes s' q = Some j \<and> i_sector j = a) \<longrightarrow> a = sec \<or> (\<exists>q j. inodes s q = Some j \<and> i_sector j = a)"
      "(\<exists>q j. inodes s q = Some j \<and> i_sector j = a) \<longrightarrow> (\<exists>q j. inodes s' q = Some j \<and> i_sector j = a)" for a
      by blast+
    then show ?thesis using sec(1) unfolding live_def set_eq_iff Un_iff mem_Collect_eq by metis
  qed
  have "heap_ok s'"
  proof (rule heap_okI)
    show "unused s' NULL" using heap_okD(6) [OF s(1)] p(3) by (simp add: unused_def f)
    show "unused s' q" if "next_ptr s' \<le> q" for q using heap_okD(7) [OF s(1), of q] p(2) that by (simp add: unused_def f)
    show "distinct (open_inodes s')" using heap_okD(8,9) [OF s(1)] n by (auto simp: f)
    show "set (open_inodes s') = dom (inodes s')" using heap_okD(9) [OF s(1)] by (simp add: f)
    show "a = b" if "inodes s' a = Some x" "inodes s' b = Some y" "i_sector x = i_sector y" for a b x y
      using that heap_okD(10) [OF s(1), of a x b y] sec(2) [of a x] sec(2) [of b y] by (auto simp: f fresh_inode_def split: if_splits)
  qed (use heap_okD [OF s(1)] in \<open>simp_all add: f\<close>)
  moreover have "refs_ok (X(p := 1)) s'"
  proof (rule refs_okI)
    fix q
    show "inodes s' q = None \<Longrightarrow> frefs s' q = {} \<and> drefs s' q = {} \<and> (X(p := 1)) q = 0"
      using refs_okD(1-3) [OF s(2), of q] by (simp add: f split: if_splits)
    fix j
    assume j: "inodes s' q = Some j"
    show "0 < open_cnt j \<and> open_cnt j = int (card (frefs s' q) + card (drefs s' q) + (X(p := 1)) q) \<and> deny_write_cnt j = int (card (denying s' q))"
    proof (cases "q = p")
      case True
      have "denying s p \<subseteq> frefs s p" by (auto simp: denying_def frefs_def)
      then show ?thesis using j True refs_okD(1,2) [OF s(2) n] by (auto simp: f fresh_inode_def)
    next
      case False
      then show ?thesis using j refs_okD(4-6) [OF s(2), of q j] by (simp add: f)
    qed
  qed
  moreover have "users_ok s'"
  proof (rule users_okI)
    show "\<exists>fl. files s' (free_map_file s') = Some fl" using users_okD(1) [OF s(3)] by (simp add: f)
    fix g fl
    assume "files s' g = Some fl"
    then have g: "files s g = Some fl" by (simp add: f)
    show "\<exists>i. inodes s' (f_inode fl) = Some i \<and> (if g = free_map_file s' then i_sector i = 0 \<and> \<not> deny_write fl else 1 < i_sector i)"
      using users_okD(2) [OF s(3) g] n by (cases "f_inode fl = p") (auto simp: f)
    show "0 \<le> f_pos fl \<and> f_pos fl < 2147483648" using users_okD(3,4) [OF s(3) g] by simp
  next
    fix e dr
    assume "dirs s' e = Some dr"
    then show "\<exists>i. inodes s' (d_inode dr) = Some i \<and> i_sector i = 1"
      using users_okD(5) [OF s(3), of e dr] n by (cases "d_inode dr = p") (auto simp: f)
  qed
  moreover have "store_ok s' ss"
  proof (rule store_okI)
    show "layout ss (used s') (live s' ss)" using store_okD(3) [OF s(4)] lv by (simp add: f)
    fix q j
    assume "inodes s' q = Some j"
    then have j: "j = fresh_inode sec ss \<or> inodes s q = Some j" by (auto simp: f split: if_splits)
    show "i_data j = ino_at ss (i_sector j)" using j store_okD(4) [OF s(4), of q j] by (auto simp: fresh_inode_def)
    show "removed j \<Longrightarrow> 1 < i_sector j \<and> i_sector j \<notin> ran (dmap (root ss))"
      using j store_okD(5,6) [OF s(4), of q j] by (auto simp: fresh_inode_def)
  qed (use store_okD [OF s(4)] in \<open>simp_all add: f\<close>)
  ultimately show "fs_inv (X(p := 1)) s'" using d by (intro fs_invI) (simp_all add: f)
qed

lemma malloc_fresh:
  assumes "heap_ok s" and "disk s = Some ss"
  obtains s1 where "malloc s = (next_ptr s, s1)" "quiet s s1" "disk s1 = Some ss" "next_ptr s1 = next_ptr s + 1"
proof -
  obtain p s1 where m: "malloc s = (p, s1)" by (cases "malloc s")
  note q = quiet_malloc [OF m]
  show ?thesis using q(3,4) heap_okD(1,2) [OF assms(1)] m q(1,2) assms(2) by (intro that [of s1]) auto
qed

lemma find_open_cases:
  assumes "set ps \<subseteq> dom is" and "NULL \<notin> set ps"
  shows "find_open sec ps is = Some NULL \<and> (\<forall>q \<in> set ps. \<forall>j. is q = Some j \<longrightarrow> i_sector j \<noteq> sec)
    \<or> (\<exists>q j. find_open sec ps is = Some q \<and> q \<noteq> NULL \<and> is q = Some j \<and> i_sector j = sec)"
  using assms
proof (induction ps)
  case (Cons a ps)
  obtain j where "is a = Some j" using Cons.prems(1) by auto
  then show ?case using Cons by (cases "i_sector j = sec") auto
qed simp

lemma open_inv:
  assumes inv: "fs_inv X s" and d: "disk s = Some ss" and sec: "sec \<in> live s ss"
  obtains p i s' where "inode_open sec s = Some (p, s')" "p \<noteq> NULL" "inodes s' p = Some i" "i_sector i = sec"
    "fs_inv (X(p := X p + 1)) s'" "disk s' = Some ss" "live s' ss = live s ss" "used s' = used s" "files s' = files s" "dirs s' = dirs s"
    "free_map_file s' = free_map_file s" "free_map s' = free_map s" "scratch s' = scratch s"
    "\<forall>q. q \<noteq> p \<longrightarrow> inodes s' q = inodes s q" "\<forall>j. inodes s p = Some j \<longrightarrow> i = j\<lparr>open_cnt := open_cnt j + 1\<rparr>"
proof -
  have s: "heap_ok s" "refs_ok X s" "store_ok s ss" using inv d by (auto simp: fs_inv_def)
  have "NULL \<notin> set (open_inodes s)" using heap_okD(6,9) [OF s(1)] by (auto simp: unused_def)
  then consider (new) "find_open sec (open_inodes s) (inodes s) = Some NULL" "\<And>q j. inodes s q = Some j \<Longrightarrow> i_sector j \<noteq> sec"
    | (old) q j where "find_open sec (open_inodes s) (inodes s) = Some q" "q \<noteq> NULL" "inodes s q = Some j" "i_sector j = sec"
    using find_open_cases [of "open_inodes s" "inodes s" sec] heap_okD(9) [OF s(1)] by blast
  then show ?thesis
  proof cases
    case old
    let ?j = "j\<lparr>open_cnt := open_cnt j + 1\<rparr>"
    let ?s = "s\<lparr>inodes := (inodes s)(q \<mapsto> ?j)\<rparr>"
    have "inode_open sec s = Some (q, ?s)"
      using old by (simp add: inode_open_def inode_reopen_def upd_inode_def inode_update_simps [of "\<lambda>n. n + 1"])
    moreover have "fs_inv (X(q := X q + 1)) ?s"
      using refs_okD(4,5) [OF s(2) old(3)] by (intro inode_upd_inv [OF inv old(3)]) simp_all
    moreover have "live ?s ss = live s ss" by (rule live_upd [OF old(3)]) simp
    ultimately show ?thesis using old d by (intro that [of q ?s ?j]) simp_all
  next
    case new
    let ?p = "next_ptr s"
    obtain s1 where m: "malloc s = (?p, s1)" "quiet s s1" "disk s1 = Some ss" "next_ptr s1 = ?p + 1"
      using malloc_fresh [OF s(1) d] by blast
    obtain s2 where r: "block_read (fs_device s1) sec s1 = Some (ss ! sec, s2)" "quiet s1 s2" "disk s2 = Some ss"
      using disk_read [OF m(3), of sec] layoutD(1) [OF store_okD(3) [OF s(3)] sec] by blast
    have q: "quiet s s2" using quiet_trans [OF m(2) r(2)] .
    note qf = quiet_fields [OF q] and inv2 = quiet_inv [OF inv q]
    have lv: "live s2 ss = live s ss" by (simp add: live_def qf)
    have un: "unused s ?p" using heap_okD(7) [OF s(1), of ?p] by simp
    then have "unused s2 ?p" by (simp add: unused_def qf)
    moreover have "?p < next_ptr s2" using quiet_fields(10) [OF r(2)] m(4) by simp
    moreover have p0: "?p \<noteq> NULL" using heap_okD(2) [OF s(1)] by simp
    ultimately have ni: "fs_inv (X(?p := 1)) (s2\<lparr>open_inodes := ?p # open_inodes s2, inodes := (inodes s2)(?p \<mapsto> fresh_inode sec ss)\<rparr>)"
      "live (s2\<lparr>open_inodes := ?p # open_inodes s2, inodes := (inodes s2)(?p \<mapsto> fresh_inode sec ss)\<rparr>) ss = live s2 ss"
      using new_inode_inv [of X s2 ss ?p sec] inv2 r(3) d sec new(2) lv by (simp_all add: qf)
    let ?s = "s2\<lparr>open_inodes := ?p # open_inodes s2, inodes := (inodes s2)(?p \<mapsto> fresh_inode sec ss)\<rparr>"
    have "inode_open sec s = Some (?p, ?s)" using new m(1) r(1) p0 by (simp add: inode_open_def fresh_inode_def ino_at_def)
    moreover have "X ?p = 0" "inodes s ?p = None" using refs_okD(3) [OF s(2)] un by (auto simp: unused_def)
    ultimately show ?thesis using ni p0 lv r(3)
      by (intro that [of ?p ?s "fresh_inode sec ss"]) (simp_all add: qf fresh_inode_def used_def)
  qed
qed

end
