(* ===== verification/Fs_Handles.thy ===== *)
theory Fs_Handles
  imports Fs_Ops
begin

text \<open>
  Open files and directories: opening, closing, positions, denial of writes, reading and writing
  preserve the invariant of the file system.
\<close>

section \<open>Changing the tables\<close>

lemma files_upd_inv:
  fixes s :: fs and F
  defines "s' \<equiv> s\<lparr>files := F\<rparr>"
  assumes inv: "fs_inv X s" and F: "finite (dom F)" "\<And>f fl. F f = Some fl \<Longrightarrow> f \<noteq> NULL \<and> f < next_ptr s"
    and m: "\<exists>fl. F (free_map_file s) = Some fl"
    and u: "\<And>f fl. F f = Some fl \<Longrightarrow> (\<exists>i. inodes s (f_inode fl) = Some i
          \<and> (if f = free_map_file s then i_sector i = 0 \<and> \<not> deny_write fl else 1 < i_sector i)) \<and> 0 \<le> f_pos fl \<and> f_pos fl < 2147483648"
    and Y: "\<And>p. inodes s p = None \<Longrightarrow> Y p = 0"
    and c: "\<And>p. card (frefs s' p) + Y p = card (frefs s p) + X p" "\<And>p i. inodes s p = Some i \<Longrightarrow> card (denying s' p) = card (denying s p)"
  shows "fs_inv Y s'"
proof -
  from fs_invE [OF inv] obtain ss where s: "disk s = Some ss" "heap_ok s" "refs_ok X s" "users_ok s" "store_ok s ss" .
  have f: "inodes s' = inodes s" "files s' = F" "dirs s' = dirs s" "drefs s' = drefs s" "open_inodes s' = open_inodes s"
    "free_map s' = free_map s" "free_map_file s' = free_map_file s" "allocs s' = allocs s" "next_ptr s' = next_ptr s"
    "scratch s' = scratch s" "disk s' = disk s" "used s' = used s" "live s' ss = live s ss"
    by (simp_all add: s'_def)
  have "heap_ok s'"
  proof (rule heap_okI)
    have "F NULL = None" using F(2) [of NULL] by (cases "F NULL") auto
    then show "unused s' NULL" using heap_okD(6) [OF s(2)] by (simp add: unused_def f)
    show "unused s' q" if "next_ptr s' \<le> q" for q
      using heap_okD(7) [OF s(2), of q] F(2) [of q] that by (cases "F q") (auto simp: unused_def f)
    show "p = q" if "inodes s' p = Some i" "inodes s' q = Some j" "i_sector i = i_sector j" for p q i j
      using heap_okD(10) [OF s(2)] that by (simp add: f)
  qed (use heap_okD [OF s(2)] F(1) in \<open>simp_all add: f\<close>)
  moreover have "refs_ok Y s'"
  proof (rule refs_okI)
    fix p
    show "frefs s' p = {} \<and> drefs s' p = {} \<and> Y p = 0" if "inodes s' p = None"
    proof -
      have n: "inodes s p = None" using that by (simp add: f)
      have "F g \<noteq> Some fl" if "f_inode fl = p" for g fl using u [of g fl] n that by auto
      then have "frefs s' p = {}" by (auto simp: frefs_def f)
      then show ?thesis using refs_okD(2) [OF s(3) n] Y [OF n] by (simp add: f)
    qed
    fix i
    assume "inodes s' p = Some i"
    then have i: "inodes s p = Some i" by (simp add: f)
    show "0 < open_cnt i \<and> open_cnt i = int (card (frefs s' p) + card (drefs s' p) + Y p) \<and> deny_write_cnt i = int (card (denying s' p))"
      using refs_okD(4-6) [OF s(3) i] c(1) [of p] c(2) [OF i] by (simp add: f)
  qed
  moreover have "users_ok s'"
    by (rule users_okI) (use m u users_okD(5) [OF s(4)] in \<open>simp_all add: f\<close>)
  moreover have "store_ok s' ss" using s(5) unfolding store_ok_def f .
  ultimately show ?thesis using s(1) by (intro fs_invI) (simp_all add: f)
qed

lemma dirs_upd_inv:
  fixes s :: fs and D
  defines "s' \<equiv> s\<lparr>dirs := D\<rparr>"
  assumes inv: "fs_inv X s" and D: "finite (dom D)" "\<And>d dr. D d = Some dr \<Longrightarrow> d \<noteq> NULL \<and> d < next_ptr s"
    and u: "\<And>d dr. D d = Some dr \<Longrightarrow> \<exists>i. inodes s (d_inode dr) = Some i \<and> i_sector i = 1"
    and Y: "\<And>p. inodes s p = None \<Longrightarrow> Y p = 0" and c: "\<And>p. card (drefs s' p) + Y p = card (drefs s p) + X p"
  shows "fs_inv Y s'"
proof -
  from fs_invE [OF inv] obtain ss where s: "disk s = Some ss" "heap_ok s" "refs_ok X s" "users_ok s" "store_ok s ss" .
  have f: "inodes s' = inodes s" "files s' = files s" "dirs s' = D" "frefs s' = frefs s" "denying s' = denying s" "open_inodes s' = open_inodes s"
    "free_map s' = free_map s" "free_map_file s' = free_map_file s" "allocs s' = allocs s" "next_ptr s' = next_ptr s"
    "scratch s' = scratch s" "disk s' = disk s" "used s' = used s" "live s' ss = live s ss"
    by (simp_all add: s'_def)
  have "heap_ok s'"
  proof (rule heap_okI)
    have "D NULL = None" using D(2) [of NULL] by (cases "D NULL") auto
    then show "unused s' NULL" using heap_okD(6) [OF s(2)] by (simp add: unused_def f)
    show "unused s' q" if "next_ptr s' \<le> q" for q
      using heap_okD(7) [OF s(2), of q] D(2) [of q] that by (cases "D q") (auto simp: unused_def f)
    show "p = q" if "inodes s' p = Some i" "inodes s' q = Some j" "i_sector i = i_sector j" for p q i j
      using heap_okD(10) [OF s(2)] that by (simp add: f)
  qed (use heap_okD [OF s(2)] D(1) in \<open>simp_all add: f\<close>)
  moreover have "refs_ok Y s'"
  proof (rule refs_okI)
    fix p
    show "frefs s' p = {} \<and> drefs s' p = {} \<and> Y p = 0" if "inodes s' p = None"
    proof -
      have n: "inodes s p = None" using that by (simp add: f)
      have "D g \<noteq> Some dr" if "d_inode dr = p" for g dr using u [of g dr] n that by auto
      then have "drefs s' p = {}" by (auto simp: drefs_def f)
      then show ?thesis using refs_okD(1) [OF s(3) n] Y [OF n] by (simp add: f)
    qed
    fix i
    assume "inodes s' p = Some i"
    then have i: "inodes s p = Some i" by (simp add: f)
    show "0 < open_cnt i \<and> open_cnt i = int (card (frefs s' p) + card (drefs s' p) + Y p) \<and> deny_write_cnt i = int (card (denying s' p))"
      using refs_okD(4-6) [OF s(3) i] c [of p] by (simp add: f)
  qed
  moreover have "users_ok s'"
    by (rule users_okI) (use u users_okD [OF s(4)] in \<open>simp_all add: f\<close>)
  moreover have "store_ok s' ss" using s(5) unfolding store_ok_def f .
  ultimately show ?thesis using s(1) by (intro fs_invI) (simp_all add: f)
qed

lemma file_bounds:
  assumes "fs_inv X s"
  shows "files s f = Some fl \<Longrightarrow> f \<noteq> NULL \<and> f < next_ptr s" "dirs s d = Some dr \<Longrightarrow> d \<noteq> NULL \<and> d < next_ptr s"
    "inodes s p = Some i \<Longrightarrow> p \<noteq> NULL \<and> p < next_ptr s"
proof -
  from fs_invE [OF assms] obtain ss where h: "heap_ok s" .
  have "unused s q" if "q = NULL \<or> next_ptr s \<le> q" for q using heap_okD(6,7) [OF h] that by blast
  then show "files s f = Some fl \<Longrightarrow> f \<noteq> NULL \<and> f < next_ptr s" "dirs s d = Some dr \<Longrightarrow> d \<noteq> NULL \<and> d < next_ptr s"
    "inodes s p = Some i \<Longrightarrow> p \<noteq> NULL \<and> p < next_ptr s"
    by (metis option.distinct(1) not_less unused_def)+
qed

lemma users_ok_file:
  assumes "users_ok s" and "files s f = Some fl"
  shows "(\<exists>i. inodes s (f_inode fl) = Some i
          \<and> (if f = free_map_file s then i_sector i = 0 \<and> \<not> deny_write fl else 1 < i_sector i)) \<and> 0 \<le> f_pos fl \<and> f_pos fl < 2147483648"
  using users_okD(2-4) [OF assms] by blast

section \<open>Opening and closing files and directories\<close>

lemma frefs_add: "files s f = None \<Longrightarrow> frefs (s\<lparr>files := (files s)(f \<mapsto> fl)\<rparr>) p = (if f_inode fl = p then insert f (frefs s p) else frefs s p)"
  by (auto simp: frefs_def)

lemma frefs_del: "files s f = Some fl \<Longrightarrow> frefs (s\<lparr>files := (files s)(f := None)\<rparr>) p = (if f_inode fl = p then frefs s p - {f} else frefs s p)"
  by (auto simp: frefs_def)

lemma drefs_add: "dirs s f = None \<Longrightarrow> drefs (s\<lparr>dirs := (dirs s)(f \<mapsto> fl)\<rparr>) p = (if d_inode fl = p then insert f (drefs s p) else drefs s p)"
  by (auto simp: drefs_def)

lemma drefs_del: "dirs s f = Some fl \<Longrightarrow> drefs (s\<lparr>dirs := (dirs s)(f := None)\<rparr>) p = (if d_inode fl = p then drefs s p - {f} else drefs s p)"
  by (auto simp: drefs_def)

lemma add_file_inv:
  assumes inv: "fs_inv X s" and f: "unused s f" "f \<noteq> NULL" "f < next_ptr s" and p: "inodes s p = Some i" "1 < i_sector i" "0 < X p"
  shows "fs_inv (X(p := X p - 1)) (s\<lparr>files := (files s)(f \<mapsto> \<lparr>f_inode = p, f_pos = 0, deny_write = False\<rparr>)\<rparr>)"
proof -
  from fs_invE [OF inv] obtain ss where s: "disk s = Some ss" "heap_ok s" "refs_ok X s" "users_ok s" "store_ok s ss" .
  have n: "files s f = None" using f(1) by (simp add: unused_def)
  then have mf: "f \<noteq> free_map_file s" using users_okD(1) [OF s(4)] by auto
  have fr: "finite (frefs s p)" "f \<notin> frefs s p" using finite_refs [OF s(2)] n by (auto simp: frefs_def)
  show ?thesis
  proof (rule files_upd_inv [OF inv])
    fix g fl
    assume g: "((files s)(f \<mapsto> \<lparr>f_inode = p, f_pos = 0, deny_write = False\<rparr>)) g = Some fl"
    show "g \<noteq> NULL \<and> g < next_ptr s" using g f file_bounds(1) [OF inv, of g fl] by (auto split: if_splits)
    show "(\<exists>i. inodes s (f_inode fl) = Some i \<and> (if g = free_map_file s then i_sector i = 0 \<and> \<not> deny_write fl else 1 < i_sector i))
        \<and> 0 \<le> f_pos fl \<and> f_pos fl < 2147483648"
      using g p(1,2) mf users_ok_file [OF s(4), of g fl] by (cases "g = f") auto
  next
    show "\<exists>fl. ((files s)(f \<mapsto> \<lparr>f_inode = p, f_pos = 0, deny_write = False\<rparr>)) (free_map_file s) = Some fl"
      using users_okD(1) [OF s(4)] mf by auto
    show "finite (dom ((files s)(f \<mapsto> \<lparr>f_inode = p, f_pos = 0, deny_write = False\<rparr>)))" using heap_okD(4) [OF s(2)] by simp
    fix q
    show "inodes s q = None \<Longrightarrow> (X(p := X p - 1)) q = 0" using refs_okD(3) [OF s(3), of q] p(1) by auto
    show "card (frefs (s\<lparr>files := (files s)(f \<mapsto> \<lparr>f_inode = p, f_pos = 0, deny_write = False\<rparr>)\<rparr>) q) + (X(p := X p - 1)) q = card (frefs s q) + X q"
      using fr p(3) by (simp add: frefs_add [OF n])
    show "card (denying (s\<lparr>files := (files s)(f \<mapsto> \<lparr>f_inode = p, f_pos = 0, deny_write = False\<rparr>)\<rparr>) q) = card (denying s q)"
    proof -
      have "denying (s\<lparr>files := (files s)(f \<mapsto> \<lparr>f_inode = p, f_pos = 0, deny_write = False\<rparr>)\<rparr>) q = denying s q" using n by (auto simp: denying_def)
      then show ?thesis by simp
    qed
  qed
qed

lemma del_file_inv:
  assumes inv: "fs_inv X s" and f: "files s f = Some fl" "f \<noteq> free_map_file s" "\<not> deny_write fl"
  shows "fs_inv (X(f_inode fl := X (f_inode fl) + 1)) (s\<lparr>files := (files s)(f := None)\<rparr>)"
proof -
  from fs_invE [OF inv] obtain ss where s: "disk s = Some ss" "heap_ok s" "refs_ok X s" "users_ok s" "store_ok s ss" .
  have fr: "finite (frefs s (f_inode fl))" "f \<in> frefs s (f_inode fl)" using finite_refs [OF s(2)] f by (auto simp: frefs_def)
  show ?thesis
  proof (rule files_upd_inv [OF inv])
    fix g gl
    assume "((files s)(f := None)) g = Some gl"
    then have g: "files s g = Some gl" by (auto split: if_splits)
    show "g \<noteq> NULL \<and> g < next_ptr s" using file_bounds(1) [OF inv g] .
    show "(\<exists>i. inodes s (f_inode gl) = Some i \<and> (if g = free_map_file s then i_sector i = 0 \<and> \<not> deny_write gl else 1 < i_sector i))
        \<and> 0 \<le> f_pos gl \<and> f_pos gl < 2147483648"
      by (rule users_ok_file [OF s(4) g])
  next
    show "\<exists>gl. ((files s)(f := None)) (free_map_file s) = Some gl" using users_okD(1) [OF s(4)] f(2) by auto
    show "finite (dom ((files s)(f := None)))" using heap_okD(4) [OF s(2)] by simp
    fix q
    show "inodes s q = None \<Longrightarrow> (X(f_inode fl := X (f_inode fl) + 1)) q = 0"
      using refs_okD(3) [OF s(3), of q] users_okD(2) [OF s(4) f(1)] by auto
    show "card (frefs (s\<lparr>files := (files s)(f := None)\<rparr>) q) + (X(f_inode fl := X (f_inode fl) + 1)) q = card (frefs s q) + X q"
      using card_Suc_Diff1 [OF fr] unfolding frefs_del [OF f(1)] by auto
    show "card (denying (s\<lparr>files := (files s)(f := None)\<rparr>) q) = card (denying s q)"
    proof -
      have "denying (s\<lparr>files := (files s)(f := None)\<rparr>) q = denying s q" using f by (auto simp: denying_def)
      then show ?thesis by simp
    qed
  qed
qed

lemma add_dir_inv:
  assumes inv: "fs_inv X s" and f: "unused s f" "f \<noteq> NULL" "f < next_ptr s" and p: "inodes s p = Some i" "i_sector i = 1" "0 < X p"
  shows "fs_inv (X(p := X p - 1)) (s\<lparr>dirs := (dirs s)(f \<mapsto> \<lparr>d_inode = p, d_pos = 0\<rparr>)\<rparr>)"
proof -
  from fs_invE [OF inv] obtain ss where s: "disk s = Some ss" "heap_ok s" "refs_ok X s" "users_ok s" "store_ok s ss" .
  have n: "dirs s f = None" using f(1) by (simp add: unused_def)
  have fr: "finite (drefs s p)" "f \<notin> drefs s p" using finite_refs [OF s(2)] n by (auto simp: drefs_def)
  show ?thesis
  proof (rule dirs_upd_inv [OF inv])
    fix g fl
    assume g: "((dirs s)(f \<mapsto> \<lparr>d_inode = p, d_pos = 0\<rparr>)) g = Some fl"
    show "g \<noteq> NULL \<and> g < next_ptr s" using g f file_bounds(2) [OF inv, of g fl] by (auto split: if_splits)
    show "\<exists>i. inodes s (d_inode fl) = Some i \<and> i_sector i = 1"
      using g p(1,2) users_okD(5) [OF s(4), of g fl] by (cases "g = f") auto
  next
    show "finite (dom ((dirs s)(f \<mapsto> \<lparr>d_inode = p, d_pos = 0\<rparr>)))" using heap_okD(5) [OF s(2)] by simp
    fix q
    show "inodes s q = None \<Longrightarrow> (X(p := X p - 1)) q = 0" using refs_okD(3) [OF s(3), of q] p(1) by auto
    show "card (drefs (s\<lparr>dirs := (dirs s)(f \<mapsto> \<lparr>d_inode = p, d_pos = 0\<rparr>)\<rparr>) q) + (X(p := X p - 1)) q = card (drefs s q) + X q"
      using fr p(3) by (simp add: drefs_add [OF n])
  qed
qed

lemma del_dir_inv:
  assumes inv: "fs_inv X s" and f: "dirs s f = Some dr"
  shows "fs_inv (X(d_inode dr := X (d_inode dr) + 1)) (s\<lparr>dirs := (dirs s)(f := None)\<rparr>)"
proof -
  from fs_invE [OF inv] obtain ss where s: "disk s = Some ss" "heap_ok s" "refs_ok X s" "users_ok s" "store_ok s ss" .
  have fr: "finite (drefs s (d_inode dr))" "f \<in> drefs s (d_inode dr)" using finite_refs [OF s(2)] f by (auto simp: drefs_def)
  show ?thesis
  proof (rule dirs_upd_inv [OF inv])
    fix g gl
    assume "((dirs s)(f := None)) g = Some gl"
    then have g: "dirs s g = Some gl" by (auto split: if_splits)
    show "g \<noteq> NULL \<and> g < next_ptr s" using file_bounds(2) [OF inv g] .
    show "\<exists>i. inodes s (d_inode gl) = Some i \<and> i_sector i = 1" by (rule users_okD(5) [OF s(4) g])
  next
    show "finite (dom ((dirs s)(f := None)))" using heap_okD(5) [OF s(2)] by simp
    fix q
    show "inodes s q = None \<Longrightarrow> (X(d_inode dr := X (d_inode dr) + 1)) q = 0"
      using refs_okD(3) [OF s(3), of q] users_okD(5) [OF s(4) f] by auto
    show "card (drefs (s\<lparr>dirs := (dirs s)(f := None)\<rparr>) q) + (X(d_inode dr := X (d_inode dr) + 1)) q = card (drefs s q) + X q"
      using card_Suc_Diff1 [OF fr] unfolding drefs_del [OF f] by auto
  qed
qed


text \<open>Opening and closing through the code.\<close>

lemma file_open_inv:
  assumes inv: "fs_inv X s" and d: "disk s = Some ss" and p: "inodes s p = Some i" "1 < i_sector i" "0 < X p"
  obtains f s' where "file_open p s = Some (f, s')" "f \<noteq> NULL" "files s f = None" "f \<noteq> free_map_file s" "fs_inv (X(p := X p - 1)) s'"
    "files s' = (files s)(f \<mapsto> \<lparr>f_inode = p, f_pos = 0, deny_write = False\<rparr>)" "inodes s' = inodes s" "dirs s' = dirs s" "disk s' = Some ss"
    "live s' ss = live s ss" "used s' = used s" "free_map_file s' = free_map_file s" "scratch s' = scratch s"
proof -
  have s: "heap_ok s" "users_ok s" using inv d by (auto simp: fs_inv_def)
  obtain s1 where m: "malloc s = (next_ptr s, s1)" "quiet s s1" "disk s1 = Some ss" "next_ptr s1 = next_ptr s + 1"
    using malloc_fresh [OF s(1) d] by blast
  note q = quiet_fields [OF m(2)]
  have n: "unused s (next_ptr s)" "next_ptr s \<noteq> NULL" "p \<noteq> NULL"
    using heap_okD(2,7) [OF s(1)] file_bounds(3) [OF inv p(1)] by auto
  have "fs_inv X s1" using quiet_inv [OF inv m(2)] m(3) d by simp
  then have "fs_inv (X(p := X p - 1)) (s1\<lparr>files := (files s1)(next_ptr s \<mapsto> \<lparr>f_inode = p, f_pos = 0, deny_write = False\<rparr>)\<rparr>)"
    using n(1,2) m(4) p by (intro add_file_inv) (simp_all add: unused_def q)
  moreover have "live s1 ss = live s ss" by (simp add: live_def q)
  ultimately show ?thesis
    using m(1,3) n users_okD(1) [OF s(2)]
    by (intro that [of "next_ptr s" "s1\<lparr>files := (files s1)(next_ptr s \<mapsto> \<lparr>f_inode = p, f_pos = 0, deny_write = False\<rparr>)\<rparr>"])
       (auto simp: file_open_def q unused_def used_def)
qed

lemma dir_open_inv:
  assumes inv: "fs_inv X s" and d: "disk s = Some ss" and p: "inodes s p = Some i" "i_sector i = 1" "0 < X p"
  obtains f s' where "dir_open p s = Some (f, s')" "f \<noteq> NULL" "dirs s f = None" "fs_inv (X(p := X p - 1)) s'"
    "dirs s' = (dirs s)(f \<mapsto> \<lparr>d_inode = p, d_pos = 0\<rparr>)" "inodes s' = inodes s" "files s' = files s" "disk s' = Some ss"
    "live s' ss = live s ss" "used s' = used s" "free_map_file s' = free_map_file s" "scratch s' = scratch s"
proof -
  have s: "heap_ok s" "users_ok s" using inv d by (auto simp: fs_inv_def)
  obtain s1 where m: "malloc s = (next_ptr s, s1)" "quiet s s1" "disk s1 = Some ss" "next_ptr s1 = next_ptr s + 1"
    using malloc_fresh [OF s(1) d] by blast
  note q = quiet_fields [OF m(2)]
  have n: "unused s (next_ptr s)" "next_ptr s \<noteq> NULL" "p \<noteq> NULL"
    using heap_okD(2,7) [OF s(1)] file_bounds(3) [OF inv p(1)] by auto
  have "fs_inv X s1" using quiet_inv [OF inv m(2)] m(3) d by simp
  then have "fs_inv (X(p := X p - 1)) (s1\<lparr>dirs := (dirs s1)(next_ptr s \<mapsto> \<lparr>d_inode = p, d_pos = 0\<rparr>)\<rparr>)"
    using n(1,2) m(4) p by (intro add_dir_inv) (simp_all add: unused_def q)
  moreover have "live s1 ss = live s ss" by (simp add: live_def q)
  ultimately show ?thesis
    using m(1,3) n
    by (intro that [of "next_ptr s" "s1\<lparr>dirs := (dirs s1)(next_ptr s \<mapsto> \<lparr>d_inode = p, d_pos = 0\<rparr>)\<rparr>"])
       (auto simp: dir_open_def q unused_def used_def)
qed

text \<open>The last reference to a removed inode can be dropped.\<close>

lemma close_ready:
  assumes inv: "fs_inv X s" and d: "disk s = Some ss" and p: "inodes s p = Some i" "removed i"
  shows "fm_ready s ss \<and> i_sector i < length ss \<and> i_sector i \<in> used s
      \<and> disk_inode_ok (length ss) (i_data i) \<and> data_sectors (i_data i) \<subseteq> used s - {i_sector i}
      \<and> (\<forall>fl. files s (free_map_file s) = Some fl \<longrightarrow> f_inode fl \<noteq> p)"
proof -
  have s: "users_ok s" "store_ok s ss" using inv d by (auto simp: fs_inv_def)
  note lay = store_okD(3) [OF s(2)] and la = live_open [OF p(1), of ss]
  have "f_inode fl \<noteq> p" if "files s (free_map_file s) = Some fl" for fl
    using map_file_inode [OF s(1) that] store_okD(5) [OF s(2) p] p(1) by fastforce
  then show ?thesis
    using inv_fm_ready [OF inv d] layoutD(1-4) [OF lay la] layoutD(5) [OF lay la la] store_okD(4) [OF s(2) p(1)] by auto
qed

lemma inode_close_inv:
  assumes inv: "fs_inv X s" and d: "disk s = Some ss" and p: "inodes s p = Some i" "0 < X p"
  obtains s' ss' where "inode_close p s = Some s'" "fs_inv (X(p := X p - 1)) s'" "disk s' = Some ss'" "live s' ss' \<subseteq> live s ss"
    "keeps (live s' ss') ss ss'" "used s' \<subseteq> used s" "files s' = files s" "dirs s' = dirs s" "free_map_file s' = free_map_file s"
    "\<forall>q. q \<noteq> p \<longrightarrow> inodes s' q = inodes s q" "scratch s' = scratch s"
    "\<forall>q j. inodes s' q = Some j \<longrightarrow> (\<exists>j0. inodes s q = Some j0 \<and> i_sector j0 = i_sector j)"
proof -
  have s: "heap_ok s" "refs_ok X s" using inv d by (auto simp: fs_inv_def)
  have "\<exists>s'. inode_close p s = Some s' \<and> close_rel p s s'"
    using inode_close_rel [OF p(1), of ss] file_bounds(3) [OF inv p(1)] heap_okD(9) [OF s(1)] p(1) refs_okD(4) [OF s(2) p(1)]
      close_ready [OF inv d p(1)] by blast
  then obtain s' where c: "inode_close p s = Some s'" "close_rel p s s'" by blast
  show ?thesis by (rule close_inv [OF inv p(2) c(2) d]) (use c(1) that in blast)
qed

lemma close_rel_fields:
  assumes "close_rel p s s'"
  shows "files s' = files s" "dirs s' = dirs s" "free_map_file s' = free_map_file s"
  using assms by (cases rule: close_relE; simp add: fm_stepD(5-7))+

lemma deny_frefs: "heap_ok s \<Longrightarrow> card (denying s p) \<le> card (frefs s p)"
  using finite_refs(1) [of s p] by (intro card_mono) (auto simp: denying_def frefs_def)

lemma set_deny_inv:
  fixes s :: fs and b :: bool
  assumes inv: "fs_inv X s" and f: "files s f = Some fl" "f \<noteq> free_map_file s" and i: "inodes s (f_inode fl) = Some i"
  defines "t \<equiv> s\<lparr>files := (files s)(f \<mapsto> fl\<lparr>deny_write := b\<rparr>)\<rparr>"
  defines "s' \<equiv> t\<lparr>inodes := (inodes s)(f_inode fl \<mapsto> i\<lparr>deny_write_cnt := int (card (denying t (f_inode fl)))\<rparr>)\<rparr>"
  shows "fs_inv X s'" "live s' ss = live s ss"
proof -
  let ?p = "f_inode fl" and ?i = "i\<lparr>deny_write_cnt := int (card (denying t (f_inode fl)))\<rparr>"
  from fs_invE [OF inv] obtain ss0 where s: "disk s = Some ss0" "heap_ok s" "refs_ok X s" "users_ok s" "store_ok s ss0" .
  let ?u = "s\<lparr>inodes := (inodes s)(?p \<mapsto> ?i)\<rparr>"
  have g: "inodes s' = (inodes s)(?p \<mapsto> ?i)" "files s' = (files s)(f \<mapsto> fl\<lparr>deny_write := b\<rparr>)" "dirs s' = dirs s" "drefs s' = drefs s"
    "open_inodes s' = open_inodes s" "free_map s' = free_map s" "free_map_file s' = free_map_file s" "allocs s' = allocs s"
    "next_ptr s' = next_ptr s" "scratch s' = scratch s" "disk s' = disk s" "used s' = used s" "denying s' = denying t"
    by (simp_all add: s'_def t_def)
  have fr: "frefs s' q = frefs s q" for q using f by (auto simp: frefs_def g)
  have dn: "denying t q = denying s q" if "q \<noteq> ?p" for q using that f by (auto simp: denying_def t_def)
  have lv: "live s' ss = live s ss" for ss using live_upd [OF i, of ?i ss] by (simp add: live_def g)
  then show "live s' ss = live s ss" .
  have o: "\<exists>j0. inodes s q = Some j0 \<and> i_sector j0 = i_sector j \<and> i_data j0 = i_data j \<and> removed j0 = removed j \<and> open_cnt j0 = open_cnt j"
    if "inodes s' q = Some j" for q j using that i by (cases "q = ?p") (auto simp: g)
  have fw: "\<exists>j. inodes s' q = Some j \<and> i_sector j = i_sector j0" if "inodes s q = Some j0" for q j0
    using that i by (cases "q = ?p") (auto simp: g)
  have "heap_ok s'"
  proof (rule heap_okI)
    have u: "unused s' q = unused s q" for q using f(1) i by (auto simp: unused_def g)
    then show "unused s' NULL" using heap_okD(6) [OF s(2)] by simp
    show "unused s' q" if "next_ptr s' \<le> q" for q using heap_okD(7) [OF s(2), of q] u that by (simp add: g)
    show "set (open_inodes s') = dom (inodes s')" using heap_okD(9) [OF s(2)] i by (auto simp: g)
    show "p = q" if ij: "inodes s' p = Some x" "inodes s' q = Some y" "i_sector x = i_sector y" for p q x y
      using o [OF ij(1)] o [OF ij(2)] heap_okD(10) [OF s(2), of p _ q] ij(3) by auto
  qed (use heap_okD [OF s(2)] in \<open>simp_all add: g\<close>)
  moreover have "refs_ok X s'"
  proof (rule refs_okI)
    fix q
    show "inodes s' q = None \<Longrightarrow> frefs s' q = {} \<and> drefs s' q = {} \<and> X q = 0"
      using refs_okD(1-3) [OF s(3), of q] fr [of q] by (simp add: g split: if_splits)
    fix j
    assume j: "inodes s' q = Some j"
    have "deny_write_cnt j = int (card (denying s' q))"
      using j refs_okD(6) [OF s(3), of q j] dn [of q] by (cases "q = ?p") (auto simp: g)
    then show "0 < open_cnt j \<and> open_cnt j = int (card (frefs s' q) + card (drefs s' q) + X q) \<and> deny_write_cnt j = int (card (denying s' q))"
      using o [OF j] refs_okD(4,5) [OF s(3), of q] fr [of q] by (auto simp: g(4))
  qed
  moreover have "users_ok s'"
  proof (rule users_okI)
    show "\<exists>fl. files s' (free_map_file s') = Some fl" using users_okD(1) [OF s(4)] f by (simp add: g)
    fix h hl
    assume h: "files s' h = Some hl"
    obtain hl0 where h0: "files s h = Some hl0" "f_inode hl0 = f_inode hl" "f_pos hl0 = f_pos hl" "h \<noteq> f \<Longrightarrow> hl0 = hl"
      using h f(1) by (cases "h = f") (auto simp: g)
    show "\<exists>i. inodes s' (f_inode hl) = Some i \<and> (if h = free_map_file s' then i_sector i = 0 \<and> \<not> deny_write hl else 1 < i_sector i)"
      using users_okD(2) [OF s(4) h0(1)] fw [of "f_inode hl"] h0(2,4) f(2) by (auto simp: g(7) split: if_splits)
    show "0 \<le> f_pos hl \<and> f_pos hl < 2147483648" using users_okD(3,4) [OF s(4) h0(1)] h0(3) by simp
  next
    fix d dr
    assume "dirs s' d = Some dr"
    then show "\<exists>i. inodes s' (d_inode dr) = Some i \<and> i_sector i = 1"
      using users_okD(5) [OF s(4), of d dr] fw [of "d_inode dr"] by (auto simp: g(3))
  qed
  moreover have "store_ok s' ss0"
  proof (rule store_okI)
    show "layout ss0 (used s') (live s' ss0)" using store_okD(3) [OF s(5)] lv by (simp add: g)
    fix q j
    assume j: "inodes s' q = Some j"
    show "i_data j = ino_at ss0 (i_sector j)" using o [OF j] store_okD(4) [OF s(5), of q] by auto
    show "removed j \<Longrightarrow> 1 < i_sector j \<and> i_sector j \<notin> ran (dmap (root ss0))" using o [OF j] store_okD(5,6) [OF s(5), of q] by auto
  qed (use store_okD [OF s(5)] in \<open>simp_all add: g\<close>)
  ultimately show "fs_inv X s'" using s(1) by (intro fs_invI) (simp_all add: g)
qed

lemma denying_set:
  assumes "heap_ok s" and "files s f = Some fl"
  defines "t b \<equiv> s\<lparr>files := (files s)(f \<mapsto> fl\<lparr>deny_write := b\<rparr>)\<rparr>"
  shows "deny_write fl \<Longrightarrow> card (denying (t False) (f_inode fl)) = card (denying s (f_inode fl)) - 1"
    "deny_write fl \<Longrightarrow> 0 < card (denying s (f_inode fl))"
    "\<not> deny_write fl \<Longrightarrow> card (denying (t True) (f_inode fl)) = card (denying s (f_inode fl)) + 1"
    "\<not> deny_write fl \<Longrightarrow> card (denying s (f_inode fl)) < card (frefs s (f_inode fl))"
proof -
  let ?D = "denying s (f_inode fl)"
  have fin: "finite ?D" "finite (frefs s (f_inode fl))" using finite_refs [OF assms(1)] by auto
  have e: "denying (t False) (f_inode fl) = ?D - {f}" "denying (t True) (f_inode fl) = insert f ?D"
    using assms(2) by (auto simp: denying_def t_def)
  have m: "f \<in> ?D \<longleftrightarrow> deny_write fl" "f \<in> frefs s (f_inode fl)" "?D \<subseteq> frefs s (f_inode fl)"
    using assms(2) by (auto simp: denying_def frefs_def)
  show "deny_write fl \<Longrightarrow> card (denying (t False) (f_inode fl)) = card ?D - 1" using m fin by (simp add: e)
  show "deny_write fl \<Longrightarrow> 0 < card ?D" using m fin by (auto simp: card_gt_0_iff)
  show "\<not> deny_write fl \<Longrightarrow> card (denying (t True) (f_inode fl)) = card ?D + 1" using m fin by (simp add: e)
  show "\<not> deny_write fl \<Longrightarrow> card ?D < card (frefs s (f_inode fl))" using m fin by (intro psubset_card_mono) auto
qed

lemma file_allow_write_inv:
  assumes inv: "fs_inv X s" and f: "files s f = Some fl" "f \<noteq> free_map_file s"
  obtains s' where "file_allow_write f s = Some s'" "fs_inv X s'" "files s' = (files s)(f \<mapsto> fl\<lparr>deny_write := False\<rparr>)" "dirs s' = dirs s"
    "disk s' = disk s" "\<forall>ss. live s' ss = live s ss" "used s' = used s" "free_map_file s' = free_map_file s"
    "\<forall>q. q \<noteq> f_inode fl \<longrightarrow> inodes s' q = inodes s q" "\<forall>q j. inodes s' q = Some j \<longrightarrow> (\<exists>j0. inodes s q = Some j0 \<and> i_sector j0 = i_sector j)"
proof (cases "deny_write fl")
  case False
  then have "fl\<lparr>deny_write := False\<rparr> = fl" by simp
  then show ?thesis
    using False f file_bounds(1) [OF inv f(1)] inv by (intro that [of s]) (auto simp: file_allow_write_def)
next
  case True
  from fs_invE [OF inv] obtain ss where s: "heap_ok s" "refs_ok X s" "users_ok s" .
  obtain i where i: "inodes s (f_inode fl) = Some i" using user_file_inode [OF s(3) f] by blast
  let ?t = "s\<lparr>files := (files s)(f \<mapsto> fl\<lparr>deny_write := False\<rparr>)\<rparr>"
  let ?s = "?t\<lparr>inodes := (inodes s)(f_inode fl \<mapsto> i\<lparr>deny_write_cnt := int (card (denying ?t (f_inode fl)))\<rparr>)\<rparr>"
  note n = denying_set(1,2) [OF s(1) f(1) True]
  have c: "deny_write_cnt i = int (card (denying s (f_inode fl)))" "open_cnt i \<ge> int (card (frefs s (f_inode fl)))"
    using refs_okD(5,6) [OF s(2) i] by simp_all
  have "file_allow_write f s = Some ?s"
    using True f(1) file_bounds(1) [OF inv f(1)] i c n deny_frefs [OF s(1), of "f_inode fl"]
    by (simp add: file_allow_write_def inode_allow_write_def upd_inode_def inode_update_simps(2) [of "\<lambda>n. n - 1"] of_nat_diff)
  moreover have "\<forall>q j. inodes ?s q = Some j \<longrightarrow> (\<exists>j0. inodes s q = Some j0 \<and> i_sector j0 = i_sector j)" using i by auto
  ultimately show ?thesis using set_deny_inv [OF inv f i, of False] by (intro that [of ?s]) simp_all
qed

lemma file_deny_write_inv:
  assumes inv: "fs_inv X s" and f: "files s f = Some fl" "f \<noteq> free_map_file s"
  obtains s' where "file_deny_write f s = Some s'" "fs_inv X s'" "files s' = (files s)(f \<mapsto> fl\<lparr>deny_write := True\<rparr>)" "dirs s' = dirs s"
    "disk s' = disk s" "\<forall>ss. live s' ss = live s ss" "used s' = used s" "free_map_file s' = free_map_file s"
    "\<forall>q. q \<noteq> f_inode fl \<longrightarrow> inodes s' q = inodes s q" "\<forall>q j. inodes s' q = Some j \<longrightarrow> (\<exists>j0. inodes s q = Some j0 \<and> i_sector j0 = i_sector j)"
proof (cases "deny_write fl")
  case True
  then have "fl\<lparr>deny_write := True\<rparr> = fl" by simp
  then show ?thesis
    using True f file_bounds(1) [OF inv f(1)] inv by (intro that [of s]) (auto simp: file_deny_write_def)
next
  case False
  from fs_invE [OF inv] obtain ss where s: "heap_ok s" "refs_ok X s" "users_ok s" .
  obtain i where i: "inodes s (f_inode fl) = Some i" using user_file_inode [OF s(3) f] by blast
  let ?t = "s\<lparr>files := (files s)(f \<mapsto> fl\<lparr>deny_write := True\<rparr>)\<rparr>"
  let ?s = "?t\<lparr>inodes := (inodes s)(f_inode fl \<mapsto> i\<lparr>deny_write_cnt := int (card (denying ?t (f_inode fl)))\<rparr>)\<rparr>"
  note n = denying_set(3,4) [OF s(1) f(1) False]
  have c: "deny_write_cnt i = int (card (denying s (f_inode fl)))" "open_cnt i \<ge> int (card (frefs s (f_inode fl)))"
    using refs_okD(5,6) [OF s(2) i] by simp_all
  have "file_deny_write f s = Some ?s"
    using False f(1) file_bounds(1) [OF inv f(1)] i c n
    by (simp add: file_deny_write_def inode_deny_write_def upd_inode_def inode_update_simps(2) [of "\<lambda>n. n + 1"] add.commute)
  moreover have "\<forall>q j. inodes ?s q = Some j \<longrightarrow> (\<exists>j0. inodes s q = Some j0 \<and> i_sector j0 = i_sector j)" using i by auto
  ultimately show ?thesis using set_deny_inv [OF inv f i, of True] by (intro that [of ?s]) simp_all
qed

lemma file_close_inv:
  assumes inv: "fs_inv X s" and d: "disk s = Some ss" and f: "files s f = Some fl" "f \<noteq> free_map_file s"
  obtains s' ss' where "file_close f s = Some s'" "fs_inv X s'" "disk s' = Some ss'" "live s' ss' \<subseteq> live s ss"
    "keeps (live s' ss') ss ss'" "used s' \<subseteq> used s" "files s' = (files s)(f := None)" "dirs s' = dirs s"
    "free_map_file s' = free_map_file s" "\<forall>q. q \<noteq> f_inode fl \<longrightarrow> inodes s' q = inodes s q"
    "\<forall>q j. inodes s' q = Some j \<longrightarrow> (\<exists>j0. inodes s q = Some j0 \<and> i_sector j0 = i_sector j)"
proof -
  let ?p = "f_inode fl" and ?F = "(files s)(f := None)"
  from file_allow_write_inv [OF inv f]
  obtain s1 where a: "file_allow_write f s = Some s1" "fs_inv X s1" "files s1 = (files s)(f \<mapsto> fl\<lparr>deny_write := False\<rparr>)"
    "dirs s1 = dirs s" "disk s1 = disk s" "\<forall>ss. live s1 ss = live s ss" "used s1 = used s" "free_map_file s1 = free_map_file s"
    "\<forall>q. q \<noteq> ?p \<longrightarrow> inodes s1 q = inodes s q"
    "\<forall>q j. inodes s1 q = Some j \<longrightarrow> (\<exists>j0. inodes s q = Some j0 \<and> i_sector j0 = i_sector j)" .
  have d1: "disk s1 = Some ss" and f1: "files s1 f = Some (fl\<lparr>deny_write := False\<rparr>)" "f \<noteq> free_map_file s1" using d a f by simp_all
  have h: "heap_ok s1" "refs_ok X s1" "users_ok s1" using a(2) d1 by (auto simp: fs_inv_def)
  obtain i where i: "inodes s1 ?p = Some i" using user_file_inode [OF h(3) f1] by auto
  have "\<exists>s2. inode_close ?p s1 = Some s2 \<and> close_rel ?p s1 s2"
    using inode_close_rel [OF i, of ss] file_bounds(3) [OF a(2) i] heap_okD(9) [OF h(1)] i refs_okD(4) [OF h(2) i]
      close_ready [OF a(2) d1 i] by blast
  then obtain s2 where c: "inode_close ?p s1 = Some s2" "close_rel ?p s1 s2" by blast
  let ?u = "s1\<lparr>files := ?F\<rparr>" and ?s = "s2\<lparr>files := ?F\<rparr>"
  have F: "?F = (files s1)(f := None)" by (simp add: a(3))
  have u: "fs_inv (X(?p := X ?p + 1)) ?u" "0 < (X(?p := X ?p + 1)) ?p" "disk ?u = Some ss"
    using del_file_inv [OF a(2) f1] d1 by (simp_all add: F)
  from close_inv [OF u(1,2) close_rel_files [OF c(2)] u(3)]
  obtain ss' where r: "fs_inv ((X(?p := X ?p + 1))(?p := (X(?p := X ?p + 1)) ?p - 1)) ?s" "disk ?s = Some ss'" "live ?s ss' \<subseteq> live ?u ss"
    "keeps (live ?s ss') ss ss'" "used ?s \<subseteq> used ?u" "files ?s = files ?u" "dirs ?s = dirs ?u" "free_map_file ?s = free_map_file ?u"
    "\<forall>q. q \<noteq> ?p \<longrightarrow> inodes ?s q = inodes ?u q" "scratch ?s = scratch ?u"
    "\<forall>q j. inodes ?s q = Some j \<longrightarrow> (\<exists>j0. inodes ?u q = Some j0 \<and> i_sector j0 = i_sector j)" .
  have "file_close f s = Some ?s"
    using file_bounds(1) [OF inv f(1)] a(1) f1(1) c(1) close_rel_fields(1) [OF c(2)] by (simp add: file_close_def F)
  moreover have "\<forall>q j. inodes ?s q = Some j \<longrightarrow> (\<exists>j0. inodes s q = Some j0 \<and> i_sector j0 = i_sector j)"
  proof (intro allI impI)
    fix q j
    assume "inodes ?s q = Some j"
    then obtain j1 where j1: "inodes ?u q = Some j1" "i_sector j1 = i_sector j" using r(11) by blast
    then have "inodes s1 q = Some j1" by simp
    then show "\<exists>j0. inodes s q = Some j0 \<and> i_sector j0 = i_sector j" using a(10) j1(2) by metis
  qed
  ultimately show ?thesis using r(1-10) a(3-9) by (intro that [of ?s ss']) simp_all
qed

lemma dir_close_inv:
  assumes inv: "fs_inv X s" and d: "disk s = Some ss" and f: "dirs s f = Some dr"
  obtains s' ss' where "dir_close f s = Some s'" "fs_inv X s'" "disk s' = Some ss'" "live s' ss' \<subseteq> live s ss"
    "keeps (live s' ss') ss ss'" "used s' \<subseteq> used s" "files s' = files s" "dirs s' = (dirs s)(f := None)"
    "free_map_file s' = free_map_file s" "\<forall>q. q \<noteq> d_inode dr \<longrightarrow> inodes s' q = inodes s q" "scratch s' = scratch s"
    "\<forall>q j. inodes s' q = Some j \<longrightarrow> (\<exists>j0. inodes s q = Some j0 \<and> i_sector j0 = i_sector j)"
proof -
  let ?p = "d_inode dr" and ?D = "(dirs s)(f := None)"
  have h: "heap_ok s" "refs_ok X s" using inv d by (auto simp: fs_inv_def)
  obtain i where i: "inodes s ?p = Some i" "f \<noteq> NULL" using dir_inode [OF inv f] by blast
  have "\<exists>s2. inode_close ?p s = Some s2 \<and> close_rel ?p s s2"
    using inode_close_rel [OF i(1), of ss] file_bounds(3) [OF inv i(1)] heap_okD(9) [OF h(1)] i(1) refs_okD(4) [OF h(2) i(1)]
      close_ready [OF inv d i(1)] by blast
  then obtain s2 where c: "inode_close ?p s = Some s2" "close_rel ?p s s2" by blast
  let ?u = "s\<lparr>dirs := ?D\<rparr>" and ?s = "s2\<lparr>dirs := ?D\<rparr>"
  have u: "fs_inv (X(?p := X ?p + 1)) ?u" "0 < (X(?p := X ?p + 1)) ?p" "disk ?u = Some ss"
    using del_dir_inv [OF inv f] d by simp_all
  from close_inv [OF u(1,2) close_rel_dirs [OF c(2)] u(3)]
  obtain ss' where r: "fs_inv ((X(?p := X ?p + 1))(?p := (X(?p := X ?p + 1)) ?p - 1)) ?s" "disk ?s = Some ss'" "live ?s ss' \<subseteq> live ?u ss"
    "keeps (live ?s ss') ss ss'" "used ?s \<subseteq> used ?u" "files ?s = files ?u" "dirs ?s = dirs ?u" "free_map_file ?s = free_map_file ?u"
    "\<forall>q. q \<noteq> ?p \<longrightarrow> inodes ?s q = inodes ?u q" "scratch ?s = scratch ?u"
    "\<forall>q j. inodes ?s q = Some j \<longrightarrow> (\<exists>j0. inodes ?u q = Some j0 \<and> i_sector j0 = i_sector j)" .
  have "dir_close f s = Some ?s" using i(2) f c(1) close_rel_fields(2) [OF c(2)] by (simp add: dir_close_def)
  then show ?thesis using r by (intro that [of ?s ss']) simp_all
qed

section \<open>Writing data\<close>

lemma data_write_inv:
  assumes inv: "fs_inv X s" and q: "quiet s s'" and d: "disk s = Some ss" "disk s' = Some ss'" "length ss' = length ss"
    and a: "a \<in> live s ss" "a \<noteq> 0" and fr: "\<And>j. j < length ss \<Longrightarrow> j \<notin> data_sectors (ino_at ss a) \<Longrightarrow> ss' ! j = ss ! j"
    and wf: "dir_wf (root ss')" and lay: "layout ss (used s) (live s ss \<union> ran (dmap (root ss')))"
    and rem: "\<And>p i. inodes s p = Some i \<Longrightarrow> removed i \<Longrightarrow> i_sector i \<notin> ran (dmap (root ss'))"
  shows "fs_inv X s'" "\<And>b. b \<in> live s ss \<union> ran (dmap (root ss')) \<Longrightarrow> ino_at ss' b = ino_at ss b"
    "\<And>b. b \<in> live s ss \<union> ran (dmap (root ss')) \<Longrightarrow> b \<noteq> a \<Longrightarrow> file_at ss' b = file_at ss b"
proof -
  have h: "heap_ok s" "refs_ok X s" "users_ok s" "store_ok s ss" using inv d by (auto simp: fs_inv_def)
  let ?L = "live s ss \<union> ran (dmap (root ss'))"
  have aL: "a \<in> ?L" using a(1) by simp
  show ia: "ino_at ss' b = ino_at ss b" if "b \<in> ?L" for b
    using fr [of b] layoutD(1) [OF lay that] layoutD(5) [OF lay that aL] by (intro ino_at_frame) simp
  show fa: "file_at ss' b = file_at ss b" if b: "b \<in> ?L" "b \<noteq> a" for b
    unfolding file_at_def ia [OF b(1)]
  proof (rule contents_cong [OF disk_lengths(1) [OF d(1)] disk_lengths(1) [OF d(2)] d(3) layoutD(3) [OF lay b(1)]])
    fix j
    assume j: "j \<in> data_sectors (ino_at ss b)"
    then have "j < length ss" using layoutD(3) [OF lay b(1)] by (simp add: data_sectors_def disk_inode_ok_def)
    then show "ss' ! j = ss ! j" using fr [of j] layoutD(6) [OF lay b(1) aL b(2)] j by auto
  qed
  note g = quiet_fields [OF q]
  have lv: "live s' ss' \<subseteq> ?L" by (auto simp: live_def g)
  have "layout ss' (used s') (live s' ss')"
  proof (rule layout_mono [OF _ lv])
    show "layout ss' (used s') ?L" using lay ia d(3) unfolding layout_def used_def g(4) by simp
  qed
  moreover have "contents ss' (ino_at ss' 0) = words_bytes (bits (free_map s'))"
    using fa [of 0] a(2) store_okD(8) [OF h(4)] by (simp add: file_at_def g)
  moreover have "i_data i = ino_at ss' (i_sector i)" "removed i \<Longrightarrow> 1 < i_sector i \<and> i_sector i \<notin> ran (dmap (root ss'))"
    if "inodes s' p = Some i" for p i
  proof -
    have i: "inodes s p = Some i" using that by (simp add: g)
    show "i_data i = ino_at ss' (i_sector i)" using ia [of "i_sector i"] live_open [OF i, of ss] store_okD(4) [OF h(4) i] by simp
    show "removed i \<Longrightarrow> 1 < i_sector i \<and> i_sector i \<notin> ran (dmap (root ss'))" using rem [OF i] store_okD(5) [OF h(4) i] by simp
  qed
  ultimately have "store_ok s' ss'"
    using wf disk_lengths(1) [OF d(2)] store_okD(2) [OF h(4)] d(3) by (intro store_okI) (simp_all add: g)
  moreover note quiet_memory [OF q h(1-3)]
  ultimately show "fs_inv X s'" using d(2) by (intro fs_invI)
qed

section \<open>Reading and writing files\<close>

lemma set_pos_inv:
  assumes inv: "fs_inv X s" and f: "files s f = Some fl" and n: "0 \<le> n" "n < 2147483648"
  shows "fs_inv X (s\<lparr>files := (files s)(f \<mapsto> fl\<lparr>f_pos := n\<rparr>)\<rparr>)"
proof -
  from fs_invE [OF inv] obtain ss where s: "heap_ok s" "refs_ok X s" "users_ok s" .
  let ?s = "s\<lparr>files := (files s)(f \<mapsto> fl\<lparr>f_pos := n\<rparr>)\<rparr>"
  have fr: "frefs ?s p = frefs s p" "denying ?s p = denying s p" for p using f by (auto simp: frefs_def denying_def)
  show ?thesis
  proof (rule files_upd_inv [OF inv])
    fix g gl
    assume g: "((files s)(f \<mapsto> fl\<lparr>f_pos := n\<rparr>)) g = Some gl"
    show "g \<noteq> NULL \<and> g < next_ptr s" using g file_bounds(1) [OF inv, of g] f by (auto split: if_splits)
    show "(\<exists>i. inodes s (f_inode gl) = Some i \<and> (if g = free_map_file s then i_sector i = 0 \<and> \<not> deny_write gl else 1 < i_sector i))
        \<and> 0 \<le> f_pos gl \<and> f_pos gl < 2147483648"
      using g users_ok_file [OF s(3), of g] f n by (cases "g = f") auto
  qed (use users_okD(1) [OF s(3)] heap_okD(4) [OF s(1)] refs_okD(3) [OF s(2)] fr in auto)
qed

lemma open_file:
  assumes inv: "fs_inv X s" and d: "disk s = Some ss" and f: "files s f = Some fl" "f \<noteq> free_map_file s"
  obtains i where "inodes s (f_inode fl) = Some i" "1 < i_sector i" "i_data i = ino_at ss (i_sector i)" "i_sector i \<in> live s ss"
    "disk_inode_ok (length ss) (i_data i)" "0 \<le> f_pos fl" "f_pos fl < 2147483648"
    "deny_write_cnt i = int (card (denying s (f_inode fl)))" "contents ss (i_data i) = file_at ss (i_sector i)"
    "length (file_at ss (i_sector i)) < 2147483137"
proof -
  have s: "heap_ok s" "refs_ok X s" "users_ok s" "store_ok s ss" using inv d by (auto simp: fs_inv_def)
  obtain i where i: "inodes s (f_inode fl) = Some i" "1 < i_sector i" "0 \<le> f_pos fl" "f_pos fl < 2147483648"
    using user_file_inode [OF s(3) f] by blast
  note da = store_okD(4) [OF s(4) i(1)] and la = live_open [OF i(1), of ss]
  have ok: "disk_inode_ok (length ss) (i_data i)" using layoutD(3) [OF store_okD(3) [OF s(4)] la] da by simp
  then have "length (contents ss (i_data i)) < 2147483137" using contents_bound(2) [OF d ok] by (auto simp: disk_inode_ok_def)
  then show ?thesis using i da la ok refs_okD(6) [OF s(2) i(1)] by (intro that [of i]) (simp_all add: file_at_def)
qed

lemma file_read_inv:
  fixes sz :: int
  assumes inv: "fs_inv X s" and d: "disk s = Some ss" and f: "files s f = Some fl" "f \<noteq> free_map_file s" and i: "inodes s (f_inode fl) = Some i"
  defines "bs \<equiv> take (nat sz) (drop (nat (f_pos fl)) (file_at ss (i_sector i)))"
  obtains s' where "file_read f sz s = Some (bs, s')" "fs_inv X s'" "disk s' = Some ss"
    "files s' = (files s)(f \<mapsto> fl\<lparr>f_pos := f_pos fl + int (length bs)\<rparr>)" "inodes s' = inodes s" "dirs s' = dirs s"
    "live s' ss = live s ss" "used s' = used s" "free_map_file s' = free_map_file s"
proof -
  obtain j where j: "inodes s (f_inode fl) = Some j" "disk_inode_ok (length ss) (i_data j)" "0 \<le> f_pos fl" "f_pos fl < 2147483648"
    "contents ss (i_data j) = file_at ss (i_sector j)" "length (file_at ss (i_sector j)) < 2147483137"
    using open_file [OF inv d f] by blast
  have ij: "j = i" using i j(1) by simp
  have h: "heap_ok s" using inv by (simp add: fs_inv_def)
  obtain s1 where r: "inode_read_at (f_inode fl) sz (f_pos fl) s = Some (bs, s1)" "quiet s s1" "disk s1 = Some ss"
    using inode_read_at_range [OF d j(1,2,3,4) heap_okD(2) [OF h], of sz] heap_okD(1) [OF h] j(5)
    by (auto simp: read_range_def bs_def ij)
  note q = quiet_fields [OF r(2)]
  have b: "f_pos fl + int (length bs) < 2147483648"
    using j(3,4,6) unfolding bs_def ij by (cases "nat (f_pos fl) < length (file_at ss (i_sector i))") auto
  let ?s = "s1\<lparr>files := (files s1)(f \<mapsto> fl\<lparr>f_pos := f_pos fl + int (length bs)\<rparr>)\<rparr>"
  have "fs_inv X s1" using quiet_inv [OF inv r(2)] r(3) d by simp
  then have "fs_inv X ?s" using f(1) j(3) b by (intro set_pos_inv) (simp_all add: q)
  moreover have "live s1 ss = live s ss" by (simp add: live_def q)
  ultimately show ?thesis using r f(1) by (intro that [of ?s]) (simp_all add: file_read_def file_advance_def q used_def)
qed

lemma file_write_inv:
  fixes sz :: int
  assumes inv: "fs_inv X s" and d: "disk s = Some ss" and f: "files s f = Some fl" "f \<noteq> free_map_file s" and i: "inodes s (f_inode fl) = Some i"
    and sz: "sz \<le> int (length buf)"
  defines "c \<equiv> file_at ss (i_sector i)"
  defines "w \<equiv> (if denying s (f_inode fl) = {} then min (nat sz) (length c - nat (f_pos fl)) else 0)"
  obtains s' ss' where "file_write f buf sz s = Some (int w, s')" "fs_inv X s'" "disk s' = Some ss'"
    "files s' = (files s)(f \<mapsto> fl\<lparr>f_pos := f_pos fl + int w\<rparr>)" "inodes s' = inodes s" "dirs s' = dirs s"
    "live s' ss' = live s ss" "used s' = used s" "free_map_file s' = free_map_file s"
    "file_at ss' (i_sector i) = overwrite c (nat (f_pos fl)) (take w buf)" "root ss' = root ss"
    "\<forall>a \<in> live s ss. a \<noteq> i_sector i \<longrightarrow> file_at ss' a = file_at ss a"
proof -
  obtain j where j: "inodes s (f_inode fl) = Some j" "disk_inode_ok (length ss) (i_data j)" "0 \<le> f_pos fl" "f_pos fl < 2147483648"
    "contents ss (i_data j) = file_at ss (i_sector j)" "length (file_at ss (i_sector j)) < 2147483137"
    "1 < i_sector j" "i_data j = ino_at ss (i_sector j)" "i_sector j \<in> live s ss" "deny_write_cnt j = int (card (denying s (f_inode fl)))"
    using open_file [OF inv d f] by blast
  have ij: "j = i" using i j(1) by simp
  have h: "heap_ok s" "store_ok s ss" using inv d by (auto simp: fs_inv_def)
  have fin: "finite (denying s (f_inode fl))" by (rule finite_refs(3) [OF h(1)])
  have "\<exists>s1 ss'. inode_write_at (f_inode fl) buf sz (f_pos fl) s = Some (int w, s1) \<and> quiet s s1 \<and> disk s1 = Some ss' \<and> length ss' = length ss
      \<and> contents ss' (i_data i) = overwrite c (nat (f_pos fl)) (take w buf)
      \<and> (\<forall>k < length ss. k \<notin> data_sectors (i_data i) \<longrightarrow> ss' ! k = ss ! k)"
  proof (cases "denying s (f_inode fl) = {}")
    case True
    have len: "i_length (i_data i) = int (length c)"
      using contents_bound(2) [OF d j(2)] j(2,5) unfolding c_def ij disk_inode_ok_def by auto
    have w: "int w = max 0 (min sz (int (length c) - f_pos fl))" using True j(3) unfolding w_def by auto
    have "deny_write_cnt j = 0" using j(10) True by simp
    from inode_write_at_range [OF d j(1,2,3,4) heap_okD(2) [OF h(1)] this sz]
    obtain v s1 ss' where v: "inode_write_at (f_inode fl) buf sz (f_pos fl) s = Some (int v, s1)" "quiet s s1" "disk s1 = Some ss'" "length ss' = length ss"
      "write_count (i_length (i_data j)) sz (f_pos fl) (allocs s = []) v"
      "contents ss' (i_data j) = overwrite (contents ss (i_data j)) (nat (f_pos fl)) (take v buf)"
      "\<forall>k < length ss. k \<notin> data_sectors (i_data j) \<longrightarrow> ss' ! k = ss ! k" by blast
    have "v = w" using v(5) w len heap_okD(1) [OF h(1)] unfolding write_count_def ij by simp
    then show ?thesis using v(1-4,6,7) j(5) unfolding c_def ij by auto
  next
    case False
    then show ?thesis
      using inode_write_at_denied [OF j(1), of buf sz "f_pos fl"] j(5,10) fin d unfolding c_def w_def ij
      by (auto simp: overwrite_def)
  qed
  then obtain s1 ss' where r: "inode_write_at (f_inode fl) buf sz (f_pos fl) s = Some (int w, s1)" "quiet s s1" "disk s1 = Some ss'" "length ss' = length ss"
      "contents ss' (i_data i) = overwrite c (nat (f_pos fl)) (take w buf)" and fr: "\<And>k. k < length ss \<Longrightarrow> k \<notin> data_sectors (i_data i) \<Longrightarrow> ss' ! k = ss ! k"
    by blast
  have lay: "layout ss (used s) (live s ss)" by (rule store_okD(3) [OF h(2)])
  have D: "data_sectors (i_data i) \<inter> live s ss = {}" "data_sectors (i_data i) \<inter> data_sectors (ino_at ss 1) = {}"
    using layoutD(5) [OF lay _ j(9)] layoutD(6) [OF lay j(9) live_0(3)] j(7,8) unfolding ij by auto
  have rt: "root ss' = root ss" by (rule disk_frame(1) [OF h(2) disk_lengths(1) [OF r(3)] r(4) fr D])
  have ran: "live s ss \<union> ran (dmap (root ss')) = live s ss" unfolding rt by (auto simp: live_def)
  have fr': "\<And>k. k < length ss \<Longrightarrow> k \<notin> data_sectors (ino_at ss (i_sector i)) \<Longrightarrow> ss' ! k = ss ! k" using fr j(8) ij by simp
  have "i_sector i \<in> live s ss" "i_sector i \<noteq> 0" "dir_wf (root ss')" using j(7,9) ij rt store_okD(7) [OF h(2)] by auto
  moreover have "layout ss (used s) (live s ss \<union> ran (dmap (root ss')))" using lay unfolding ran .
  moreover have "i_sector x \<notin> ran (dmap (root ss'))" if "inodes s p = Some x" "removed x" for p x
    using store_okD(6) [OF h(2) that] rt by simp
  ultimately have dw: "fs_inv X s1" "\<And>b. b \<in> live s ss \<Longrightarrow> ino_at ss' b = ino_at ss b"
      "\<And>b. b \<in> live s ss \<Longrightarrow> b \<noteq> i_sector i \<Longrightarrow> file_at ss' b = file_at ss b"
    using data_write_inv [OF inv r(2) d r(3,4) _ _ fr'] by auto
  note q = quiet_fields [OF r(2)]
  have b: "f_pos fl + int w < 2147483648"
    using j(3,4,6) unfolding w_def c_def ij by (cases "nat (f_pos fl) < length (file_at ss (i_sector i))") auto
  let ?s = "s1\<lparr>files := (files s1)(f \<mapsto> fl\<lparr>f_pos := f_pos fl + int w\<rparr>)\<rparr>"
  have "fs_inv X ?s" using dw(1) f(1) j(3) b by (intro set_pos_inv) (simp_all add: q)
  moreover have "live s1 ss' = live s ss" by (simp add: live_def q rt)
  moreover have "file_at ss' (i_sector i) = overwrite c (nat (f_pos fl)) (take w buf)"
    using r(5) dw(2) [of "i_sector i"] j(8,9) unfolding file_at_def ij by simp
  ultimately show ?thesis using r f(1) rt dw(3)
    by (intro that [of ?s ss']) (simp_all add: file_write_def file_advance_def q used_def)
qed

end
