(* ===== verification/Fs_Names.thy ===== *)
theory Fs_Names
  imports Fs_Handles
begin

text \<open>
  Creating inodes, and adding and removing names in the root directory, preserve the invariant of
  the file system.
\<close>

section \<open>Creating an inode\<close>

lemma frame_inv:
  assumes inv: "fs_inv X s" and q: "quiet s s'" and d: "disk s = Some ss" "disk s' = Some ss'" "length ss' = length ss"
    and D: "\<And>j. j < length ss \<Longrightarrow> j \<notin> D \<Longrightarrow> ss' ! j = ss ! j" "D \<inter> live s ss = {}" "\<And>a. a \<in> live s ss \<Longrightarrow> D \<inter> data_sectors (ino_at ss a) = {}"
  shows "fs_inv X s'" "keeps (live s ss) ss ss'" "live s' ss' = live s ss"
proof -
  have h: "heap_ok s" "refs_ok X s" "users_ok s" "store_ok s ss" using inv d by (auto simp: fs_inv_def)
  note df = disk_frame [OF h(4) disk_lengths(1) [OF d(2)] d(3) D(1,2) D(3) [OF live_0(3)]]
  have fr1: "root ss' = root ss" by (rule df(1))
  have fr2: "live s ss' = live s ss" by (rule df(2))
  have ia: "ino_at ss' a = ino_at ss a" if "a \<in> live s ss" for a by (rule df(3) [OF _ _ that])
  have ca: "contents ss' (ino_at ss a) = contents ss (ino_at ss a)" if "a \<in> live s ss" for a by (rule df(5) [OF _ _ that D(3) [OF that]])
  note g = quiet_fields [OF q]
  show k: "keeps (live s ss) ss ss'" using fr1 ia ca d(3) by (auto simp: keeps_def file_at_def)
  show lv: "live s' ss' = live s ss" using fr2 by (simp add: live_def g)
  have "store_ok s' ss'"
  proof (rule store_okI)
    show "layout ss' (used s') (live s' ss')" using layout_keeps [OF store_okD(3) [OF h(4)] k] lv by (simp add: used_def g)
    show "contents ss' (ino_at ss' 0) = words_bytes (bits (free_map s'))"
      using ia [of 0] ca [of 0] store_okD(8) [OF h(4)] by (simp add: g)
    fix p i
    assume "inodes s' p = Some i"
    then have i: "inodes s p = Some i" by (simp add: g)
    show "i_data i = ino_at ss' (i_sector i)" using ia [OF live_open [OF i]] store_okD(4) [OF h(4) i] by simp
    show "removed i \<Longrightarrow> 1 < i_sector i \<and> i_sector i \<notin> ran (dmap (root ss'))" using store_okD(5,6) [OF h(4) i] fr1 by simp
  qed (use store_okD [OF h(4)] disk_lengths(1) [OF d(2)] d(3) fr1 in \<open>simp_all add: g\<close>)
  then show "fs_inv X s'" using quiet_memory [OF q h(1-3)] d(2) by (intro fs_invI)
qed

lemma zero_loop_disk:
  assumes "disk s = Some ss" and "st + n \<le> length ss"
  shows "\<exists>s' ss'. zero_loop st n s = Some s' \<and> quiet s s' \<and> disk s' = Some ss' \<and> length ss' = length ss
    \<and> (\<forall>j < length ss. ss' ! j = (if st \<le> j \<and> j < st + n then replicate 512 0 else ss ! j))"
  using assms
proof (induction n arbitrary: st s ss)
  case 0
  then show ?case by auto
next
  case (Suc n)
  obtain s1 where w: "block_write (fs_device s) st (replicate 512 0) s = Some s1" "quiet s s1" "disk s1 = Some (ss[st := replicate 512 0])"
    using disk_write [OF Suc.prems(1), of st "replicate 512 0"] Suc.prems(2) by auto
  have "size_add st 1 = st + 1" using Suc.prems(2) disk_lengths(2) [OF Suc.prems(1)] by (simp add: size_add_def)
  moreover obtain s' ss' where r: "zero_loop (st + 1) n s1 = Some s'" "quiet s1 s'" "disk s' = Some ss'" "length ss' = length ss"
    "\<forall>j < length ss. ss' ! j = (if st + 1 \<le> j \<and> j < st + 1 + n then replicate 512 0 else ss[st := replicate 512 0] ! j)"
    using Suc.IH [OF w(3), of "st + 1"] Suc.prems(2) by auto
  moreover have "ss' ! j = (if st \<le> j \<and> j < st + Suc n then replicate 512 0 else ss ! j)" if "j < length ss" for j
    using r(5) that by (auto simp: nth_list_update)
  ultimately show ?case using w quiet_trans [OF w(2) r(2)] by auto
qed

lemma contents_zero:
  assumes "\<forall>x \<in> set ss. length x = 512" and ok: "disk_inode_ok (length ss) d"
    and z: "\<And>j. j \<in> data_sectors d \<Longrightarrow> ss ! j = replicate 512 0"
  shows "contents ss d = replicate (nat (i_length d)) 0"
proof -
  let ?n = "nsec (i_length d)"
  have b: "i_start d + ?n \<le> length ss" using ok by (simp add: disk_inode_ok_def)
  have "take ?n (drop (i_start d) ss) = replicate ?n (replicate 512 0)"
    using b z by (intro nth_equalityI) (auto simp: data_sectors_def)
  then show ?thesis
    using length_le_nsec [of "i_length d"] by (simp add: contents_sectors [OF assms(1)] flat_replicate min_def mult.commute)
qed

lemma layout_insert:
  assumes "layout ss U L" and "a < length ss" "a \<in> U" "disk_inode_ok (length ss) (ino_at ss a)" "data_sectors (ino_at ss a) \<subseteq> U"
    and "a \<notin> data_sectors (ino_at ss a)" "\<And>b. b \<in> L \<Longrightarrow> a \<notin> data_sectors (ino_at ss b)" "\<And>b. b \<in> L \<Longrightarrow> b \<notin> data_sectors (ino_at ss a)"
    "\<And>b. b \<in> L \<Longrightarrow> data_sectors (ino_at ss a) \<inter> data_sectors (ino_at ss b) = {}"
  shows "layout ss U (insert a L)"
proof -
  have "data_sectors (ino_at ss b) \<inter> data_sectors (ino_at ss a) = {}" if "b \<in> L" for b using assms(9) [OF that] by blast
  then show ?thesis using assms unfolding layout_def by (simp add: ball_simps)
qed

lemma inode_create_inv:
  assumes inv: "fs_inv X s" and d: "disk s = Some ss" and len: "0 \<le> len" "len < 2147483648 - 511"
    and sec: "sec < length ss" "sec \<in> used s" "sec \<notin> live s ss" "\<And>a. a \<in> live s ss \<Longrightarrow> sec \<notin> data_sectors (ino_at ss a)"
  obtains (full) s' where "inode_create sec len s = Some (False, s')" "quiet s s'" "disk s' = Some ss"
      "\<And>k. k + nsec len \<le> length ss \<Longrightarrow> {k ..< k + nsec len} \<inter> used s \<noteq> {}"
  | (created) s' ss' st where "inode_create sec len s = Some (True, s')" "fs_inv X s'" "disk s' = Some ss'" "live s' ss' = live s ss"
      "keeps (live s ss) ss ss'" "layout ss' (used s') (insert sec (live s ss))" "file_at ss' sec = replicate (nat len) 0"
      "ino_at ss' sec = \<lparr>i_start = st, i_length = len, i_magic = INODE_MAGIC\<rparr>"
      "used s' = used s \<union> {st ..< st + nsec len}" "{st ..< st + nsec len} \<inter> used s = {}"
      "files s' = files s" "dirs s' = dirs s" "inodes s' = inodes s" "free_map_file s' = free_map_file s" "scratch s' = scratch s"
proof -
  have h: "heap_ok s" using inv by (simp add: fs_inv_def)
  obtain s1 where m: "malloc s = (next_ptr s, s1)" "quiet s s1" "disk s1 = Some ss" using malloc_fresh [OF h d] by blast
  note q1 = quiet_fields [OF m(2)]
  have inv1: "fs_inv X s1" using quiet_inv [OF inv m(2)] m(3) d by simp
  have lv1: "live s1 ss = live s ss" "used s1 = used s" by (simp_all add: live_def used_def q1)
  have p0: "next_ptr s \<noteq> NULL" using heap_okD(2) [OF h] by simp
  note n = bytes_to_sectors_nsec(1) [OF len]
  show ?thesis
  proof (cases rule: free_map_allocate_cases [OF inv_fm_ready [OF inv1 m(3)], of "nsec len"])
    case 1
    note none = this
    then show ?thesis using m p0 len(1) lv1(2) by (intro full [of s1]) (simp_all add: inode_create_def n)
  next
    case (2 st b s2 ss2)
    note some = this
    let ?d = "\<lparr>i_start = st, i_length = len, i_magic = INODE_MAGIC\<rparr>"
    have lay1: "layout ss (used s) (live s ss)" using store_okD(3) [of s ss] inv d by (auto simp: fs_inv_def)
    have "layout ss (bm_used b) (live s1 ss)" using lay1 some(6) lv1 unfolding layout_def by auto
    note i2 = fm_step_inv [OF inv1 m(3) some(2,3) this]
    note g2 = fm_stepD [OF some(2)]
    have l2: "length ss2 = length ss" by (rule g2(12))
    obtain s3 where w: "block_write (fs_device s2) sec (inode_encode ?d) s2 = Some s3" "quiet s2 s3" "disk s3 = Some (ss2[sec := inode_encode ?d])"
      using disk_write [OF g2(11), of sec "inode_encode ?d"] sec(1) l2 by auto
    obtain s4 ss4 where z: "zero_loop st (nsec len) s3 = Some s4" "quiet s3 s4" "disk s4 = Some ss4" "length ss4 = length ss"
      and z4: "\<forall>j < length ss. ss4 ! j = (if st \<le> j \<and> j < st + nsec len then replicate 512 0 else ss2[sec := inode_encode ?d] ! j)"
      using zero_loop_disk [OF w(3), of st "nsec len"] some(4) l2 by auto
    let ?D = "insert sec {st ..< st + nsec len}"
    have lu: "a \<in> used s" "data_sectors (ino_at ss a) \<subseteq> used s" "ino_at ss2 a = ino_at ss a" if "a \<in> live s ss" for a
      using layoutD(2,4) [OF lay1 that] i2(2) that lv1 by (auto simp: keeps_def)
    have fr: "ss4 ! j = ss2 ! j" if "j < length ss2" "j \<notin> ?D" for j using z4 that l2 by auto
    have lv2: "live s2 ss2 = live s ss" using i2(3) lv1 by simp
    have D: "?D \<inter> live s2 ss2 = {}" "\<And>a. a \<in> live s2 ss2 \<Longrightarrow> ?D \<inter> data_sectors (ino_at ss2 a) = {}"
      using some(5) lu sec(3,4) lv1 unfolding lv2 by auto
    have l4: "length ss4 = length ss2" using z(4) l2 by simp
    note q4 = quiet_trans [OF w(2) z(2)]
    note f4 = frame_inv [OF i2(1) q4 g2(11) z(3) l4 fr D]
    have k4: "keeps (live s ss) ss ss4" using keeps_trans [OF i2(2)] f4(2) lv1 lv2 by simp
    note g4 = quiet_fields [OF q4]
    have ni: "sec \<notin> {st ..< st + nsec len}" using some(5) sec(2) lv1 by auto
    have "st < 4294967296" using some(4) disk_lengths(2) [OF d] by simp
    then have "inode_decode (inode_encode ?d) = ?d" using len by (intro inode_decode_encode) (simp_all add: INODE_MAGIC_def)
    then have isec: "ino_at ss4 sec = ?d" using z4 sec(1) ni l2 by (auto simp: ino_at_def)
    have dok: "disk_inode_ok (length ss4) ?d" using len some(4) z(4) by (simp add: disk_inode_ok_def)
    have ds: "data_sectors ?d = {st ..< st + nsec len}" by (simp add: data_sectors_def)
    have "file_at ss4 sec = replicate (nat len) 0"
      using contents_zero [OF disk_lengths(1) [OF z(3)] dok] z4 some(4) unfolding file_at_def isec ds by simp
    moreover have u4: "used s4 = used s \<union> {st ..< st + nsec len}" using some(6) lv1 by (simp add: used_def g4 g2(4))
    moreover have "layout ss4 (used s4) (insert sec (live s ss))"
    proof -
      have "layout ss4 (used s4) (live s ss)"
        using layout_keeps [OF _ k4, of "used s \<union> {st ..< st + nsec len}"] lay1 unfolding u4 layout_def by auto
      then show ?thesis
      proof (rule layout_insert)
        fix c
        assume c: "c \<in> live s ss"
        then have ic: "ino_at ss4 c = ino_at ss c" using k4 by (simp add: keeps_def)
        show "sec \<notin> data_sectors (ino_at ss4 c)" using sec(4) [OF c] ic by simp
        show "c \<notin> data_sectors (ino_at ss4 sec)" using lu(1) [OF c] some(5) lv1 unfolding isec ds by auto
        show "data_sectors (ino_at ss4 sec) \<inter> data_sectors (ino_at ss4 c) = {}" using lu(2) [OF c] some(5) lv1 unfolding isec ds ic by auto
      qed (use isec dok sec(1,2) z(4) ni in \<open>auto simp: ds u4\<close>)
    qed
    moreover have "inode_create sec len s = Some (True, s4)"
      using m(1) p0 len(1) some(1) w(1) z(1) by (simp add: inode_create_def n)
    ultimately show ?thesis
      using f4 k4 lv2 isec some(5) lv1 z(3) by (intro created [of s4 ss4 st]) (simp_all add: g4 g2 q1)
  qed
qed

section \<open>The root directory\<close>

text \<open>The data of files, which operations on other files leave alone.\<close>

definition same_files :: "nat set \<Rightarrow> byte list list \<Rightarrow> byte list list \<Rightarrow> bool" where
  "same_files L ss ss' \<longleftrightarrow> (\<forall>a \<in> L. 1 < a \<longrightarrow> file_at ss' a = file_at ss a)"

lemma keeps_same: "keeps L ss ss' \<Longrightarrow> same_files L ss ss'"
  by (auto simp: keeps_def same_files_def)

lemma same_files_trans: "same_files L ss ss1 \<Longrightarrow> same_files L ss1 ss2 \<Longrightarrow> same_files L ss ss2"
  by (simp add: same_files_def)

lemma same_files_mono: "same_files L ss ss' \<Longrightarrow> L' \<subseteq> L \<Longrightarrow> same_files L' ss ss'"
  by (auto simp: same_files_def)

lemma same_files_refl [simp]: "same_files L ss ss"
  by (simp add: same_files_def)

lemma root_inode:
  assumes inv: "fs_inv X s" and d: "disk s = Some ss" and dr: "dirs s f = Some dr"
  obtains i where "inodes s (d_inode dr) = Some i" "i_sector i = 1" "f \<noteq> NULL" "readable s (d_inode dr) (root ss)"
    "deny_write_cnt i = 0" "i_data i = ino_at ss 1" "disk_inode_ok (length ss) (i_data i)"
proof -
  have h: "refs_ok X s" "users_ok s" "store_ok s ss" using inv d by (auto simp: fs_inv_def)
  obtain i where i: "inodes s (d_inode dr) = Some i" "i_sector i = 1" "f \<noteq> NULL" using dir_inode [OF inv dr] by blast
  have "g \<notin> denying s (d_inode dr)" for g
  proof
    assume "g \<in> denying s (d_inode dr)"
    then obtain gl where g: "files s g = Some gl" "f_inode gl = d_inode dr" by (auto simp: denying_def)
    then show False using users_okD(2) [OF h(2) g(1)] i(1,2) by (auto split: if_splits)
  qed
  then have "denying s (d_inode dr) = {}" by blast
  then have "deny_write_cnt i = 0" using refs_okD(6) [OF h(1) i(1)] by simp
  moreover have "readable s (d_inode dr) (root ss)" using readable_open [OF inv d i(1)] i(2) by (simp add: root_def)
  moreover have "i_data i = ino_at ss 1" using store_okD(4) [OF h(3) i(1)] i(2) by simp
  moreover have "disk_inode_ok (length ss) (ino_at ss 1)" by (rule layoutD(3) [OF store_okD(3) [OF h(3)] live_0(3)])
  ultimately show ?thesis using i by (intro that [of i]) simp_all
qed

lemma length_root:
  assumes "fs_inv X s" and "disk s = Some ss"
  shows "int (length (root ss)) = i_length (ino_at ss 1)" "length (root ss) < 2147483137"
proof -
  have "store_ok s ss" using assms by (auto simp: fs_inv_def)
  then have ok: "disk_inode_ok (length ss) (ino_at ss 1)" using layoutD(3) [OF store_okD(3) live_0(3)] by blast
  then show "int (length (root ss)) = i_length (ino_at ss 1)" "length (root ss) < 2147483137"
    using contents_bound(2) [OF assms(2) ok] by (auto simp: root_def disk_inode_ok_def)
qed

text \<open>Writing an entry into the root directory.\<close>

lemma root_write:
  assumes inv: "fs_inv X s" and d: "disk s = Some ss" and dr: "dirs s f = Some dr" and e: "length e = 20" and j: "20 * j \<le> length (root ss)"
  obtains s' ss' where "inode_write_at (d_inode dr) e 20 (int (20 * j)) s = Some (if 20 * j < length (root ss) then 20 else 0, s')"
    "quiet s s'" "disk s' = Some ss'" "length ss' = length ss"
    "root ss' = (if 20 * j < length (root ss) then overwrite (root ss) (20 * j) e else root ss)"
    "\<forall>k < length ss. k \<notin> data_sectors (ino_at ss 1) \<longrightarrow> ss' ! k = ss ! k"
proof -
  have h: "heap_ok s" "store_ok s ss" using inv d by (auto simp: fs_inv_def)
  obtain i where i: "inodes s (d_inode dr) = Some i" "deny_write_cnt i = 0" "i_data i = ino_at ss 1" "disk_inode_ok (length ss) (i_data i)"
    using root_inode [OF inv d dr] by blast
  note len = length_root [OF inv d]
  have "20 dvd length (root ss)" using store_okD(7) [OF h(2)] by (simp add: dir_wf_def)
  then have fits: "20 * j + 20 \<le> length (root ss)" if "20 * j < length (root ss)" using that by (auto elim!: dvdE)
  have o: "0 \<le> int (20 * j)" "int (20 * j) < 2147483648" "(20 :: int) \<le> int (length e)" using j len(2) e by auto
  obtain w s' ss' where w: "inode_write_at (d_inode dr) e 20 (int (20 * j)) s = Some (int w, s')" "quiet s s'" "disk s' = Some ss'" "length ss' = length ss"
    "write_count (i_length (i_data i)) 20 (int (20 * j)) (allocs s = []) w"
    "contents ss' (i_data i) = overwrite (contents ss (i_data i)) (nat (int (20 * j))) (take w e)"
    "\<forall>k < length ss. k \<notin> data_sectors (i_data i) \<longrightarrow> ss' ! k = ss ! k"
    using inode_write_at_range [OF d i(1,4) o(1,2) heap_okD(2) [OF h(1)] i(2) o(3)] by blast
  have wn: "w = (if 20 * j < length (root ss) then 20 else 0)"
    using w(5) heap_okD(1) [OF h(1)] len(1) fits j unfolding write_count_def i(3) by auto
  have "1 < length ss" "1 \<notin> data_sectors (ino_at ss 1)"
    using layoutD(1) [OF store_okD(3) [OF h(2)] live_0(3)] layoutD(5) [OF store_okD(3) [OF h(2)] live_0(3) live_0(3)] by auto
  then have "ino_at ss' 1 = ino_at ss 1" using w(7) i(3) by (intro ino_at_frame) simp
  then have "root ss' = overwrite (root ss) (20 * j) (take w e)" using w(6) unfolding root_def i(3) nat_int by simp
  then have "root ss' = (if 20 * j < length (root ss) then overwrite (root ss) (20 * j) e else root ss)" using wn e by auto
  moreover have "inode_write_at (d_inode dr) e 20 (int (20 * j)) s = Some (if 20 * j < length (root ss) then 20 else 0, s')"
    using w(1) wn by (simp split: if_splits)
  ultimately show ?thesis using w i(3) by (intro that [of s' ss']) simp_all
qed

text \<open>A new directory over the same inodes, and possibly one more that is ready.\<close>

lemma root_write_inv:
  assumes inv: "fs_inv X s" and d: "disk s = Some ss" and q: "quiet s s'" "disk s' = Some ss'" "length ss' = length ss"
    and fr: "\<forall>k < length ss. k \<notin> data_sectors (ino_at ss 1) \<longrightarrow> ss' ! k = ss ! k"
    and wf: "dir_wf (root ss')" and ran: "ran (dmap (root ss')) \<subseteq> L" and lay: "layout ss (used s) (live s ss \<union> L)"
    and rem: "\<And>p i. inodes s p = Some i \<Longrightarrow> removed i \<Longrightarrow> i_sector i \<notin> ran (dmap (root ss'))"
  shows "fs_inv X s'" "same_files (live s ss \<union> ran (dmap (root ss'))) ss ss'"
proof -
  have lay': "layout ss (used s) (live s ss \<union> ran (dmap (root ss')))" using ran by (intro layout_mono [OF lay]) blast
  have fr': "\<And>k. k < length ss \<Longrightarrow> k \<notin> data_sectors (ino_at ss 1) \<Longrightarrow> ss' ! k = ss ! k" using fr by blast
  have "(1 :: nat) \<noteq> 0" by simp
  note dw = data_write_inv [OF inv q(1) d q(2,3) live_0(3) this fr' wf lay' rem]
  show "fs_inv X s'" by (rule dw(1))
  have "file_at ss' b = file_at ss b" if "b \<in> live s ss \<union> ran (dmap (root ss'))" "1 < b" for b
    by (rule dw(3)) (use that in simp_all)
  then show "same_files (live s ss \<union> ran (dmap (root ss'))) ss ss'" by (simp add: same_files_def)
qed

section \<open>Adding a name\<close>

lemma dir_add_inv:
  assumes inv: "fs_inv X s" and d: "disk s = Some ss" and dr: "dirs s f = Some dr" and nm: "0 \<notin> set nm"
    and sec: "1 < sec" "sec \<notin> live s ss" and lay: "layout ss (used s) (insert sec (live s ss))"
  obtains (refused) s' ss' where "dir_add f nm sec s = Some (False, s')" "fs_inv X s'" "disk s' = Some ss'" "live s' ss' = live s ss"
      "root ss' = root ss" "same_files (live s ss) ss ss'" "quiet s s'"
      "nm = [] \<or> NAME_MAX < length nm \<or> dmap (root ss) nm \<noteq> None \<or> (\<forall>e \<in> set (entries (root ss)). e_in_use e)"
  | (added) s' ss' where "dir_add f nm sec s = Some (True, s')" "fs_inv X s'" "disk s' = Some ss'" "live s' ss' = insert sec (live s ss)"
      "dmap (root ss') = (dmap (root ss))(nm \<mapsto> sec)" "same_files (insert sec (live s ss)) ss ss'" "quiet s s'"
      "nm \<noteq> []" "length nm \<le> NAME_MAX" "dmap (root ss) nm = None"
proof -
  have h: "heap_ok s" "store_ok s ss" using inv d by (auto simp: fs_inv_def)
  let ?c = "root ss"
  have wf: "dir_wf ?c" by (rule store_okD(7) [OF h(2)])
  obtain i where i: "f \<noteq> NULL" "readable s (d_inode dr) ?c" using root_inode [OF inv d dr] by blast
  show ?thesis
  proof (cases "nm = [] \<or> NAME_MAX < length nm")
    case True
    then have "dir_add f nm sec s = Some (False, s)" using i(1) by (auto simp: dir_add_def)
    then show ?thesis using inv d True by (intro refused [of s ss]) auto
  next
    case False
    note name = this
    show ?thesis
    proof (cases rule: lookup_result [OF i(2) dr i(1) wf nm])
      case (2 s1 j)
      have "dir_add f nm sec s = Some (False, s1)" using 2(1) name i(1) by (auto simp: dir_add_def)
      moreover have "fs_inv X s1" using quiet_inv [OF inv 2(5,6)] .
      moreover have "live s1 ss = live s ss" by (simp add: live_def quiet_fields [OF 2(5)])
      ultimately show ?thesis using 2 d by (intro refused [of s1 ss]) simp_all
    next
      case (1 s1)
      note q1 = quiet_fields [OF 1(3)]
      have inv1: "fs_inv X s1" and d1: "disk s1 = Some ss" and dr1: "dirs s1 f = Some dr"
        using quiet_inv [OF inv 1(3,4)] 1(4) d dr q1 by simp_all
      have sc: "length (scratch s1) = 20" using heap_okD(3) [OF h(1)] q1 by simp
      let ?slot = "case find (\<lambda>j. \<not> e_in_use (entries ?c ! j)) [0..<length ?c div 20] of Some j \<Rightarrow> j | None \<Rightarrow> length ?c div 20"
      obtain s2 e where s2: "slot_loop (d_inode dr) 0 (scratch s1) s1 = Some (int (20 * ?slot), e, s2)" "quiet s1 s2" "disk s2 = disk s1" "length e = 20"
        using slot_loop_find [OF readable_quiet [OF i(2) 1(3,4)] _ sc, of 0] by auto
      note q2 = quiet_fields [OF s2(2)]
      have inv2: "fs_inv X s2" and d2: "disk s2 = Some ss" and dr2: "dirs s2 f = Some dr"
        using quiet_inv [OF inv1 s2(2,3)] s2(3) d1 dr1 q2 by simp_all
      have sl: "sec < 4294967296" using layoutD(1) [OF lay, of sec] disk_lengths(2) [OF d] by simp
      have nm14: "nm \<noteq> []" "length nm \<le> 14" using name by (auto simp: NAME_MAX_def)
      note ne = new_entry_fields [OF s2(4) nm14 nm sl]
      have slot: "20 * ?slot \<le> length ?c" by (auto split: option.splits simp: find_Some_iff)
      obtain s3 ss' where w: "inode_write_at (d_inode dr) (new_entry e nm sec) 20 (int (20 * ?slot)) s2 = Some (if 20 * ?slot < length ?c then 20 else 0, s3)"
        "quiet s2 s3" "disk s3 = Some ss'" "length ss' = length ss"
        "root ss' = (if 20 * ?slot < length ?c then overwrite ?c (20 * ?slot) (new_entry e nm sec) else ?c)"
        "\<forall>k < length ss. k \<notin> data_sectors (ino_at ss 1) \<longrightarrow> ss' ! k = ss ! k"
        using root_write [OF inv2 d2 dr2 ne(1) slot] by blast
      have add: "dir_add f nm sec s = Some (20 * ?slot < length ?c, s3)"
        using name i(1) 1(1) s2(1) w(1) dr1 by (auto simp: dir_add_def)
      have q: "quiet s s3" using quiet_trans [OF 1(3) quiet_trans [OF s2(2) w(2)]] .
      note qf = quiet_fields [OF q]
      have lay0: "layout ss (used s) (live s ss)" by (rule store_okD(3) [OF h(2)])
      show ?thesis
      proof (cases "find (\<lambda>j. \<not> e_in_use (entries ?c ! j)) [0..<length ?c div 20]")
        case None
        then have full: "\<forall>e \<in> set (entries ?c). e_in_use e" by (auto simp: find_None_iff in_set_conv_nth)
        have "20 dvd length ?c" using wf by (simp add: dir_wf_def)
        then have r: "root ss' = ?c" "\<not> 20 * ?slot < length ?c" using w(5) None by auto
        have "ran (dmap (root ss')) \<subseteq> live s ss" by (auto simp: r(1) live_def)
        moreover have "layout ss (used s) (live s ss \<union> live s ss)" using lay0 by simp
        ultimately have "fs_inv X s3" "same_files (live s ss \<union> ran (dmap (root ss'))) ss ss'"
          using root_write_inv [OF inv d q w(3,4,6), of "live s ss"] wf store_okD(6) [OF h(2)] r(1) by auto
        moreover have "live s3 ss' = live s ss" by (simp add: live_def qf r(1))
        ultimately show ?thesis
          using add r full w(3) q by (intro refused [of s3 ss']) (auto intro: same_files_mono)
      next
        case (Some j)
        then have j: "j < length ?c div 20" "\<not> e_in_use (entries ?c ! j)" by (auto simp: find_Some_iff)
        have j3: "?slot = j" using Some by simp
        have lt: "20 * ?slot < length ?c" using entry_fits [OF j(1)] j3 by simp
        have nr: "sec \<notin> ran (dmap ?c)" using sec(2) by (auto simp: live_def)
        note wa = dir_wf_add [OF wf j(1,2) ne 1(2) nr sec(1)]
        have r: "root ss' = overwrite ?c (20 * j) (new_entry e nm sec)" using w(5) lt j3 by simp
        have dm: "dmap (root ss') = (dmap ?c)(nm \<mapsto> sec)" using wa(2) r by simp
        have ran: "ran (dmap (root ss')) = insert sec (ran (dmap ?c))" unfolding dm using 1(2) by (simp add: ran_map_upd)
        have "i_sector x \<notin> ran (dmap (root ss'))" if "inodes s p = Some x" "removed x" for p x
          using store_okD(6) [OF h(2) that] live_open [OF that(1), of ss] sec(2) unfolding ran by auto
        moreover have "live s ss \<union> insert sec (live s ss) = insert sec (live s ss)" by blast
        moreover have "ran (dmap (root ss')) \<subseteq> insert sec (live s ss)" unfolding ran by (auto simp: live_def)
        ultimately have "fs_inv X s3" "same_files (live s ss \<union> ran (dmap (root ss'))) ss ss'"
          using root_write_inv [OF inv d q w(3,4,6), of "insert sec (live s ss)"] wa(1) r lay by auto
        moreover have "live s3 ss' = insert sec (live s ss)" unfolding live_def qf ran by auto
        moreover have "live s ss \<union> ran (dmap (root ss')) = insert sec (live s ss)" unfolding ran by (auto simp: live_def)
        ultimately show ?thesis
          using add lt dm w(3) q nm14 1(2) by (intro added [of s3 ss']) (auto simp: NAME_MAX_def)
      qed
    qed
  qed
qed

section \<open>Removing a name\<close>

lemma inode_remove_inv:
  assumes inv: "fs_inv X s" and d: "disk s = Some ss" and i: "inodes s p = Some i" and r: "1 < i_sector i" "i_sector i \<notin> ran (dmap (root ss))"
  obtains s' where "inode_remove p s = Some s'" "fs_inv X s'" "s' = s\<lparr>inodes := (inodes s)(p \<mapsto> i\<lparr>removed := True\<rparr>)\<rparr>" "live s' ss = live s ss"
proof -
  let ?s = "s\<lparr>inodes := (inodes s)(p \<mapsto> i\<lparr>removed := True\<rparr>)\<rparr>"
  have h: "refs_ok X s" using inv by (simp add: fs_inv_def)
  have "removed_update (\<lambda>_. True) i = i\<lparr>removed := True\<rparr>" by simp
  then have "inode_remove p s = Some ?s" using i file_bounds(3) [OF inv i] by (simp add: inode_remove_def upd_inode_def)
  moreover have "fs_inv X ?s"
    using refs_okD(4,5) [OF h i] r d by (intro inode_upd_inv [OF inv i]) auto
  moreover have "live ?s ss = live s ss" by (rule live_upd [OF i]) simp
  ultimately show ?thesis using that by blast
qed

lemma dir_remove_inv:
  assumes inv: "fs_inv X s" and d: "disk s = Some ss" and dr: "dirs s f = Some dr" and nm: "0 \<notin> set nm"
  obtains (absent) s' where "dir_remove f nm s = Some (False, s')" "dmap (root ss) nm = None" "quiet s s'" "disk s' = Some ss" "fs_inv X s'"
  | (removed) s' ss' where "dir_remove f nm s = Some (True, s')" "dmap (root ss) nm \<noteq> None" "fs_inv X s'" "disk s' = Some ss'"
      "dmap (root ss') = (dmap (root ss))(nm := None)" "live s' ss' \<subseteq> live s ss" "same_files (live s' ss') ss ss'"
      "used s' \<subseteq> used s" "files s' = files s" "dirs s' = dirs s" "free_map_file s' = free_map_file s"
      "\<forall>q j. inodes s' q = Some j \<longrightarrow> (\<forall>j0. inodes s q = Some j0 \<longrightarrow> i_sector j0 = i_sector j)"
proof -
  have h: "heap_ok s" "store_ok s ss" using inv d by (auto simp: fs_inv_def)
  let ?c = "root ss"
  have wf: "dir_wf ?c" by (rule store_okD(7) [OF h(2)])
  obtain i where i: "f \<noteq> NULL" "readable s (d_inode dr) ?c" using root_inode [OF inv d dr] by blast
  show ?thesis
  proof (cases rule: lookup_result [OF i(2) dr i(1) wf nm])
    case (1 s1)
    then show ?thesis using i(1) d quiet_inv [OF inv 1(3,4)] by (intro absent [of s1]) (auto simp: dir_remove_def)
  next
    case (2 s1 k)
    let ?e = "entries ?c ! k" let ?sec = "e_inode_sector ?e"
    note q1 = quiet_fields [OF 2(5)]
    have inv1: "fs_inv X s1" and d1: "disk s1 = Some ss" and lv1: "live s1 ss = live s ss"
      using quiet_inv [OF inv 2(5,6)] 2(6) d by (simp_all add: live_def q1)
    have "?sec \<in> live s1 ss" using live_entry [OF 2(4)] by blast
    from open_inv [OF inv1 d1 this]
    obtain p x s2 where o: "inode_open ?sec s1 = Some (p, s2)" "p \<noteq> NULL" "inodes s2 p = Some x" "i_sector x = ?sec"
      "fs_inv (X(p := X p + 1)) s2" "disk s2 = Some ss" "live s2 ss = live s1 ss" "used s2 = used s1" "files s2 = files s1" "dirs s2 = dirs s1"
      "free_map_file s2 = free_map_file s1" "free_map s2 = free_map s1" "scratch s2 = scratch s1"
      "\<forall>q. q \<noteq> p \<longrightarrow> inodes s2 q = inodes s1 q" "\<forall>j. inodes s1 p = Some j \<longrightarrow> x = j\<lparr>open_cnt := open_cnt j + 1\<rparr>" .
    have dr2: "dirs s2 f = Some dr" using o(10) q1 dr by simp
    have le: "length ?e = 20" "length (take 19 ?e @ [0]) = 20" "\<not> e_in_use (take 19 ?e @ [0])"
      using length_entry [OF 2(2)] by (simp_all add: e_in_use_def nth_append)
    have k20: "20 * k < length ?c" "20 * k \<le> length ?c" using entry_fits [OF 2(2)] by simp_all
    obtain s3 ss3 where w: "inode_write_at (d_inode dr) (take 19 ?e @ [0]) 20 (int (20 * k)) s2 = Some (20, s3)" "quiet s2 s3" "disk s3 = Some ss3"
      "length ss3 = length ss" "root ss3 = overwrite ?c (20 * k) (take 19 ?e @ [0])" "\<forall>k < length ss. k \<notin> data_sectors (ino_at ss 1) \<longrightarrow> ss3 ! k = ss ! k"
      using root_write [OF o(5,6) dr2 le(2) k20(2)] k20(1) by auto
    note we = dir_wf_erase [OF wf 2(2,3) le(2,3), folded w(5)]
    have ran: "ran (dmap (root ss3)) \<subseteq> live s2 ss" unfolding we(2) by (auto simp: live_def ran_def split: if_splits)
    have st2: "store_ok s2 ss" using o(5,6) by (auto simp: fs_inv_def)
    have sub: "ran (dmap (root ss3)) \<subseteq> ran (dmap ?c)" unfolding we(2) by (auto simp: ran_def split: if_splits)
    have "i_sector y \<notin> ran (dmap (root ss3))" if "inodes s2 q = Some y" "removed y" for q y using store_okD(6) [OF st2 that] sub by blast
    moreover have "layout ss (used s2) (live s2 ss \<union> live s2 ss)" using store_okD(3) [OF st2] by simp
    ultimately have inv3: "fs_inv (X(p := X p + 1)) s3" and same3: "same_files (live s2 ss \<union> ran (dmap (root ss3))) ss ss3"
      using root_write_inv [OF o(5,6) w(2,3,4,6) we(1) ran] by blast+
    note q3 = quiet_fields [OF w(2)]
    have x3: "inodes s3 p = Some x" using o(3) q3 by simp
    have "?sec \<notin> ran (dmap (root ss3))" using dmap_inj [OF wf _ 2(4)] unfolding we(2) by (auto simp: ran_def split: if_splits)
    moreover have "1 < ?sec" by (rule dmap_sector [OF wf 2(4)])
    ultimately have "1 < i_sector x" "i_sector x \<notin> ran (dmap (root ss3))" using o(4) by simp_all
    from inode_remove_inv [OF inv3 w(3) x3 this]
    obtain s4 where r: "inode_remove p s3 = Some s4" "fs_inv (X(p := X p + 1)) s4" "s4 = s3\<lparr>inodes := (inodes s3)(p \<mapsto> x\<lparr>removed := True\<rparr>)\<rparr>"
      "live s4 ss3 = live s3 ss3" .
    have d4: "disk s4 = Some ss3" and x4: "inodes s4 p = Some (x\<lparr>removed := True\<rparr>)" and xp: "0 < (X(p := X p + 1)) p" using r(3) w(3) by simp_all
    from inode_close_inv [OF r(2) d4 x4 xp]
    obtain s5 ss5 where c: "inode_close p s4 = Some s5" "fs_inv ((X(p := X p + 1))(p := (X(p := X p + 1)) p - 1)) s5" "disk s5 = Some ss5" "live s5 ss5 \<subseteq> live s4 ss3"
      "keeps (live s5 ss5) ss3 ss5" "used s5 \<subseteq> used s4" "files s5 = files s4" "dirs s5 = dirs s4" "free_map_file s5 = free_map_file s4"
      "\<forall>q. q \<noteq> p \<longrightarrow> inodes s5 q = inodes s4 q" "scratch s5 = scratch s4"
      "\<forall>q j. inodes s5 q = Some j \<longrightarrow> (\<exists>j0. inodes s4 q = Some j0 \<and> i_sector j0 = i_sector j)" .
    have "dir_remove f nm s = Some (True, s5)"
      using i(1) 2(1) o(1,2) dr2 w(1) r(1) c(1) k20(2) length_root(2) [OF inv d] by (simp add: dir_remove_def wrap_s32_def)
    moreover have "fs_inv X s5" using c(2) by simp
    moreover have "dmap (root ss5) = (dmap ?c)(nm := None)" using c(5) we(2) by (simp add: keeps_def)
    moreover have l5: "live s5 ss5 \<subseteq> live s ss"
    proof -
      have "live s3 ss3 \<subseteq> live s2 ss" using sub by (auto simp: live_def q3)
      then show ?thesis using c(4) r(4) o(7) lv1 by auto
    qed
    moreover have "same_files (live s5 ss5) ss ss5"
      using same_files_trans [OF same_files_mono [OF same3, of "live s5 ss5"] keeps_same [OF c(5)]] l5 o(7) lv1 by auto
    moreover have "used s5 \<subseteq> used s" using c(6) r(3) o(8) by (simp add: used_def q3 q1)
    moreover have "files s5 = files s" "dirs s5 = dirs s" "free_map_file s5 = free_map_file s" using c(7-9) r(3) o(9-11) by (simp_all add: q3 q1)
    moreover have "\<forall>q j. inodes s5 q = Some j \<longrightarrow> (\<forall>j0. inodes s q = Some j0 \<longrightarrow> i_sector j0 = i_sector j)"
    proof (intro allI impI)
      fix q j j0
      assume j: "inodes s5 q = Some j" "inodes s q = Some j0"
      then obtain j4 where j4: "inodes s4 q = Some j4" "i_sector j4 = i_sector j" using c(12) by blast
      show "i_sector j0 = i_sector j"
      proof (cases "q = p")
        case True
        then have "x = j0\<lparr>open_cnt := open_cnt j0 + 1\<rparr>" using o(15) j(2) q1 by simp
        then show ?thesis using j4 x4 True by auto
      next
        case False
        then have "inodes s4 q = inodes s q" using r(3) q3(2) o(14) q1(2) by simp
        then show ?thesis using j4 j(2) by simp
      qed
    qed
    moreover have "dmap ?c nm \<noteq> None" using 2(4) by simp
    ultimately show ?thesis using c(3) by - (rule removed [of s5 ss5]; assumption)
  qed
qed

end
