(* ===== verification/Spec2Isabelle.thy ===== *)
theory Spec2Isabelle
  imports Hash_Table Kernel_Props Kernel_Queues Mlfqs Stdlib Arith64 Partition Fs_Names
begin

text \<open>
  Verification development of a Pintos kernel (C, \<^verbatim>\<open>src/pintos-anon/src\<close>; file names below are
  relative to that directory).

  \<^bold>\<open>The program.\<close> A teaching kernel for one processor. \<^verbatim>\<open>threads/\<close> has preemptive kernel threads with a
  priority scheduler, an optional feedback scheduler, semaphores, locks with priority donation and
  condition variables; \<^verbatim>\<open>devices/timer.c\<close> has the alarm list and drives preemption through the
  interrupt entry of \<^verbatim>\<open>threads/interrupt.c\<close>. \<^verbatim>\<open>lib/kernel\<close> has the containers everything is built on:
  intrusive lists, bitmaps, hash tables. \<^verbatim>\<open>devices/block.c\<close> and \<^verbatim>\<open>devices/partition.c\<close> give uniform
  access to disks and their partitions, and \<^verbatim>\<open>filesys/\<close> is a flat file system over one of them.
  \<^verbatim>\<open>lib/\<close> has the parts of the C library that the kernel brings along.

  \<^bold>\<open>Conventions\<close> (\<open>Prelude\<close>). An operation that can panic, fail an assertion, dereference an address
  without an object or loop for ever returns an \<open>option\<close>, and \<open>None\<close> stands for these outcomes, so
  that a theorem with a result \<open>Some\<close> says that the operation comes back. Loops are structural
  recursion, \<open>function\<close> with a termination proof, or \<open>partial_function (option)\<close>, for which
  not returning is \<open>None\<close>; there is no fuel. Integers
  are words or mathematical integers with the wrap-around of their C type written out
  (\<open>wrap_s32\<close>, \<open>wrap_u32\<close>, \<open>size_add\<close>). A call of \<open>malloc\<close> takes its outcome from the list \<open>allocs\<close> of
  the state, so failing allocations are part of the model; theorems that need memory say
  \<open>allocs s = []\<close>.

  \<^bold>\<open>Containers.\<close>
  \<^item> \<open>Kernel_List\<close> (\<^verbatim>\<open>lib/kernel/list.c\<close>, \<^verbatim>\<open>list.h\<close>): a heap of \<open>prev\<close>/\<open>next\<close> cells, every function of the
    file, and the representation predicate \<open>linked\<close>, under which each operation is an operation on
    sequences. \<open>List_Sort\<close>: ordered insertion, natural merge sort, duplicates, extrema, in the
    locale \<open>weak_order\<close> of comparison functions, extended to addresses by \<open>addr_order\<close> and
    interpreted for keys and for the comparison functions of the scheduler and the alarm list.
  \<^item> \<open>Bitmap\<close> (\<^verbatim>\<open>lib/kernel/bitmap.c\<close>): 32-bit elements, all operations; the locale \<open>slot_allocator\<close>
    is what the allocators built on bitmaps promise, interpreted by the bitmap itself and by the
    free map of the file system (\<open>Fs_Alloc\<close>).
  \<^item> \<open>Hash_Table\<close> (\<^verbatim>\<open>lib/kernel/hash.c\<close>): chained buckets, rehashing, iteration; the locale
    \<open>hash_client\<close> has the laws a client's hash and comparison functions must satisfy.

  \<^bold>\<open>Kernel.\<close>
  \<^item> \<open>Fixed_Point\<close> (\<^verbatim>\<open>threads/fixed-point.h\<close>); \<open>Threads\<close> (\<^verbatim>\<open>threads/thread.c\<close>, the interrupt level of
    \<^verbatim>\<open>threads/interrupt.c\<close>); \<open>Synch\<close> (\<^verbatim>\<open>threads/synch.c\<close>, thread creation, the idle thread); \<open>Timer\<close>
    (\<^verbatim>\<open>devices/timer.c\<close>, \<open>intr_handler\<close>). The state is the record \<open>kernel\<close>; an operation that may switch
    threads leaves a \<open>frame\<close> for its remainder.
  \<^item> \<open>Kernel_Steps\<close>: the transition system of all interleavings of operations, returns and timer
    interrupts, with its reachable states. \<open>Donation\<close>: the donation arrays of \<^verbatim>\<open>synch.c\<close> as a stack.
  \<^item> \<open>Kernel_Inv\<close>, \<open>Kernel_Safety\<close>: the invariant and that every step keeps it. \<open>Kernel_Props\<close>: what
    follows for every reachable state (mutual exclusion, highest priority
    first, due sleepers woken, donation and its return). \<open>Kernel_Queues\<close>: the queues of the model are
    what \<^verbatim>\<open>list.c\<close> computes on linked cells. \<open>Mlfqs\<close>: the formulas of the feedback scheduler.

  \<^bold>\<open>Storage.\<close>
  \<^item> \<open>Block\<close> (\<^verbatim>\<open>devices/block.c\<close> and the transfers of partitions): devices, roles, bounds checks;
    a disk is the sequence of its sectors. \<open>Partition\<close> (\<^verbatim>\<open>devices/partition.c\<close>): the table scan.
  \<^item> \<open>Inode\<close>, \<open>Free_Map\<close>, \<open>Directory\<close>: the definitions of \<^verbatim>\<open>filesys/inode.c\<close>, \<^verbatim>\<open>free-map.c\<close>, \<^verbatim>\<open>file.c\<close>,
    \<^verbatim>\<open>directory.c\<close>, \<^verbatim>\<open>filesys.c\<close> and the file transfers of \<^verbatim>\<open>bitmap.c\<close>, on the record \<open>fs\<close>, which extends
    that of the devices by the inodes, files and directories in memory and the free map.
  \<^item> \<open>Byte_Seq\<close>, \<open>Inode_IO\<close>: reading and writing an inode is reading and overwriting a sequence of
    bytes. \<open>Fs_Base\<close>, \<open>Dir_IO\<close>: formats on disk; a directory is a finite map from names to
    sectors. \<open>Fs_Alloc\<close>: the free map in memory and on disk. \<open>Fs_Inv\<close>: the invariant of the file
    system and its preservation under changes of the disk.

  \<^bold>\<open>Library.\<close> \<open>C_String\<close> (\<^verbatim>\<open>lib/string.c\<close>) on a flat memory of bytes, \<open>Stdlib\<close> (\<^verbatim>\<open>lib/stdlib.c\<close>), \<open>Arith64\<close>
  (\<^verbatim>\<open>lib/arithmetic.c\<close>, on the processor's 64 by 32 bit division).

  \<^bold>\<open>Not modelled.\<close> Drivers that program hardware registers (\<^verbatim>\<open>devices/ide.c\<close>, \<^verbatim>\<open>serial.c\<close>, \<^verbatim>\<open>kbd.c\<close>, \<^verbatim>\<open>vga.c\<close>,
  \<^verbatim>\<open>pit.c\<close>, \<^verbatim>\<open>rtc.c\<close>, \<^verbatim>\<open>speaker.c\<close>, \<^verbatim>\<open>shutdown.c\<close>) and assembly code, whose meaning is that of the devices;
  \<^verbatim>\<open>userprog/\<close>, which this configuration of the kernel does not compile; the formatted output of
  \<^verbatim>\<open>lib/stdio.c\<close> and everything that only prints; \<^verbatim>\<open>threads/palloc.c\<close> and \<^verbatim>\<open>threads/malloc.c\<close>, which the model
  represents by the outcomes of allocations; the programs under \<^verbatim>\<open>examples/\<close>, \<^verbatim>\<open>tests/\<close> and \<^verbatim>\<open>utils/\<close>.
\<close>

end
